theory Spec2Isabelle
  imports Main "HOL-Library.Monad_Syntax" "HOL-Library.Multiset"
begin

section \<open>Node layout (BPNodeLayout)\<close>

text \<open>
  The layout is computed from the node size (256 bytes), the 8 bytes of metadata and
  the key size. \<open>kKeySize\<close> is the \<open>uint16_t\<close> constant of the source; every derived
  constant is a \<open>uint16_t\<close> as well, so its value is reduced modulo \<open>2^16\<close>.
  \<open>NDEBUG\<close> says whether \<open>assert\<close> is compiled out.
\<close>

record config =
  kKeySize :: nat
  NDEBUG :: bool

definition kBPNodeSize :: nat where
  "kBPNodeSize = 256"

definition kKeyOffset :: nat where
  "kKeyOffset = 8"

definition kPtrSize :: nat where
  "kPtrSize = 8"

definition uint16 :: "nat \<Rightarrow> nat" where
  "uint16 x = x mod 65536"

definition kMaxLeafKeys :: "config \<Rightarrow> nat" where
  "kMaxLeafKeys cfg = uint16 ((kBPNodeSize - kKeyOffset) div kKeySize cfg)"

definition kMinLeafKeys :: "config \<Rightarrow> nat" where
  "kMinLeafKeys cfg = uint16 (kMaxLeafKeys cfg div 2)"

definition kMaxInnerKeys :: "config \<Rightarrow> nat" where
  "kMaxInnerKeys cfg =
     uint16 ((kBPNodeSize - kPtrSize - kKeyOffset) div (kKeySize cfg + kPtrSize))"

definition kMinInnerKeys :: "config \<Rightarrow> nat" where
  "kMinInnerKeys cfg = uint16 (kMaxInnerKeys cfg div 2)"

section \<open>Nodes in memory\<close>

text \<open>
  A node is a 256-byte block: the packed header (\<open>num_items_\<close> on 7 bits and the
  leaf flag), the key slots and, for an inner node, the child-pointer slots behind the
  key region. The slots are raw memory, so a slot beyond \<open>num_items\<close> holds whatever
  was written there last. Nodes refer to each other by address, and the methods of
  \<open>BPTreeNode\<close> mutate \<open>this\<close> and the nodes it points to, so the state is
  a heap from addresses to nodes. Address 0 is the null pointer.

  Every method returns an option: \<open>None\<close> stands for a failed \<open>assert\<close> (when
  they are compiled in), a null or dangling dereference, or an access to a key or child
  slot outside the node's capacity.
\<close>

type_synonym ptr = nat

definition nullptr :: ptr where
  "nullptr = 0"

record 'k BPTreeNode =
  num_items :: nat
  leaf :: bool
  key_slots :: "nat \<Rightarrow> 'k"
  child_slots :: "nat \<Rightarrow> ptr"

type_synonym 'k heap = "ptr \<Rightarrow> 'k BPTreeNode option"

definition deref :: "'k heap \<Rightarrow> ptr \<Rightarrow> 'k BPTreeNode option" where
  "deref h p = (if p = nullptr then None else h p)"

definition cassert :: "config \<Rightarrow> bool \<Rightarrow> unit option" where
  "cassert cfg c = (if NDEBUG cfg \<or> c then Some () else None)"

text \<open>Arithmetic on \<open>unsigned\<close> (32 bits), on values below \<open>2^32\<close>.\<close>

definition usub :: "nat \<Rightarrow> nat \<Rightarrow> nat" where
  "usub a b = (if b \<le> a then a - b else a + 2 ^ 32 - b)"

definition uadd :: "nat \<Rightarrow> nat \<Rightarrow> nat" where
  "uadd a b = (a + b) mod 2 ^ 32"

text \<open>
  A \<open>for\<close> loop whose bounds the body does not change runs its body over the list of
  the values its counter takes, threading the heap, and stops at the first failure.
\<close>

primrec for_loop :: "nat list \<Rightarrow> (nat \<Rightarrow> 's \<Rightarrow> 's option) \<Rightarrow> 's \<Rightarrow> 's option" where
  "for_loop [] body s = Some s"
| "for_loop (i # js) body s = body i s \<bind> for_loop js body"

subsection \<open>Accessors\<close>

definition MaxItems :: "config \<Rightarrow> 'k BPTreeNode \<Rightarrow> nat" where
  "MaxItems cfg n = (if leaf n then kMaxLeafKeys cfg else kMaxInnerKeys cfg)"

definition MinItems :: "config \<Rightarrow> 'k BPTreeNode \<Rightarrow> nat" where
  "MinItems cfg n = (if leaf n then kMinLeafKeys cfg else kMinInnerKeys cfg)"

definition AvailableSlotCount :: "config \<Rightarrow> 'k BPTreeNode \<Rightarrow> nat" where
  "AvailableSlotCount cfg n = usub (MaxItems cfg n) (num_items n)"

definition set_num_items :: "'k heap \<Rightarrow> ptr \<Rightarrow> nat \<Rightarrow> 'k heap option" where
  "set_num_items h this v =
     do { n \<leftarrow> deref h this; Some (h(this \<mapsto> n\<lparr>num_items := v mod 128\<rparr>)) }"

definition set_leaf :: "'k heap \<Rightarrow> ptr \<Rightarrow> bool \<Rightarrow> 'k heap option" where
  "set_leaf h this v =
     do { n \<leftarrow> deref h this; Some (h(this \<mapsto> n\<lparr>leaf := v\<rparr>)) }"

definition Key :: "config \<Rightarrow> 'k heap \<Rightarrow> ptr \<Rightarrow> nat \<Rightarrow> 'k option" where
  "Key cfg h this idx =
     do { n \<leftarrow> deref h this;
          if idx < MaxItems cfg n then Some (key_slots n idx) else None }"

definition SetKey :: "config \<Rightarrow> 'k heap \<Rightarrow> ptr \<Rightarrow> nat \<Rightarrow> 'k \<Rightarrow> 'k heap option" where
  "SetKey cfg h this idx item =
     do { n \<leftarrow> deref h this;
          if idx < MaxItems cfg n
          then Some (h(this \<mapsto> n\<lparr>key_slots := (key_slots n)(idx := item)\<rparr>))
          else None }"

definition Child :: "config \<Rightarrow> 'k heap \<Rightarrow> ptr \<Rightarrow> nat \<Rightarrow> ptr option" where
  "Child cfg h this i =
     do { n \<leftarrow> deref h this;
          if \<not> leaf n \<and> i \<le> kMaxInnerKeys cfg then Some (child_slots n i) else None }"

definition SetChild :: "config \<Rightarrow> 'k heap \<Rightarrow> ptr \<Rightarrow> nat \<Rightarrow> ptr \<Rightarrow> 'k heap option" where
  "SetChild cfg h this i child =
     do { n \<leftarrow> deref h this;
          if \<not> leaf n \<and> i \<le> kMaxInnerKeys cfg
          then Some (h(this \<mapsto> n\<lparr>child_slots := (child_slots n)(i := child)\<rparr>))
          else None }"

text \<open>
  \<open>memmove\<close> of \<open>n\<close> key slots (child slots) from slot \<open>si\<close> of node \<open>sp\<close> to
  slot \<open>di\<close> of node \<open>dp\<close>: all the source slots are read before any is written.
\<close>

definition memmove_keys ::
  "config \<Rightarrow> 'k heap \<Rightarrow> ptr \<Rightarrow> nat \<Rightarrow> ptr \<Rightarrow> nat \<Rightarrow> nat \<Rightarrow> 'k heap option" where
  "memmove_keys cfg h dp di sp si n =
     do { s \<leftarrow> deref h sp;
          d \<leftarrow> deref h dp;
          if si + n \<le> MaxItems cfg s \<and> di + n \<le> MaxItems cfg d
          then Some (h(dp \<mapsto> d\<lparr>key_slots :=
                   (\<lambda>j. if di \<le> j \<and> j < di + n then key_slots s (j - di + si)
                        else key_slots d j)\<rparr>))
          else None }"

definition memmove_children ::
  "config \<Rightarrow> 'k heap \<Rightarrow> ptr \<Rightarrow> nat \<Rightarrow> ptr \<Rightarrow> nat \<Rightarrow> nat \<Rightarrow> 'k heap option" where
  "memmove_children cfg h dp di sp si n =
     do { s \<leftarrow> deref h sp;
          d \<leftarrow> deref h dp;
          if \<not> leaf s \<and> \<not> leaf d
             \<and> si + n \<le> kMaxInnerKeys cfg + 1 \<and> di + n \<le> kMaxInnerKeys cfg + 1
          then Some (h(dp \<mapsto> d\<lparr>child_slots :=
                   (\<lambda>j. if di \<le> j \<and> j < di + n then child_slots s (j - di + si)
                        else child_slots d j)\<rparr>))
          else None }"

subsection \<open>BSearch\<close>

record SearchResult =
  index :: nat
  found :: bool

text \<open>
  \<open>lo\<close>, \<open>hi\<close> and \<open>mid\<close> are \<open>uint16_t\<close>; they never exceed \<open>num_items\<close>, a
  7-bit value, and \<open>lo + hi\<close> is computed on \<open>int\<close>, so nothing wraps.
\<close>

function BSearch_loop ::
  "config \<Rightarrow> 'k heap \<Rightarrow> ptr \<Rightarrow> 'k \<Rightarrow> ('k \<Rightarrow> 'k \<Rightarrow> int) \<Rightarrow> nat \<Rightarrow> nat \<Rightarrow> SearchResult option" where
  "BSearch_loop cfg h this key cmp_op lo hi =
     (if lo < hi then
        do { cassert cfg ((lo + hi) div 2 < hi);
             item \<leftarrow> Key cfg h this ((lo + hi) div 2);
             if cmp_op key item = 0 then Some \<lparr>index = (lo + hi) div 2, found = True\<rparr>
             else if cmp_op key item < 0
               then BSearch_loop cfg h this key cmp_op lo ((lo + hi) div 2)
               else BSearch_loop cfg h this key cmp_op ((lo + hi) div 2 + 1) hi }
      else do { cassert cfg (lo = hi); Some \<lparr>index = hi, found = False\<rparr> })"
  by pat_completeness auto
termination
  by (relation "measure (\<lambda>(cfg, h, this, key, cmp_op, lo, hi). hi - lo)") auto

declare BSearch_loop.simps [simp del]

definition BSearch ::
  "config \<Rightarrow> 'k heap \<Rightarrow> ptr \<Rightarrow> 'k \<Rightarrow> ('k \<Rightarrow> 'k \<Rightarrow> int) \<Rightarrow> SearchResult option" where
  "BSearch cfg h this key cmp_op =
     do { n \<leftarrow> deref h this; BSearch_loop cfg h this key cmp_op 0 (num_items n) }"

subsection \<open>ShiftRight, ShiftLeft and the insertion into a slot\<close>

definition ShiftRight :: "config \<Rightarrow> 'k heap \<Rightarrow> ptr \<Rightarrow> nat \<Rightarrow> 'k heap option" where
  "ShiftRight cfg h this idx =
     do { n \<leftarrow> deref h this;
          let num_items_to_shift = usub (num_items n) idx;
          h \<leftarrow> (if num_items_to_shift > 0 then
                 do { h \<leftarrow> memmove_keys cfg h this (idx + 1) this idx num_items_to_shift;
                      n \<leftarrow> deref h this;
                      if \<not> leaf n
                      then memmove_children cfg h this (idx + 1) this idx
                             (num_items_to_shift + 1)
                      else Some h }
               else Some h);
          n \<leftarrow> deref h this;
          set_num_items h this (num_items n + 1) }"

definition ShiftLeft :: "config \<Rightarrow> 'k heap \<Rightarrow> ptr \<Rightarrow> nat \<Rightarrow> bool \<Rightarrow> 'k heap option" where
  "ShiftLeft cfg h this idx child_step_right =
     do { n \<leftarrow> deref h this;
          cassert cfg (idx < num_items n);
          let num_items_to_shift = usub (usub (num_items n) idx) 1;
          h \<leftarrow> (if num_items_to_shift > 0 then
                 do { h \<leftarrow> memmove_keys cfg h this idx this (idx + 1) num_items_to_shift;
                      n \<leftarrow> deref h this;
                      if \<not> leaf n then
                        do { let idx = idx + (if child_step_right then 1 else 0);
                             let num_items_to_shift = usub (num_items n) idx;
                             if num_items_to_shift > 0
                             then memmove_children cfg h this idx this (idx + 1)
                                    num_items_to_shift
                             else Some h }
                      else Some h }
               else Some h);
          n \<leftarrow> deref h this;
          set_num_items h this (usub (num_items n) 1) }"

definition InsertItem :: "config \<Rightarrow> ('k::ord) heap \<Rightarrow> ptr \<Rightarrow> nat \<Rightarrow> 'k \<Rightarrow> 'k heap option" where
  "InsertItem cfg h this idx item =
     do { n \<leftarrow> deref h this;
          cassert cfg (idx \<le> num_items n);
          (if NDEBUG cfg \<or> idx = 0 then Some ()
           else do { k \<leftarrow> Key cfg h this (usub idx 1); cassert cfg (k < item) });
          (if NDEBUG cfg \<or> idx = num_items n then Some ()
           else do { k \<leftarrow> Key cfg h this idx; cassert cfg (k > item) });
          h \<leftarrow> ShiftRight cfg h this idx;
          SetKey cfg h this idx item }"

definition LeafInsert :: "config \<Rightarrow> ('k::ord) heap \<Rightarrow> ptr \<Rightarrow> nat \<Rightarrow> 'k \<Rightarrow> 'k heap option" where
  "LeafInsert cfg h this idx item =
     do { n \<leftarrow> deref h this;
          cassert cfg (leaf n \<and> num_items n < MaxItems cfg n);
          InsertItem cfg h this idx item }"

definition InnerInsert ::
  "config \<Rightarrow> ('k::ord) heap \<Rightarrow> ptr \<Rightarrow> nat \<Rightarrow> 'k \<Rightarrow> ptr \<Rightarrow> 'k heap option" where
  "InnerInsert cfg h this idx item child =
     do { h \<leftarrow> InsertItem cfg h this idx item;
          SetChild cfg h this (idx + 1) child }"

subsection \<open>Split and MergeFromRight\<close>

text \<open>\<open>Split\<close> returns the heap together with the key stored through \<open>median\<close>.\<close>

definition Split :: "config \<Rightarrow> 'k heap \<Rightarrow> ptr \<Rightarrow> ptr \<Rightarrow> ('k heap \<times> 'k) option" where
  "Split cfg h this right =
     do { n \<leftarrow> deref h this;
          let mid = num_items n div 2;
          median \<leftarrow> Key cfg h this mid;
          h \<leftarrow> set_leaf h right (leaf n);
          n \<leftarrow> deref h this;
          h \<leftarrow> set_num_items h right (usub (num_items n) (mid + 1));
          r \<leftarrow> deref h right;
          h \<leftarrow> memmove_keys cfg h right 0 this (mid + 1) (num_items r);
          n \<leftarrow> deref h this;
          h \<leftarrow> (if \<not> leaf n then
                 do { r \<leftarrow> deref h right;
                      for_loop [0..<Suc (num_items r)]
                        (\<lambda>i h. do { c \<leftarrow> Child cfg h this (mid + 1 + i);
                                    SetChild cfg h right i c }) h }
               else Some h);
          h \<leftarrow> set_num_items h this mid;
          Some (h, median) }"

definition MergeFromRight :: "config \<Rightarrow> 'k heap \<Rightarrow> ptr \<Rightarrow> 'k \<Rightarrow> ptr \<Rightarrow> 'k heap option" where
  "MergeFromRight cfg h this key right =
     do { n \<leftarrow> deref h this;
          r \<leftarrow> deref h right;
          cassert cfg (num_items n + 1 + num_items r \<le> MaxItems cfg n);
          let dest_items = num_items n;
          h \<leftarrow> SetKey cfg h this dest_items key;
          r \<leftarrow> deref h right;
          h \<leftarrow> for_loop [0..<num_items r]
                 (\<lambda>i h. do { k \<leftarrow> Key cfg h right i;
                             SetKey cfg h this (dest_items + 1 + i) k }) h;
          n \<leftarrow> deref h this;
          h \<leftarrow> (if \<not> leaf n then
                 do { r \<leftarrow> deref h right;
                      for_loop [0..<Suc (num_items r)]
                        (\<lambda>i h. do { c \<leftarrow> Child cfg h right i;
                                    SetChild cfg h this (dest_items + 1 + i) c }) h }
               else Some h);
          n \<leftarrow> deref h this;
          r \<leftarrow> deref h right;
          h \<leftarrow> set_num_items h this (num_items n + (1 + num_items r));
          set_num_items h right 0 }"

subsection \<open>Moving items between two adjacent children\<close>

definition RebalanceChildToLeft :: "config \<Rightarrow> 'k heap \<Rightarrow> ptr \<Rightarrow> nat \<Rightarrow> nat \<Rightarrow> 'k heap option" where
  "RebalanceChildToLeft cfg h this child_pos cnt =
     do { cassert cfg (child_pos > 0);
          src \<leftarrow> Child cfg h this child_pos;
          dest \<leftarrow> Child cfg h this (usub child_pos 1);
          s \<leftarrow> deref h src;
          d \<leftarrow> deref h dest;
          cassert cfg (num_items s \<ge> cnt);
          cassert cfg (cnt \<ge> 1);
          cassert cfg (AvailableSlotCount cfg d \<ge> cnt);
          let dest_items = num_items d;
          delim \<leftarrow> Key cfg h this (usub child_pos 1);
          h \<leftarrow> SetKey cfg h dest dest_items delim;
          h \<leftarrow> for_loop [1..<cnt]
                 (\<lambda>i h. do { k \<leftarrow> Key cfg h src (i - 1);
                             SetKey cfg h dest (dest_items + i) k }) h;
          k \<leftarrow> Key cfg h src (usub cnt 1);
          h \<leftarrow> SetKey cfg h this (usub child_pos 1) k;
          s \<leftarrow> deref h src;
          h \<leftarrow> for_loop [cnt..<num_items s]
                 (\<lambda>i h. do { k \<leftarrow> Key cfg h src i;
                             SetKey cfg h src (i - cnt) k }) h;
          s \<leftarrow> deref h src;
          h \<leftarrow> (if \<not> leaf s then
                 do { h \<leftarrow> for_loop [0..<cnt]
                             (\<lambda>i h. do { d \<leftarrow> deref h dest;
                                         c \<leftarrow> Child cfg h src i;
                                         SetChild cfg h dest (1 + num_items d + i) c }) h;
                      s \<leftarrow> deref h src;
                      for_loop [cnt..<Suc (num_items s)]
                        (\<lambda>i h. do { c \<leftarrow> Child cfg h src i;
                                    h \<leftarrow> SetChild cfg h src (i - cnt) c;
                                    SetChild cfg h src i nullptr }) h }
               else Some h);
          d \<leftarrow> deref h dest;
          h \<leftarrow> set_num_items h dest (num_items d + cnt);
          s \<leftarrow> deref h src;
          set_num_items h src (usub (num_items s) cnt) }"

text \<open>
  The two descending loops of \<open>RebalanceChildToRight\<close> cnt on \<open>int\<close> from
  \<open>dest_items - 1\<close> (from \<open>dest_items\<close>) down to 0.
\<close>

definition RebalanceChildToRight :: "config \<Rightarrow> 'k heap \<Rightarrow> ptr \<Rightarrow> nat \<Rightarrow> nat \<Rightarrow> 'k heap option" where
  "RebalanceChildToRight cfg h this child_pos cnt =
     do { n \<leftarrow> deref h this;
          cassert cfg (child_pos < num_items n);
          src \<leftarrow> Child cfg h this child_pos;
          dest \<leftarrow> Child cfg h this (child_pos + 1);
          s \<leftarrow> deref h src;
          d \<leftarrow> deref h dest;
          cassert cfg (num_items s \<ge> cnt);
          cassert cfg (cnt \<ge> 1);
          cassert cfg (AvailableSlotCount cfg d \<ge> cnt);
          let dest_items = num_items d;
          cassert cfg (dest_items > 0);
          h \<leftarrow> for_loop (rev [0..<dest_items])
                 (\<lambda>i h. do { k \<leftarrow> Key cfg h dest i;
                             SetKey cfg h dest (i + cnt) k }) h;
          s \<leftarrow> deref h src;
          new_delim \<leftarrow> Key cfg h src (usub (num_items s) cnt);
          h \<leftarrow> for_loop [1..<cnt]
                 (\<lambda>i h. do { s \<leftarrow> deref h src;
                             let src_id = uadd (usub (num_items s) cnt) i;
                             k \<leftarrow> Key cfg h src src_id;
                             SetKey cfg h dest (i - 1) k }) h;
          k \<leftarrow> Key cfg h this child_pos;
          h \<leftarrow> SetKey cfg h dest (usub cnt 1) k;
          h \<leftarrow> SetKey cfg h this child_pos new_delim;
          s \<leftarrow> deref h src;
          h \<leftarrow> (if \<not> leaf s then
                 do { h \<leftarrow> for_loop (rev [0..<Suc dest_items])
                             (\<lambda>i h. do { c \<leftarrow> Child cfg h dest i;
                                         SetChild cfg h dest (i + cnt) c }) h;
                      for_loop [0..<cnt]
                        (\<lambda>i h. do { s \<leftarrow> deref h src;
                                    let src_id = uadd (usub (num_items s) (usub cnt 1)) i;
                                    c \<leftarrow> Child cfg h src src_id;
                                    h \<leftarrow> SetChild cfg h dest i c;
                                    SetChild cfg h src src_id nullptr }) h }
               else Some h);
          d \<leftarrow> deref h dest;
          h \<leftarrow> set_num_items h dest (num_items d + cnt);
          s \<leftarrow> deref h src;
          set_num_items h src (usub (num_items s) cnt) }"

subsection \<open>RebalanceChild\<close>

text \<open>
  \<open>RebalanceChild\<close> returns the heap, the node to insert into and the position
  there; the node is \<open>nullptr\<close> when nothing could be moved. \<open>to_move\<close> is 0
  wherever the source leaves the part on the left sibling without returning, so the part
  on the right sibling, \<open>RebalanceChild_right\<close>, starts from 0 as well.
\<close>

definition RebalanceChild_right ::
  "config \<Rightarrow> 'k heap \<Rightarrow> ptr \<Rightarrow> nat \<Rightarrow> nat \<Rightarrow> ptr \<Rightarrow> ('k heap \<times> ptr \<times> nat) option" where
  "RebalanceChild_right cfg h this pos insert_pos node =
     do { n \<leftarrow> deref h this;
          if pos < num_items n then
            do { right \<leftarrow> Child cfg h this (pos + 1);
                 r \<leftarrow> deref h right;
                 let dest_free = AvailableSlotCount cfg r;
                 if dest_free > 0 then
                   do { to_move \<leftarrow>
                          (if insert_pos = 0 then
                             do { c \<leftarrow> deref h node;
                                  cassert cfg (dest_free < num_items c);
                                  Some dest_free }
                           else if dest_free > 1 then Some (dest_free div 2)
                           else Some 0);
                        if to_move \<noteq> 0 then
                          do { h \<leftarrow> RebalanceChildToRight cfg h this pos to_move;
                               c \<leftarrow> deref h node;
                               if insert_pos > num_items c
                               then Some (h, right, usub insert_pos (num_items c + 1))
                               else Some (h, node, insert_pos) }
                        else Some (h, nullptr, 0) }
                 else Some (h, nullptr, 0) }
          else Some (h, nullptr, 0) }"

definition RebalanceChild ::
  "config \<Rightarrow> 'k heap \<Rightarrow> ptr \<Rightarrow> nat \<Rightarrow> nat \<Rightarrow> ('k heap \<times> ptr \<times> nat) option" where
  "RebalanceChild cfg h this pos insert_pos =
     do { node \<leftarrow> Child cfg h this pos;
          if pos > 0 then
            do { left \<leftarrow> Child cfg h this (pos - 1);
                 l \<leftarrow> deref h left;
                 let dest_free = AvailableSlotCount cfg l;
                 if dest_free > 0 then
                   do { c \<leftarrow> deref h node;
                        to_move \<leftarrow>
                          (if insert_pos = num_items c then
                             do { cassert cfg (dest_free < num_items c);
                                  Some dest_free }
                           else if dest_free > 1 then Some (dest_free div 2)
                           else Some 0);
                        if to_move \<noteq> 0 then
                          do { let dest_old_count = num_items l;
                               h \<leftarrow> RebalanceChildToLeft cfg h this pos to_move;
                               c \<leftarrow> deref h node;
                               cassert cfg (AvailableSlotCount cfg c = to_move);
                               if insert_pos < to_move then
                                 do { l \<leftarrow> deref h left;
                                      cassert cfg (AvailableSlotCount cfg l > 0);
                                      Some (h, left, dest_old_count + insert_pos + 1) }
                               else Some (h, node, insert_pos - to_move) }
                        else RebalanceChild_right cfg h this pos insert_pos node }
                 else RebalanceChild_right cfg h this pos insert_pos node }
          else RebalanceChild_right cfg h this pos insert_pos node }"

subsection \<open>MergeOrRebalanceChild\<close>

text \<open>
  \<open>MergeOrRebalanceChild\<close> returns the heap and the retired node, \<open>nullptr\<close>
  when the children were rebalanced. \<open>MergeOrRebalanceChild_right\<close> is the source
  from the test \<open>pos < NumItems()\<close> on, reached when the left sibling did not absorb
  the child; \<open>left\<close> is \<open>nullptr\<close> there when the child has no left sibling.
\<close>

definition MergeOrRebalanceChild_right ::
  "config \<Rightarrow> 'k heap \<Rightarrow> ptr \<Rightarrow> nat \<Rightarrow> ptr \<Rightarrow> ptr \<Rightarrow> ('k heap \<times> ptr) option" where
  "MergeOrRebalanceChild_right cfg h this pos node left =
     do { n \<leftarrow> deref h this;
          if pos < num_items n then
            do { right \<leftarrow> Child cfg h this (pos + 1);
                 c \<leftarrow> deref h node;
                 r \<leftarrow> deref h right;
                 if num_items c + 1 + num_items r \<le> MaxItems cfg r then
                   do { k \<leftarrow> Key cfg h this pos;
                        h \<leftarrow> MergeFromRight cfg h node k right;
                        h \<leftarrow> ShiftLeft cfg h this pos True;
                        Some (h, right) }
                 else
                   do { let to_move = usub (num_items r) (num_items c) div 2;
                        cassert cfg (to_move < num_items r);
                        h \<leftarrow> RebalanceChildToLeft cfg h this (pos + 1) to_move;
                        Some (h, nullptr) } }
          else
            do { cassert cfg (left \<noteq> nullptr);
                 if left \<noteq> nullptr then
                   do { l \<leftarrow> deref h left;
                        c \<leftarrow> deref h node;
                        let to_move = usub (num_items l) (num_items c) div 2;
                        cassert cfg (to_move < num_items l);
                        h \<leftarrow> RebalanceChildToRight cfg h this (usub pos 1) to_move;
                        Some (h, nullptr) }
                 else Some (h, nullptr) } }"

definition MergeOrRebalanceChild ::
  "config \<Rightarrow> 'k heap \<Rightarrow> ptr \<Rightarrow> nat \<Rightarrow> ('k heap \<times> ptr) option" where
  "MergeOrRebalanceChild cfg h this pos =
     do { node \<leftarrow> Child cfg h this pos;
          n \<leftarrow> deref h this;
          cassert cfg (num_items n \<ge> 1);
          (if NDEBUG cfg then Some ()
           else do { c \<leftarrow> deref h node; cassert cfg (num_items c < MinItems cfg c) });
          if pos > 0 then
            do { left \<leftarrow> Child cfg h this (pos - 1);
                 l \<leftarrow> deref h left;
                 c \<leftarrow> deref h node;
                 if num_items l + 1 + num_items c \<le> MaxItems cfg l then
                   do { k \<leftarrow> Key cfg h this (pos - 1);
                        h \<leftarrow> MergeFromRight cfg h left k node;
                        h \<leftarrow> ShiftLeft cfg h this (pos - 1) True;
                        Some (h, node) }
                 else MergeOrRebalanceChild_right cfg h this pos node left }
          else MergeOrRebalanceChild_right cfg h this pos node nullptr }"

subsection \<open>What a node holds\<close>

text \<open>
  The keys of a node are its first \<open>num_items\<close> key slots; the children of an inner
  node are its first \<open>num_items + 1\<close> child slots.
\<close>

definition keys_of :: "'k BPTreeNode \<Rightarrow> 'k list" where
  "keys_of n = map (key_slots n) [0..<num_items n]"

definition children_of :: "'k BPTreeNode \<Rightarrow> ptr list" where
  "children_of n = (if leaf n then [] else map (child_slots n) [0..<Suc (num_items n)])"

subsection \<open>Example nodes\<close>

text \<open>
  Concrete nodes over natural-number keys, for evaluating the methods: a node built from
  the list of its keys (and children); the unused slots hold 0. With 64-byte
  keys a leaf and an inner node both hold at most 3 keys and at least 1.
\<close>

definition slots :: "'a list \<Rightarrow> 'a \<Rightarrow> nat \<Rightarrow> 'a" where
  "slots xs d = (\<lambda>i. if i < length xs then xs ! i else d)"

definition leaf_node :: "nat list \<Rightarrow> nat BPTreeNode" where
  "leaf_node ks =
     \<lparr>num_items = length ks, leaf = True, key_slots = slots ks 0,
      child_slots = (\<lambda>_. nullptr)\<rparr>"

definition inner_node :: "nat list \<Rightarrow> ptr list \<Rightarrow> nat BPTreeNode" where
  "inner_node ks cs =
     \<lparr>num_items = length ks, leaf = False, key_slots = slots ks 0,
      child_slots = slots cs nullptr\<rparr>"

definition cfg64 :: config where
  "cfg64 = \<lparr>kKeySize = 64, NDEBUG = False\<rparr>"

subsection \<open>The compile-time assertion of the layout\<close>

text \<open>\<open>static_assert(kMaxLeafKeys < 128)\<close>: the configurations that compile.\<close>

definition layout_valid :: "config \<Rightarrow> bool" where
  "layout_valid cfg \<longleftrightarrow> kMaxLeafKeys cfg < 128"

subsection \<open>The keys below an inner node, in order\<close>

text \<open>
  The in-order sequence of the keys of an inner node and of its children: the keys of
  child 0, key 0, the keys of child 1, key 1, and so on to the keys of the last child.
  \<open>inorder_children\<close> is the sequence of the children of its children (empty when
  they are leaves).
\<close>

definition keys_at :: "'k heap \<Rightarrow> ptr \<Rightarrow> 'k list" where
  "keys_at h p = (case deref h p of None \<Rightarrow> [] | Some n \<Rightarrow> keys_of n)"

definition children_at :: "'k heap \<Rightarrow> ptr \<Rightarrow> ptr list" where
  "children_at h p = (case deref h p of None \<Rightarrow> [] | Some n \<Rightarrow> children_of n)"

definition inorder_keys :: "'k heap \<Rightarrow> ptr \<Rightarrow> 'k list" where
  "inorder_keys h this =
     (case deref h this of
        None \<Rightarrow> []
      | Some n \<Rightarrow>
          concat (map (\<lambda>i. keys_at h (child_slots n i) @ [key_slots n i]) [0..<num_items n])
          @ keys_at h (child_slots n (num_items n)))"

definition inorder_children :: "'k heap \<Rightarrow> ptr \<Rightarrow> ptr list" where
  "inorder_children h this =
     (case deref h this of
        None \<Rightarrow> []
      | Some n \<Rightarrow> concat (map (\<lambda>i. children_at h (child_slots n i)) [0..<Suc (num_items n)]))"

text \<open>
  The part of the in-order sequence before the keys of the child at position \<open>a\<close>,
  and the part after the keys of the child at position \<open>b\<close>; likewise for the
  children of the children.
\<close>

definition keys_before :: "'k heap \<Rightarrow> 'k BPTreeNode \<Rightarrow> nat \<Rightarrow> 'k list" where
  "keys_before h n a =
     concat (map (\<lambda>i. keys_at h (child_slots n i) @ [key_slots n i]) [0..<a])"

definition keys_after :: "'k heap \<Rightarrow> 'k BPTreeNode \<Rightarrow> nat \<Rightarrow> 'k list" where
  "keys_after h n b =
     concat (map (\<lambda>i. key_slots n i # keys_at h (child_slots n (Suc i))) [b..<num_items n])"

definition children_before :: "'k heap \<Rightarrow> 'k BPTreeNode \<Rightarrow> nat \<Rightarrow> ptr list" where
  "children_before h n a = concat (map (\<lambda>i. children_at h (child_slots n i)) [0..<a])"

definition children_after :: "'k heap \<Rightarrow> 'k BPTreeNode \<Rightarrow> nat \<Rightarrow> ptr list" where
  "children_after h n b =
     concat (map (\<lambda>i. children_at h (child_slots n (Suc i))) [b..<num_items n])"

section \<open>Results for the layout\<close>

text \<open>
  C9. For every key size of at least two bytes the leaf capacity is
  \<open>(256 - 8) div kKeySize\<close> and is below 128, so a count fits the 7-bit field of the
  header; for 8-byte keys a leaf holds 31 keys and an inner node 15.
\<close>

theorem C9_leaf_capacity_fits_count_field:
  assumes "2 \<le> kKeySize cfg"
  shows "kMaxLeafKeys cfg = (256 - 8) div kKeySize cfg
       \<and> kMaxLeafKeys cfg < 128
       \<and> (kKeySize cfg = 8 \<longrightarrow>
            kMaxLeafKeys cfg = 31 \<and> kMaxInnerKeys cfg = (256 - 8 - 8) div (8 + 8)
          \<and> kMaxInnerKeys cfg = 15)"
proof -
  have le: "(248::nat) div kKeySize cfg \<le> 248 div 2"
    using assms by (intro div_le_mono2) simp_all
  then have small: "(248::nat) div kKeySize cfg \<le> 124"
    by simp
  then have "kMaxLeafKeys cfg = 248 div kKeySize cfg"
    by (simp add: kMaxLeafKeys_def uint16_def kBPNodeSize_def kKeyOffset_def)
  with small show ?thesis
    by (simp add: kMaxInnerKeys_def uint16_def kBPNodeSize_def kKeyOffset_def kPtrSize_def)
qed

theorem C9_witness:
  "kMaxLeafKeys \<lparr>kKeySize = 8, NDEBUG = False\<rparr> = 31
   \<and> kMaxLeafKeys \<lparr>kKeySize = 8, NDEBUG = False\<rparr> < 128
   \<and> kMaxInnerKeys \<lparr>kKeySize = 8, NDEBUG = False\<rparr> = 15"
  using C9_leaf_capacity_fits_count_field [of "\<lparr>kKeySize = 8, NDEBUG = False\<rparr>"]
  by simp

section \<open>Basic facts\<close>

lemma usub_le [simp]: "b \<le> a \<Longrightarrow> usub a b = a - b"
  by (simp add: usub_def)

lemma uadd_small [simp]: "a + b < 4294967296 \<Longrightarrow> uadd a b = a + b"
  by (simp add: uadd_def)

lemma cassert_holds [simp]: "c \<Longrightarrow> cassert cfg c = Some ()"
  by (simp add: cassert_def)

lemma cassert_NDEBUG [simp]: "NDEBUG cfg \<Longrightarrow> cassert cfg c = Some ()"
  by (simp add: cassert_def)

lemma deref_nonnull: "deref h p = Some n \<Longrightarrow> p \<noteq> nullptr"
  by (auto simp: deref_def split: if_splits)

lemma deref_upd [simp]:
  "p \<noteq> nullptr \<Longrightarrow> deref (h(p \<mapsto> n)) q = (if q = p then Some n else deref h q)"
  by (simp add: deref_def)

lemma Key_eq:
  "deref h p = Some n \<Longrightarrow> i < MaxItems cfg n \<Longrightarrow> Key cfg h p i = Some (key_slots n i)"
  by (simp add: Key_def)

lemma keys_of_nth: "i < num_items n \<Longrightarrow> keys_of n ! i = key_slots n i"
  by (simp add: keys_of_def)

lemma length_keys_of [simp]: "length (keys_of n) = num_items n"
  by (simp add: keys_of_def)

lemma BSearch_loop_correct:
  fixes key :: "'k::linorder"
  assumes n: "deref h this = Some n" and cap: "num_items n \<le> MaxItems cfg n"
    and cmp: "\<And>a b. (cmp_op a b < 0 \<longleftrightarrow> a < b) \<and> (cmp_op a b = 0 \<longleftrightarrow> a = b)"
    and srt: "sorted_wrt (<) (keys_of n)"
    and "lo \<le> hi" "hi \<le> num_items n"
    and "\<forall>j<lo. key_slots n j < key"
    and "\<forall>j. hi \<le> j \<and> j < num_items n \<longrightarrow> key < key_slots n j"
  shows "\<exists>r. BSearch_loop cfg h this key cmp_op lo hi = Some r
          \<and> index r \<le> num_items n
          \<and> (\<forall>j<index r. key_slots n j < key)
          \<and> (index r < num_items n \<longrightarrow> key \<le> key_slots n (index r))
          \<and> (found r \<longleftrightarrow> index r < num_items n \<and> key_slots n (index r) = key)"
  using assms
proof (induction cfg h this key cmp_op lo hi rule: BSearch_loop.induct)
  case (1 cfg h this key cmp_op lo hi)
  note n = "1.prems"(1) and cap = "1.prems"(2) and cmp = "1.prems"(3) and srt = "1.prems"(4)
  note lohi = "1.prems"(5) and hin = "1.prems"(6) and below = "1.prems"(7) and above = "1.prems"(8)
  have mono: "key_slots n i < key_slots n j" if "i < j" "j < num_items n" for i j
    using srt that by (simp add: sorted_wrt_iff_nth_less keys_of_nth)
  show ?case
  proof (cases "lo < hi")
    case False
    with lohi have eq: "lo = hi" by simp
    have "hi < num_items n \<Longrightarrow> key \<le> key_slots n hi"
      using above by (simp add: less_imp_le)
    with False eq lohi hin below above show ?thesis
      by (subst BSearch_loop.simps) auto
  next
    case True
    define mid where "mid = (lo + hi) div 2"
    have mid: "lo \<le> mid" "mid < hi" using True by (simp_all add: mid_def)
    then have midn: "mid < num_items n" using hin by simp
    have key: "Key cfg h this mid = Some (key_slots n mid)"
      using n cap midn by (simp add: Key_eq)
    consider (eq) "key = key_slots n mid" | (lt) "key < key_slots n mid" | (gt) "key_slots n mid < key"
      by (metis less_linear)
    then show ?thesis
    proof cases
      case eq
      then have c0: "cmp_op key (key_slots n mid) = 0" using cmp by simp
      have below': "\<forall>j<mid. key_slots n j < key"
        using eq mono midn by simp
      show ?thesis
        using True mid midn key c0 eq below'
        by (subst BSearch_loop.simps) (simp add: mid_def [symmetric])
    next
      case lt
      then have c: "cmp_op key (key_slots n mid) < 0" "cmp_op key (key_slots n mid) \<noteq> 0"
        using cmp by auto
      have inv: "\<forall>j. mid \<le> j \<and> j < num_items n \<longrightarrow> key < key_slots n j"
      proof (intro allI impI)
        fix j assume j: "mid \<le> j \<and> j < num_items n"
        show "key < key_slots n j"
        proof (cases "j = mid")
          case True then show ?thesis using lt by simp
        next
          case False
          then have "key_slots n mid < key_slots n j" using j mono by simp
          with lt show ?thesis by simp
        qed
      qed
      have IH: "\<exists>r. BSearch_loop cfg h this key cmp_op lo mid = Some r
          \<and> index r \<le> num_items n
          \<and> (\<forall>j<index r. key_slots n j < key)
          \<and> (index r < num_items n \<longrightarrow> key \<le> key_slots n (index r))
          \<and> (found r \<longleftrightarrow> index r < num_items n \<and> key_slots n (index r) = key)"
        using "1.IH"(1) [OF True _ _ _ _ n cap cmp srt, of "()" "key_slots n mid"]
          c mid midn below inv key
        by (simp add: mid_def [symmetric])
      show ?thesis
        using IH True mid key c
        by (subst BSearch_loop.simps) (simp add: mid_def [symmetric])
    next
      case gt
      then have c: "\<not> cmp_op key (key_slots n mid) < 0" "cmp_op key (key_slots n mid) \<noteq> 0"
        using cmp by auto
      have inv: "\<forall>j<mid + 1. key_slots n j < key"
      proof (intro allI impI)
        fix j assume j: "j < mid + 1"
        show "key_slots n j < key"
        proof (cases "j = mid")
          case True then show ?thesis using gt by simp
        next
          case False
          then have "key_slots n j < key_slots n mid" using j mono midn by simp
          with gt show ?thesis by simp
        qed
      qed
      have IH: "\<exists>r. BSearch_loop cfg h this key cmp_op (mid + 1) hi = Some r
          \<and> index r \<le> num_items n
          \<and> (\<forall>j<index r. key_slots n j < key)
          \<and> (index r < num_items n \<longrightarrow> key \<le> key_slots n (index r))
          \<and> (found r \<longleftrightarrow> index r < num_items n \<and> key_slots n (index r) = key)"
        using "1.IH"(2) [OF True _ _ _ _ n cap cmp srt, of "()" "key_slots n mid"]
          c mid midn above hin inv key
        by (simp add: mid_def [symmetric])
      show ?thesis
        using IH True mid key c
        by (subst BSearch_loop.simps) (simp add: mid_def [symmetric])
    qed
  qed
qed


lemma cfg64_layout [simp]:
  "kMaxLeafKeys cfg64 = 3" "kMinLeafKeys cfg64 = 1" "kMaxInnerKeys cfg64 = 3" "kMinInnerKeys cfg64 = 1"
  "NDEBUG cfg64 = False"
  by (simp_all add: cfg64_def kMaxLeafKeys_def kMinLeafKeys_def kMaxInnerKeys_def kMinInnerKeys_def
      uint16_def kBPNodeSize_def kKeyOffset_def kPtrSize_def)

lemma node_simps [simp]:
  "num_items (leaf_node ks) = length ks" "leaf (leaf_node ks)"
  "num_items (inner_node ks cs) = length ks" "\<not> leaf (inner_node ks cs)"
  "key_slots (leaf_node ks) = slots ks 0" "key_slots (inner_node ks cs) = slots ks 0"
  "child_slots (inner_node ks cs) = slots cs nullptr"
  by (simp_all add: leaf_node_def inner_node_def)

lemma keys_of_example [simp]:
  "keys_of (leaf_node ks) = ks" "keys_of (inner_node ks cs) = ks"
  by (auto simp: keys_of_def slots_def leaf_node_def inner_node_def intro!: nth_equalityI)

section \<open>BSearch\<close>

text \<open>
  C1. On a node whose keys are strictly increasing, for a comparator that agrees with
  the order of the keys, \<open>BSearch\<close> returns the least index \<open>i\<close> of
  \<open>[0, num_items]\<close> such that \<open>i = num_items\<close> or the key at slot \<open>i\<close> is
  at least the searched key: every key before it is smaller. \<open>found\<close> holds exactly
  when that index is a slot of the node and holds the searched key. When the key is
  absent, the index is therefore the child slot between the smaller and the larger keys.
\<close>

theorem C1_BSearch:
  fixes key :: "'k::linorder"
  assumes "deref h this = Some n" and "num_items n \<le> MaxItems cfg n"
    and "\<And>a b. (cmp_op a b < 0 \<longleftrightarrow> a < b) \<and> (cmp_op a b = 0 \<longleftrightarrow> a = b)"
    and "sorted_wrt (<) (keys_of n)"
  shows "\<exists>r. BSearch cfg h this key cmp_op = Some r
          \<and> index r = (LEAST i. i = num_items n \<or> key \<le> key_slots n i)
          \<and> index r \<le> num_items n
          \<and> (\<forall>j<index r. key_slots n j < key)
          \<and> (found r \<longleftrightarrow> index r < num_items n \<and> key_slots n (index r) = key)"
proof -
  obtain r where r: "BSearch_loop cfg h this key cmp_op 0 (num_items n) = Some r"
      "index r \<le> num_items n" "\<forall>j<index r. key_slots n j < key"
      "index r < num_items n \<longrightarrow> key \<le> key_slots n (index r)"
      "found r \<longleftrightarrow> index r < num_items n \<and> key_slots n (index r) = key"
  proof -
    have "\<forall>j. num_items n \<le> j \<and> j < num_items n \<longrightarrow> key < key_slots n j"
      by auto
    from BSearch_loop_correct [OF assms _ _ _ this, of 0] that show ?thesis
      by auto
  qed
  have "(LEAST i. i = num_items n \<or> key \<le> key_slots n i) = index r"
  proof (rule Least_equality)
    show "index r = num_items n \<or> key \<le> key_slots n (index r)"
      using r(2,4) by auto
  next
    fix y assume y: "y = num_items n \<or> key \<le> key_slots n y"
    show "index r \<le> y"
    proof (rule ccontr)
      assume "\<not> index r \<le> y"
      then have "y < index r" by simp
      with r(2,3) y show False by auto
    qed
  qed
  with r assms(1) show ?thesis
    by (simp add: BSearch_def)
qed

theorem C1_witness:
  "\<exists>r. BSearch cfg64 [1 \<mapsto> leaf_node [10, 20, 30]] 1 25 (\<lambda>a b. int a - int b) = Some r
          \<and> index r = (LEAST i. i = num_items (leaf_node [10, 20, 30]) \<or> 25 \<le> key_slots (leaf_node [10, 20, 30]) i)
          \<and> index r \<le> num_items (leaf_node [10, 20, 30])
          \<and> (\<forall>j<index r. key_slots (leaf_node [10, 20, 30]) j < 25)
          \<and> (found r \<longleftrightarrow> index r < num_items (leaf_node [10, 20, 30]) \<and> key_slots (leaf_node [10, 20, 30]) (index r) = 25)"
proof (rule C1_BSearch)
  show "deref [1 \<mapsto> leaf_node [10, 20, 30]] 1 = Some (leaf_node [10, 20, 30])"
    by (simp add: deref_def nullptr_def)
  show "num_items (leaf_node [10, 20, 30]) \<le> MaxItems cfg64 (leaf_node [10, 20, 30])"
    by (simp add: MaxItems_def)
  show "\<And>a b :: nat. (int a - int b < 0 \<longleftrightarrow> a < b) \<and> (int a - int b = 0 \<longleftrightarrow> a = b)"
    by auto
  show "sorted_wrt (<) (keys_of (leaf_node [10, 20, 30]))"
    by simp
qed

section \<open>ShiftLeft\<close>

lemma kMaxInnerKeys_le: "kMaxInnerKeys cfg \<le> 30"
proof -
  have "(240::nat) div (kKeySize cfg + 8) \<le> 240 div 8"
    by (intro div_le_mono2) simp_all
  then show ?thesis
    by (simp add: kMaxInnerKeys_def uint16_def kBPNodeSize_def kKeyOffset_def kPtrSize_def)
qed

lemma children_of_inner: "\<not> leaf n \<Longrightarrow> children_of n = map (child_slots n) [0..<Suc (num_items n)]"
  by (simp add: children_of_def)

lemma ShiftLeft_inner_last:
  assumes n: "deref h this = Some n" and inner: "\<not> leaf n"
    and cap: "num_items n \<le> kMaxInnerKeys cfg" and i: "Suc i = num_items n"
  shows "ShiftLeft cfg h this i csr = Some (h(this \<mapsto> n\<lparr>num_items := i\<rparr>))"
proof -
  have "num_items n < 128" using cap kMaxInnerKeys_le [of cfg] by simp
  then show ?thesis
    using n i [symmetric] by (simp add: ShiftLeft_def set_num_items_def)
qed

lemma ShiftLeft_inner_mid:
  assumes n: "deref h this = Some n" and inner: "\<not> leaf n"
    and cap: "num_items n \<le> kMaxInnerKeys cfg" and i: "Suc i < num_items n"
  shows "ShiftLeft cfg h this i csr =
     Some (h(this \<mapsto> n\<lparr>num_items := num_items n - 1,
        key_slots := (\<lambda>j. if i \<le> j \<and> j < num_items n - 1 then key_slots n (Suc j) else key_slots n j),
        child_slots := (\<lambda>j. if (if csr then Suc i else i) \<le> j \<and> j < num_items n
                            then child_slots n (Suc j) else child_slots n j)\<rparr>))"
proof -
  have lt: "num_items n < 128" using cap kMaxInnerKeys_le [of cfg] by simp
  have nn: "this \<noteq> nullptr" using n by (rule deref_nonnull)
  show ?thesis
    using n i lt nn cap inner
    by (cases csr) (auto simp: ShiftLeft_def set_num_items_def memmove_keys_def memmove_children_def
        MaxItems_def fun_eq_iff intro!: arg_cong [where f = "\<lambda>x. h(this \<mapsto> x)"])
qed


lemma length_children_of [simp]: "\<not> leaf n \<Longrightarrow> length (children_of n) = Suc (num_items n)"
  by (simp add: children_of_def)

lemma children_of_nth: "\<not> leaf n \<Longrightarrow> i \<le> num_items n \<Longrightarrow> children_of n ! i = child_slots n i"
  by (simp add: children_of_def nth_map_upt del: upt_Suc)

lemma ShiftLeft_inner:
  assumes n: "deref h this = Some n" and inner: "\<not> leaf n"
    and cap: "num_items n \<le> kMaxInnerKeys cfg" and i: "i < num_items n"
  shows "\<exists>n'. ShiftLeft cfg h this i csr = Some (h(this \<mapsto> n')) \<and> \<not> leaf n'
      \<and> num_items n' = num_items n - 1
      \<and> keys_of n' = take i (keys_of n) @ drop (Suc i) (keys_of n)
      \<and> children_of n' =
          take (if csr \<or> Suc i = num_items n then Suc i else i) (children_of n)
          @ drop (Suc (if csr \<or> Suc i = num_items n then Suc i else i)) (children_of n)"
proof (cases "Suc i = num_items n")
  case True
  let ?n' = "n\<lparr>num_items := i\<rparr>"
  have k: "keys_of ?n' = take i (keys_of n) @ drop (Suc i) (keys_of n)"
    using True by (auto simp: keys_of_nth intro!: nth_equalityI)
  have c: "children_of ?n' = take (Suc i) (children_of n) @ drop (Suc (Suc i)) (children_of n)"
    using True inner by (auto simp: children_of_nth intro!: nth_equalityI)
  show ?thesis
    using ShiftLeft_inner_last [OF n inner cap True, of csr] True inner k c
    by (intro exI [of _ ?n']) simp
next
  case False
  with i have mid: "Suc i < num_items n" by simp
  let ?c = "if csr then Suc i else i"
  let ?n' = "n\<lparr>num_items := num_items n - 1,
        key_slots := (\<lambda>j. if i \<le> j \<and> j < num_items n - 1 then key_slots n (Suc j) else key_slots n j),
        child_slots := (\<lambda>j. if ?c \<le> j \<and> j < num_items n
                            then child_slots n (Suc j) else child_slots n j)\<rparr>"
  have k: "keys_of ?n' = take i (keys_of n) @ drop (Suc i) (keys_of n)"
    using mid by (auto simp: keys_of_nth nth_append intro!: nth_equalityI)
  have c: "children_of ?n' = take ?c (children_of n) @ drop (Suc ?c) (children_of n)"
    using mid inner by (auto simp: children_of_nth nth_append min_def intro!: nth_equalityI)
  show ?thesis
    using ShiftLeft_inner_mid [OF n inner cap mid, of csr] False inner k c
    by (intro exI [of _ ?n']) simp
qed

lemma children_of_example [simp]:
  "length cs = Suc (length ks) \<Longrightarrow> children_of (inner_node ks cs) = cs"
  by (rule nth_equalityI) (simp_all add: children_of_def slots_def inner_node_def nth_map_upt del: upt_Suc)

text \<open>
  C7 says that on an inner node \<open>ShiftLeft(i, child_step_right)\<close> removes the key at
  slot \<open>i\<close> and the child at slot \<open>i\<close> when \<open>child_step_right\<close> is false.
  The source moves the child slots only inside the branch that moves key slots, so at the
  last key, \<open>i = num_items - 1\<close>, nothing moves and the child that disappears is
  the last one, at slot \<open>i + 1\<close> (see \<open>ShiftLeft_inner\<close> for every index). On
  the inner node with keys 10, 20 and children 5, 6, 7, \<open>ShiftLeft(1, false)\<close> leaves
  the children 5, 6, where the removal of the child at slot 1 would leave 5, 7.
\<close>

theorem C7_ShiftLeft_last_slot:
  "\<exists>n'. ShiftLeft cfg64 [1 \<mapsto> inner_node [10, 20] [5, 6, 7]] 1 1 False
          = Some [1 \<mapsto> n']
      \<and> keys_of n' = [10] \<and> children_of n' = [5, 6] \<and> children_of n' \<noteq> [5, 7]"
proof -
  let ?n = "inner_node [10, 20] [5, 6, 7]"
  have d: "deref [1 \<mapsto> ?n] 1 = Some ?n"
    by (simp add: deref_def nullptr_def)
  from ShiftLeft_inner [OF d, of cfg64 1 False]
  obtain n' where n': "ShiftLeft cfg64 [1 \<mapsto> ?n] 1 1 False = Some ([1 \<mapsto> ?n](1 \<mapsto> n'))"
      "keys_of n' = take 1 (keys_of ?n) @ drop (Suc 1) (keys_of ?n)"
      "children_of n' = take (Suc 1) (children_of ?n) @ drop (Suc (Suc 1)) (children_of ?n)"
    by auto
  then show ?thesis by (intro exI [of _ n']) simp
qed

section \<open>Loops and slot accesses\<close>

lemma for_loop_upt:
  assumes step: "\<And>i. a \<le> i \<Longrightarrow> i < b \<Longrightarrow> body i (F i) = Some (F (Suc i))" and ab: "a \<le> b"
  shows "for_loop [a..<b] body (F a) = Some (F b)"
  using ab step
proof (induction "b - a" arbitrary: a)
  case 0
  then show ?case by simp
next
  case (Suc k)
  then have lt: "a < b" by simp
  have "for_loop [Suc a..<b] body (F (Suc a)) = Some (F b)"
    using Suc.hyps(1) [of "Suc a"] Suc.hyps(2) Suc.prems lt by simp
  then show ?case
    using lt Suc.prems(2) [of a] by (simp add: upt_conv_Cons)
qed

lemma for_loop_rev_upt:
  assumes step: "\<And>i. i < n \<Longrightarrow> body i (G (Suc i)) = Some (G i)"
  shows "for_loop (rev [0..<n]) body (G n) = Some (G 0)"
  using step by (induction n) simp_all

lemma MaxItems_lt_128: "layout_valid cfg \<Longrightarrow> MaxItems cfg n < 128"
  using kMaxInnerKeys_le [of cfg] by (simp add: MaxItems_def layout_valid_def)

lemma SetKey_eq:
  "deref h p = Some n \<Longrightarrow> i < MaxItems cfg n
   \<Longrightarrow> SetKey cfg h p i v = Some (h(p \<mapsto> n\<lparr>key_slots := (key_slots n)(i := v)\<rparr>))"
  by (simp add: SetKey_def)

lemma Child_eq:
  "deref h p = Some n \<Longrightarrow> \<not> leaf n \<Longrightarrow> i \<le> kMaxInnerKeys cfg
   \<Longrightarrow> Child cfg h p i = Some (child_slots n i)"
  by (simp add: Child_def)

lemma SetChild_eq:
  "deref h p = Some n \<Longrightarrow> \<not> leaf n \<Longrightarrow> i \<le> kMaxInnerKeys cfg
   \<Longrightarrow> SetChild cfg h p i v = Some (h(p \<mapsto> n\<lparr>child_slots := (child_slots n)(i := v)\<rparr>))"
  by (simp add: SetChild_def)

section \<open>MergeFromRight\<close>

lemma MergeFromRight_eq:
  assumes n: "deref h this = Some n" and r: "deref h right = Some r"
    and ne: "this \<noteq> right" and kind: "leaf r = leaf n"
    and room: "num_items n + 1 + num_items r \<le> MaxItems cfg n"
    and valid: "layout_valid cfg"
  shows "MergeFromRight cfg h this key right =
     Some (h(this \<mapsto> n\<lparr>
        key_slots := (\<lambda>j. if j = num_items n then key
                           else if num_items n < j \<and> j < num_items n + 1 + num_items r
                           then key_slots r (j - (num_items n + 1)) else key_slots n j),
        child_slots := (\<lambda>j. if \<not> leaf n \<and> num_items n < j \<and> j < num_items n + 2 + num_items r
                           then child_slots r (j - (num_items n + 1)) else child_slots n j),
        num_items := num_items n + 1 + num_items r\<rparr>,
        right \<mapsto> r\<lparr>num_items := 0\<rparr>))"
proof -
  define N where "N = num_items n"
  define R where "R = num_items r"
  define K where "K = (\<lambda>i j. if j = N then key
                           else if N < j \<and> j < N + 1 + i
                           then key_slots r (j - (N + 1)) else key_slots n j)"
  define C where "C = (\<lambda>i j. if \<not> leaf n \<and> N < j \<and> j < N + 1 + i
                           then child_slots r (j - (N + 1)) else child_slots n j)"
  define F where "F = (\<lambda>i. h(this \<mapsto> n\<lparr>key_slots := K i\<rparr>))"
  define G where "G = (\<lambda>i. h(this \<mapsto> n\<lparr>key_slots := K R, child_slots := C i\<rparr>))"
  have nn: "this \<noteq> nullptr" "right \<noteq> nullptr"
    using n r by (auto dest: deref_nonnull)
  have mx: "MaxItems cfg r = MaxItems cfg n"
    using kind by (simp add: MaxItems_def)
  have lt: "N + 1 + R < 128"
    using room MaxItems_lt_128 [OF valid, of n] by (simp add: N_def R_def)
  have room': "N + 1 + R \<le> MaxItems cfg n"
    using room by (simp add: N_def R_def)
  have s1: "SetKey cfg h this N key = Some (F 0)"
    using n room' by (auto simp: SetKey_eq F_def K_def fun_eq_iff intro!: arg_cong [where f = "\<lambda>x. h(this \<mapsto> x)"])
  have dF: "deref (F i) right = Some r" "deref (F i) this = Some (n\<lparr>key_slots := K i\<rparr>)" for i
    using n r ne nn by (simp_all add: F_def)
  have l1: "for_loop [0..<R]
                 (\<lambda>i h. do { k \<leftarrow> Key cfg h right i;
                             SetKey cfg h this (N + 1 + i) k }) (F 0) = Some (F R)"
  proof (rule for_loop_upt)
    fix i assume i: "0 \<le> i" "i < R"
    have k: "Key cfg (F i) right i = Some (key_slots r i)"
      using dF(1) i room' mx by (simp add: Key_eq)
    have "SetKey cfg (F i) this (N + 1 + i) (key_slots r i) = Some (F (Suc i))"
      using i room' by (subst SetKey_eq [OF dF(2)])
        (auto simp: MaxItems_def F_def K_def fun_eq_iff intro!: arg_cong [where f = "\<lambda>x. h(this \<mapsto> x)"])
    with k show "Key cfg (F i) right i \<bind> SetKey cfg (F i) this (N + 1 + i) = Some (F (Suc i))"
      by simp
  qed simp
  have FG: "F R = G 0"
    by (auto simp: F_def G_def C_def fun_eq_iff intro!: arg_cong [where f = "\<lambda>x. h(this \<mapsto> x)"])
  have dG: "deref (G i) right = Some r"
      "deref (G i) this = Some (n\<lparr>key_slots := K R, child_slots := C i\<rparr>)" for i
    using n r ne nn by (simp_all add: G_def)
  have l2: "for_loop [0..<Suc R]
                 (\<lambda>i h. do { c \<leftarrow> Child cfg h right i;
                             SetChild cfg h this (N + 1 + i) c }) (G 0) = Some (G (Suc R))"
    if inner: "\<not> leaf n"
  proof (rule for_loop_upt)
    fix i assume i: "0 \<le> i" "i < Suc R"
    have cap: "N + 1 + R \<le> kMaxInnerKeys cfg"
      using room' inner by (simp add: MaxItems_def)
    have k: "Child cfg (G i) right i = Some (child_slots r i)"
      using dG(1) i cap inner kind by (simp add: Child_eq)
    have "SetChild cfg (G i) this (N + 1 + i) (child_slots r i) = Some (G (Suc i))"
      using i cap inner by (subst SetChild_eq [OF dG(2)])
        (auto simp: G_def C_def fun_eq_iff intro!: arg_cong [where f = "\<lambda>x. h(this \<mapsto> x)"])
    with k show "Child cfg (G i) right i \<bind> SetChild cfg (G i) this (N + 1 + i) = Some (G (Suc i))"
      by simp
  qed simp
  have GR: "leaf n \<Longrightarrow> G 0 = G (Suc R)"
    by (simp add: G_def C_def)
  have fin: "(G i)(this \<mapsto> x, right \<mapsto> y) = h(this \<mapsto> x, right \<mapsto> y)" for i x y
    by (simp add: G_def)
  have main: "MergeFromRight cfg h this key right =
     Some (h(this \<mapsto> n\<lparr>key_slots := K R, child_slots := C (Suc R), num_items := N + 1 + R\<rparr>,
        right \<mapsto> r\<lparr>num_items := 0\<rparr>))"
  proof (cases "leaf n")
    case True
    show ?thesis
      using True n r room' s1 l1 lt nn ne
      by (simp add: MergeFromRight_def N_def [symmetric] R_def [symmetric] set_num_items_def
          dF dG FG GR fin del: upt_Suc)
  next
    case False
    show ?thesis
      using False n r room' s1 l1 l2 lt nn ne
      by (simp add: MergeFromRight_def N_def [symmetric] R_def [symmetric] set_num_items_def
          dF dG FG fin del: upt_Suc)
  qed
  show ?thesis
    unfolding main K_def C_def N_def R_def by (simp cong: if_cong)
qed


text \<open>
  C6. For two distinct nodes of the same kind with
  \<open>this.count + 1 + right.count \<le> max\<close>, \<open>MergeFromRight(key, right)\<close> makes the
  keys of this node its old keys, then \<open>key\<close>, then the keys of \<open>right\<close> in order,
  and for inner nodes appends the \<open>count + 1\<close> children of \<open>right\<close> to its own;
  its count becomes the old count \<open>+ 1 +\<close> the count of \<open>right\<close>, and \<open>right\<close>
  is left empty. No other node changes.
\<close>

theorem C6_MergeFromRight:
  assumes "deref h this = Some n" and "deref h right = Some r"
    and "this \<noteq> right" and "leaf r = leaf n"
    and "num_items n + 1 + num_items r \<le> MaxItems cfg n"
    and "layout_valid cfg"
  shows "\<exists>n' r'. MergeFromRight cfg h this key right = Some (h(this \<mapsto> n', right \<mapsto> r'))
      \<and> keys_of n' = keys_of n @ [key] @ keys_of r
      \<and> children_of n' = children_of n @ children_of r
      \<and> num_items n' = num_items n + 1 + num_items r
      \<and> num_items r' = 0 \<and> keys_of r' = []
      \<and> leaf n' = leaf n \<and> leaf r' = leaf r"
proof -
  let ?n' = "n\<lparr>
        key_slots := (\<lambda>j. if j = num_items n then key
                           else if num_items n < j \<and> j < num_items n + 1 + num_items r
                           then key_slots r (j - (num_items n + 1)) else key_slots n j),
        child_slots := (\<lambda>j. if \<not> leaf n \<and> num_items n < j \<and> j < num_items n + 2 + num_items r
                           then child_slots r (j - (num_items n + 1)) else child_slots n j),
        num_items := num_items n + 1 + num_items r\<rparr>"
  have k: "keys_of ?n' = keys_of n @ [key] @ keys_of r"
    by (rule nth_equalityI) (auto simp: keys_of_nth nth_append nth_Cons')
  have c: "children_of ?n' = children_of n @ children_of r"
  proof (cases "leaf n")
    case True
    then show ?thesis using assms(4) by (simp add: children_of_def)
  next
    case False
    then have "\<not> leaf r" using assms(4) by simp
    with False show ?thesis
      by (intro nth_equalityI) (auto simp: children_of_nth nth_append)
  qed
  show ?thesis
    using MergeFromRight_eq [OF assms, of key] k c
    by (intro exI [of _ ?n'] exI [of _ "r\<lparr>num_items := 0\<rparr>"]) (simp add: keys_of_def)
qed

theorem C6_witness:
  "\<exists>n' r'. MergeFromRight cfg64 [1 \<mapsto> inner_node [10] [5, 6], 2 \<mapsto> inner_node [30] [7, 8]] 1 20 2
        = Some ([1 \<mapsto> inner_node [10] [5, 6], 2 \<mapsto> inner_node [30] [7, 8]](1 \<mapsto> n', 2 \<mapsto> r'))
      \<and> keys_of n' = [10, 20, 30]
      \<and> children_of n' = [5, 6, 7, 8]
      \<and> num_items n' = 3
      \<and> num_items r' = 0 \<and> keys_of r' = []
      \<and> \<not> leaf n' \<and> \<not> leaf r'"
proof -
  let ?h = "[1 \<mapsto> inner_node [10] [5, 6], 2 \<mapsto> inner_node [30] [7, 8]]"
  have 1: "deref ?h 1 = Some (inner_node [10] [5, 6])"
    and 2: "deref ?h 2 = Some (inner_node [30] [7, 8])"
    by (simp_all add: deref_def nullptr_def)
  have 3: "(1::nat) \<noteq> 2" and 4: "leaf (inner_node [30] [7, 8]) = leaf (inner_node [10] [5, 6])"
    by simp_all
  have 5: "num_items (inner_node [10] [5, 6]) + 1 + num_items (inner_node [30] [7, 8])
            \<le> MaxItems cfg64 (inner_node [10] [5, 6])"
    by (simp add: MaxItems_def)
  have 6: "layout_valid cfg64"
    by (simp add: layout_valid_def)
  from C6_MergeFromRight [OF 1 2 3 4 5 6, of 20] show ?thesis
    by (simp add: numeral_3_eq_3)
qed

section \<open>Split\<close>

lemma Split_eq:
  assumes n: "deref h this = Some n" and r: "deref h right = Some r"
    and ne: "this \<noteq> right"
    and pos: "1 \<le> num_items n" and cap: "num_items n \<le> MaxItems cfg n"
    and valid: "layout_valid cfg"
  shows "Split cfg h this right =
     Some (h(right \<mapsto> r\<lparr>leaf := leaf n,
               num_items := num_items n - (num_items n div 2 + 1),
               key_slots := (\<lambda>j. if j < num_items n - (num_items n div 2 + 1)
                                then key_slots n (j + (num_items n div 2 + 1)) else key_slots r j),
               child_slots := (\<lambda>j. if \<not> leaf n \<and> j < Suc (num_items n - (num_items n div 2 + 1))
                                then child_slots n (num_items n div 2 + 1 + j) else child_slots r j)\<rparr>,
             this \<mapsto> n\<lparr>num_items := num_items n div 2\<rparr>),
           key_slots n (num_items n div 2))"
proof -
  define m where "m = num_items n div 2"
  define R where "R = num_items n - (m + 1)"
  define r2 where "r2 = r\<lparr>leaf := leaf n, num_items := R\<rparr>"
  define r3 where "r3 = r2\<lparr>key_slots := (\<lambda>j. if j < R then key_slots n (j + (m + 1)) else key_slots r j)\<rparr>"
  define C where "C = (\<lambda>i j. if \<not> leaf n \<and> j < i then child_slots n (m + 1 + j) else child_slots r j)"
  define G where "G = (\<lambda>i. h(right \<mapsto> r3\<lparr>child_slots := C i\<rparr>))"
  define H1 where "H1 = h(right \<mapsto> r\<lparr>leaf := leaf n\<rparr>)"
  define H2 where "H2 = h(right \<mapsto> r2)"
  define H5 where "H5 = h(right \<mapsto> r3\<lparr>child_slots := C (Suc R)\<rparr>, this \<mapsto> n\<lparr>num_items := m\<rparr>)"
  have nn: "this \<noteq> nullptr" "right \<noteq> nullptr"
    using n r by (auto dest: deref_nonnull)
  have N: "num_items n < 128" "m < num_items n" "m + 1 + R = num_items n" "m + 1 \<le> num_items n"
    using pos cap MaxItems_lt_128 [OF valid, of n] by (auto simp: m_def R_def)
  have f1: "Key cfg h this m = Some (key_slots n m)"
    using n N cap by (simp add: Key_eq)
  have f2: "set_leaf h right (leaf n) = Some H1"
    using r by (simp add: set_leaf_def H1_def)
  have f3: "deref H1 this = Some n"
    using n ne nn by (simp add: H1_def)
  have f4: "set_num_items H1 right (usub (num_items n) (m + 1)) = Some H2"
    using r nn N by (simp add: set_num_items_def H1_def H2_def r2_def R_def)
  have f5: "deref H2 right = Some r2" and f5': "deref H2 this = Some n"
    using n nn ne by (simp_all add: H2_def)
  have mx2: "MaxItems cfg r2 = MaxItems cfg n"
    by (simp add: MaxItems_def r2_def)
  have f6: "memmove_keys cfg H2 right 0 this (m + 1) (num_items r2) = Some (G 0)"
    using f5 f5' N mx2 cap
    by (auto simp: memmove_keys_def G_def C_def H2_def r3_def r2_def fun_eq_iff
          intro!: arg_cong [where f = "\<lambda>x. h(right \<mapsto> x)"])
  have dG: "deref (G i) this = Some n" "deref (G i) right = Some (r3\<lparr>child_slots := C i\<rparr>)" for i
    using n r ne nn by (simp_all add: G_def)
  have l: "for_loop [0..<Suc R]
                        (\<lambda>i h. do { c \<leftarrow> Child cfg h this (m + 1 + i);
                                    SetChild cfg h right i c }) (G 0) = Some (G (Suc R))"
    if inner: "\<not> leaf n"
  proof (rule for_loop_upt)
    fix i assume i: "0 \<le> i" "i < Suc R"
    have capi: "num_items n \<le> kMaxInnerKeys cfg"
      using cap inner by (simp add: MaxItems_def)
    have k: "Child cfg (G i) this (m + 1 + i) = Some (child_slots n (m + 1 + i))"
      using dG(1) i capi inner N by (simp add: Child_eq)
    have "SetChild cfg (G i) right i (child_slots n (m + 1 + i)) = Some (G (Suc i))"
      using i capi inner N by (subst SetChild_eq [OF dG(2)])
        (auto simp: G_def C_def r3_def r2_def fun_eq_iff intro!: arg_cong [where f = "\<lambda>x. h(right \<mapsto> x)"])
    with k show "Child cfg (G i) this (m + 1 + i) \<bind> SetChild cfg (G i) right i = Some (G (Suc i))"
      by simp
  qed simp
  have f8: "(if \<not> leaf n then
                 for_loop [0..<Suc (num_items (r3\<lparr>child_slots := C 0\<rparr>))]
                        (\<lambda>i h. do { c \<leftarrow> Child cfg h this (m + 1 + i);
                                    SetChild cfg h right i c }) (G 0)
               else Some (G 0)) = Some (G (Suc R))"
  proof (cases "leaf n")
    case True
    then show ?thesis by (simp add: G_def C_def)
  next
    case False
    have "num_items (r3\<lparr>child_slots := C 0\<rparr>) = R"
      by (simp add: r3_def r2_def)
    with False l show ?thesis by (simp del: upt_Suc)
  qed
  have f9: "set_num_items (G (Suc R)) this m = Some H5"
    using dG(1) N by (simp add: set_num_items_def) (simp add: G_def H5_def)
  have main: "Split cfg h this right = Some (H5, key_slots n m)"
    by (simp only: Split_def Let_def m_def [symmetric] n f1 f2 f3 f4 f5 f6 dG f8 f9
          Option.bind.simps)
  show ?thesis
    unfolding main H5_def r3_def r2_def C_def R_def m_def by (simp add: add.commute cong: if_cong)
qed


text \<open>
  C3. On a node with \<open>n \<ge> 1\<close> strictly increasing keys and \<open>m = n div 2\<close>,
  \<open>Split(right, &median)\<close> stores the key at slot \<open>m\<close> through \<open>median\<close>,
  gives \<open>right\<close> the keys \<open>[m+1, n)\<close> and, for an inner node, the children
  \<open>[m+1, n]\<close> in order, sets the count of this node to \<open>m\<close> and the count of
  \<open>right\<close> to \<open>n - m - 1\<close>, so that the two counts and the median add up to
  \<open>n\<close>, and copies the leaf flag to \<open>right\<close>. Every key left in this node is
  below the median, the median is below every key of \<open>right\<close>, and both nodes are
  still strictly increasing.
\<close>

theorem C3_Split:
  fixes n :: "('k::ord) BPTreeNode"
  assumes "deref h this = Some n" and "deref h right = Some r"
    and "this \<noteq> right"
    and "1 \<le> num_items n" and "num_items n \<le> MaxItems cfg n"
    and "layout_valid cfg"
    and "sorted_wrt (<) (keys_of n)"
  shows "\<exists>n' r' median.
        Split cfg h this right = Some (h(right \<mapsto> r', this \<mapsto> n'), median)
      \<and> median = key_slots n (num_items n div 2)
      \<and> keys_of r' = drop (num_items n div 2 + 1) (keys_of n)
      \<and> children_of r' = drop (num_items n div 2 + 1) (children_of n)
      \<and> keys_of n' = take (num_items n div 2) (keys_of n)
      \<and> children_of n' = take (num_items n div 2 + 1) (children_of n)
      \<and> num_items n' = num_items n div 2
      \<and> num_items r' = num_items n - num_items n div 2 - 1
      \<and> num_items n' + num_items r' + 1 = num_items n
      \<and> leaf r' = leaf n \<and> leaf n' = leaf n
      \<and> (\<forall>k\<in>set (keys_of n'). k < median) \<and> (\<forall>k\<in>set (keys_of r'). median < k)
      \<and> sorted_wrt (<) (keys_of n') \<and> sorted_wrt (<) (keys_of r')"
proof -
  define m where "m = num_items n div 2"
  let ?r' = "r\<lparr>leaf := leaf n,
               num_items := num_items n - (m + 1),
               key_slots := (\<lambda>j. if j < num_items n - (m + 1)
                                then key_slots n (j + (m + 1)) else key_slots r j),
               child_slots := (\<lambda>j. if \<not> leaf n \<and> j < Suc (num_items n - (m + 1))
                                then child_slots n (m + 1 + j) else child_slots r j)\<rparr>"
  let ?n' = "n\<lparr>num_items := m\<rparr>"
  have m: "m < num_items n"
    using assms(4) by (simp add: m_def)
  have kr: "keys_of ?r' = drop (m + 1) (keys_of n)"
    using m by (intro nth_equalityI) (auto simp: keys_of_nth add.commute)
  have kn: "keys_of ?n' = take m (keys_of n)"
    using m by (intro nth_equalityI) (auto simp: keys_of_nth)
  have cr: "children_of ?r' = drop (m + 1) (children_of n)"
  proof (cases "leaf n")
    case True
    then show ?thesis by (simp add: children_of_def)
  next
    case False
    then show ?thesis
      using m by (intro nth_equalityI) (auto simp: children_of_nth)
  qed
  have cn: "children_of ?n' = take (m + 1) (children_of n)"
  proof (cases "leaf n")
    case True
    then show ?thesis by (simp add: children_of_def)
  next
    case False
    then show ?thesis
      using m by (intro nth_equalityI) (auto simp: children_of_nth)
  qed
  have split: "keys_of n = take m (keys_of n) @ key_slots n m # drop (m + 1) (keys_of n)"
    using m id_take_nth_drop [of m "keys_of n"] by (simp add: keys_of_nth)
  have srt: "sorted_wrt (<) (take m (keys_of n) @ key_slots n m # drop (m + 1) (keys_of n))"
    using assms(7) split by simp
  have ord: "\<forall>k\<in>set (take m (keys_of n)). k < key_slots n m"
      "\<forall>k\<in>set (drop (m + 1) (keys_of n)). key_slots n m < k"
      "sorted_wrt (<) (take m (keys_of n))" "sorted_wrt (<) (drop (m + 1) (keys_of n))"
    using srt by (simp_all add: sorted_wrt_append)
  have eq: "Split cfg h this right = Some (h(right \<mapsto> ?r', this \<mapsto> ?n'), key_slots n m)"
    unfolding m_def by (rule Split_eq [OF assms(1-6)])
  show ?thesis
    unfolding m_def [symmetric]
    using eq kr kn cr cn ord m
    by (intro exI [of _ ?n'] exI [of _ ?r'] exI [of _ "key_slots n m"]) simp
qed

theorem C3_witness:
  "\<exists>n' r' median.
        Split cfg64 [1 \<mapsto> inner_node [10, 20, 30] [5, 6, 7, 8], 2 \<mapsto> leaf_node []] 1 2
          = Some ([1 \<mapsto> inner_node [10, 20, 30] [5, 6, 7, 8], 2 \<mapsto> leaf_node []]
                    (2 \<mapsto> r', 1 \<mapsto> n'), median)
      \<and> median = 20
      \<and> keys_of r' = [30] \<and> children_of r' = [7, 8]
      \<and> keys_of n' = [10] \<and> children_of n' = [5, 6]
      \<and> num_items n' = 1 \<and> num_items r' = 1 \<and> \<not> leaf r' \<and> \<not> leaf n'"
proof -
  let ?n = "inner_node [10, 20, 30] [5, 6, 7, 8]"
  let ?h = "[1 \<mapsto> ?n, 2 \<mapsto> leaf_node []]"
  have 1: "deref ?h 1 = Some ?n" and 2: "deref ?h 2 = Some (leaf_node [])"
    by (simp_all add: deref_def nullptr_def)
  have 3: "(1::nat) \<noteq> 2" and 4: "1 \<le> num_items ?n"
    by simp_all
  have 5: "num_items ?n \<le> MaxItems cfg64 ?n"
    by (simp add: MaxItems_def)
  have 6: "layout_valid cfg64"
    by (simp add: layout_valid_def)
  have 7: "sorted_wrt (<) (keys_of ?n)"
    by simp
  from C3_Split [OF 1 2 3 4 5 6 7] show ?thesis
    by (simp add: slots_def) blast
qed

section \<open>RebalanceChildToLeft and RebalanceChildToRight\<close>

text \<open>
  The heap after each of the two methods, in closed form: the loops are run through an
  invariant that gives the slots after every iteration.
\<close>

lemma heap_upd_cong: "x = y \<Longrightarrow> h(p \<mapsto> x) = h(p \<mapsto> y)"
  by simp

lemma RebalanceChildToLeft_eq:
  assumes P: "deref h this = Some P" and inner: "\<not> leaf P"
    and pcap: "num_items P \<le> kMaxInnerKeys cfg" and p: "0 < p" "p \<le> num_items P"
    and c: "child_slots P p = c" and l: "child_slots P (p - 1) = l"
    and S: "deref h c = Some S" and D: "deref h l = Some D"
    and dist: "this \<noteq> l" "this \<noteq> c" "l \<noteq> c"
    and kind: "leaf D = leaf S"
    and k: "1 \<le> k" "k \<le> num_items S" and scap: "num_items S \<le> MaxItems cfg S"
    and room: "num_items D + k \<le> MaxItems cfg D"
    and valid: "layout_valid cfg"
  shows "RebalanceChildToLeft cfg h this p k =
     Some (h(l \<mapsto> D\<lparr>
              key_slots := (\<lambda>j. if j = num_items D then key_slots P (p - 1)
                       else if num_items D < j \<and> j < num_items D + k
                       then key_slots S (j - num_items D - 1) else key_slots D j),
              child_slots := (\<lambda>j. if \<not> leaf S \<and> num_items D < j \<and> j < num_items D + 1 + k
                       then child_slots S (j - num_items D - 1) else child_slots D j),
              num_items := num_items D + k\<rparr>,
            this \<mapsto> P\<lparr>key_slots := (key_slots P)(p - 1 := key_slots S (k - 1))\<rparr>,
            c \<mapsto> S\<lparr>
              key_slots := (\<lambda>j. if j < num_items S - k then key_slots S (j + k) else key_slots S j),
              child_slots := (\<lambda>j. if leaf S then child_slots S j
                       else if j < Suc (num_items S) - k then child_slots S (j + k)
                       else if k \<le> j \<and> j < Suc (num_items S) then nullptr
                       else child_slots S j),
              num_items := num_items S - k\<rparr>))"
proof -
  define Dn where "Dn = num_items D"
  define Sn where "Sn = num_items S"
  define KD where "KD = (\<lambda>i j. if j = Dn then key_slots P (p - 1)
                       else if Dn < j \<and> j < Dn + i
                       then key_slots S (j - Dn - 1) else key_slots D j)"
  define CD where "CD = (\<lambda>i j. if \<not> leaf S \<and> Dn < j \<and> j < Dn + 1 + i
                       then child_slots S (j - Dn - 1) else child_slots D j)"
  define KS where "KS = (\<lambda>i j. if j < i - k then key_slots S (j + k) else key_slots S j)"
  define CS where "CS = (\<lambda>i j. if leaf S then child_slots S j
                       else if j < i - k then child_slots S (j + k)
                       else if k \<le> j \<and> j < i then nullptr
                       else child_slots S j)"
  define P' where "P' = P\<lparr>key_slots := (key_slots P)(p - 1 := key_slots S (k - 1))\<rparr>"
  define F where "F = (\<lambda>i. h(l \<mapsto> D\<lparr>key_slots := KD i\<rparr>))"
  define G where "G = (\<lambda>i. h(l \<mapsto> D\<lparr>key_slots := KD k\<rparr>, this \<mapsto> P', c \<mapsto> S\<lparr>key_slots := KS i\<rparr>))"
  define A where "A = (\<lambda>i. h(l \<mapsto> D\<lparr>key_slots := KD k, child_slots := CD i\<rparr>, this \<mapsto> P',
                           c \<mapsto> S\<lparr>key_slots := KS Sn\<rparr>))"
  define B where "B = (\<lambda>i. h(l \<mapsto> D\<lparr>key_slots := KD k, child_slots := CD k\<rparr>, this \<mapsto> P',
                           c \<mapsto> S\<lparr>key_slots := KS Sn, child_slots := CS i\<rparr>))"
  define HC where "HC = h(l \<mapsto> D\<lparr>key_slots := KD k, child_slots := CD k, num_items := Dn + k\<rparr>,
                           this \<mapsto> P', c \<mapsto> S\<lparr>key_slots := KS Sn, child_slots := CS (Suc Sn)\<rparr>)"
  define HF where "HF = h(l \<mapsto> D\<lparr>key_slots := KD k, child_slots := CD k, num_items := Dn + k\<rparr>,
                           this \<mapsto> P',
                           c \<mapsto> S\<lparr>key_slots := KS Sn, child_slots := CS (Suc Sn), num_items := Sn - k\<rparr>)"
  have nn: "this \<noteq> nullptr" "l \<noteq> nullptr" "c \<noteq> nullptr"
    using P S D by (auto dest: deref_nonnull)
  have mx: "MaxItems cfg D = MaxItems cfg S" "MaxItems cfg P = kMaxInnerKeys cfg"
    using kind inner by (simp_all add: MaxItems_def)
  have lt: "Dn + k < 128" "Sn < 128"
    using room scap MaxItems_lt_128 [OF valid, of D] MaxItems_lt_128 [OF valid, of S]
    by (simp_all add: Dn_def Sn_def)
  have kk: "1 \<le> k" "k \<le> Sn" "Sn \<le> MaxItems cfg S" "Dn + k \<le> MaxItems cfg S"
    using k scap room mx by (simp_all add: Dn_def Sn_def)
  have icap: "\<not> leaf S \<Longrightarrow> Sn \<le> kMaxInnerKeys cfg \<and> Dn + k \<le> kMaxInnerKeys cfg"
    using kk by (simp add: MaxItems_def)
  note defs = F_def G_def A_def B_def HC_def HF_def
  \<comment> \<open>the steps of the method, in order\<close>
  have a1: "cassert cfg (p > 0) = Some ()"
    using p by simp
  have a2: "Child cfg h this p = Some c"
    using P inner pcap p c by (simp add: Child_eq)
  have u1: "usub p 1 = p - 1" and u2: "usub k 1 = k - 1" and u3: "usub (num_items S) k = Sn - k"
    using p k by (simp_all add: Sn_def)
  have a3: "Child cfg h this (p - 1) = Some l"
    using P inner pcap p l by (simp add: Child_eq)
  have a6: "cassert cfg (num_items S \<ge> k) = Some ()" "cassert cfg (k \<ge> 1) = Some ()"
      "cassert cfg (AvailableSlotCount cfg D \<ge> k) = Some ()"
    using k room by (simp_all add: AvailableSlotCount_def)
  have a9: "Key cfg h this (p - 1) = Some (key_slots P (p - 1))"
    using P p pcap mx by (simp add: Key_eq)
  have a10: "SetKey cfg h l (num_items D) (key_slots P (p - 1)) = Some (F 1)"
    using D kk mx
    by (auto simp: SetKey_eq F_def KD_def Dn_def fun_eq_iff intro!: heap_upd_cong BPTreeNode.equality)
  have dF: "deref (F i) c = Some S" "deref (F i) l = Some (D\<lparr>key_slots := KD i\<rparr>)"
      "deref (F i) this = Some P" for i
    using P S D dist nn by (simp_all add: F_def)
  have a11: "for_loop [1..<k]
                 (\<lambda>i h. do { k \<leftarrow> Key cfg h c (i - 1);
                             SetKey cfg h l (num_items D + i) k }) (F 1) = Some (F k)"
  proof (rule for_loop_upt)
    fix i assume i: "1 \<le> i" "i < k"
    have rd: "Key cfg (F i) c (i - 1) = Some (key_slots S (i - 1))"
      using dF(1) i kk by (simp add: Key_eq)
    have "SetKey cfg (F i) l (num_items D + i) (key_slots S (i - 1)) = Some (F (Suc i))"
      using i kk mx by (subst SetKey_eq [OF dF(2)])
        (auto simp: MaxItems_def F_def KD_def Dn_def fun_eq_iff intro!: heap_upd_cong BPTreeNode.equality)
    with rd show "Key cfg (F i) c (i - 1) \<bind> SetKey cfg (F i) l (num_items D + i) = Some (F (Suc i))"
      by simp
  qed (use k in simp)
  have a12: "Key cfg (F k) c (k - 1) = Some (key_slots S (k - 1))"
    using dF(1) kk by (simp add: Key_eq)
  have a13: "SetKey cfg (F k) this (p - 1) (key_slots S (k - 1)) = Some (G k)"
    using p pcap mx S dist nn
    by (subst SetKey_eq [OF dF(3)])
       (auto simp: F_def G_def P'_def KS_def deref_def fun_eq_iff)
  have dG: "deref (G i) c = Some (S\<lparr>key_slots := KS i\<rparr>)" for i
    using nn by (simp add: G_def)
  have a15: "for_loop [k..<num_items S]
                 (\<lambda>i h. do { ka \<leftarrow> Key cfg h c i;
                             SetKey cfg h c (i - k) ka }) (G k) = Some (G Sn)"
    unfolding Sn_def [symmetric]
  proof (rule for_loop_upt)
    fix i assume i: "k \<le> i" "i < Sn"
    have rd: "Key cfg (G i) c i = Some (key_slots S i)"
      using i kk by (subst Key_eq [OF dG]) (auto simp: MaxItems_def KS_def)
    have "SetKey cfg (G i) c (i - k) (key_slots S i) = Some (G (Suc i))"
      using i kk by (subst SetKey_eq [OF dG])
        (auto simp: MaxItems_def G_def KS_def fun_eq_iff intro!: heap_upd_cong BPTreeNode.equality)
    with rd show "Key cfg (G i) c i \<bind> SetKey cfg (G i) c (i - k) = Some (G (Suc i))"
      by simp
  qed (use kk in simp)
  have GA: "G Sn = A 0"
    by (auto simp: G_def A_def CD_def fun_eq_iff)
  have dA: "deref (A i) c = Some (S\<lparr>key_slots := KS Sn\<rparr>)"
      "deref (A i) l = Some (D\<lparr>key_slots := KD k, child_slots := CD i\<rparr>)" for i
    using nn dist by (simp_all add: A_def)
  have a18: "for_loop [0..<k]
                 (\<lambda>i h. do { d \<leftarrow> deref h l;
                             ca \<leftarrow> Child cfg h c i;
                             SetChild cfg h l (1 + num_items d + i) ca }) (A 0) = Some (A k)"
    if inner': "\<not> leaf S"
  proof (rule for_loop_upt)
    fix i assume i: "0 \<le> i" "i < k"
    have rd: "Child cfg (A i) c i = Some (child_slots S i)"
      using i kk icap inner' by (subst Child_eq [OF dA(1)]) simp_all
    have "SetChild cfg (A i) l (1 + Dn + i) (child_slots S i) = Some (A (Suc i))"
      using i kk icap inner' kind dist by (subst SetChild_eq [OF dA(2)])
        (auto simp: A_def CD_def fun_eq_iff intro!: heap_upd_cong BPTreeNode.equality)
    with rd show "deref (A i) l \<bind> (\<lambda>d. Child cfg (A i) c i \<bind>
          (\<lambda>ca. SetChild cfg (A i) l (1 + num_items d + i) ca)) = Some (A (Suc i))"
      by (simp add: dA Dn_def)
  qed simp
  have AB: "A k = B k"
    by (auto simp: A_def B_def CS_def fun_eq_iff intro!: heap_upd_cong BPTreeNode.equality)
  have dB: "deref (B i) c = Some (S\<lparr>key_slots := KS Sn, child_slots := CS i\<rparr>)"
      "deref (B i) l = Some (D\<lparr>key_slots := KD k, child_slots := CD k\<rparr>)" for i
    using nn dist by (simp_all add: B_def)
  have a20: "for_loop [k..<Suc (num_items S)]
                 (\<lambda>i h. do { ca \<leftarrow> Child cfg h c i;
                             h \<leftarrow> SetChild cfg h c (i - k) ca;
                             SetChild cfg h c i nullptr }) (B k) = Some (B (Suc Sn))"
    if inner': "\<not> leaf S"
    unfolding Sn_def [symmetric]
  proof (rule for_loop_upt)
    fix i assume i: "k \<le> i" "i < Suc Sn"
    have rd: "Child cfg (B i) c i = Some (child_slots S i)"
      using i kk icap inner' by (subst Child_eq [OF dB(1)]) (auto simp: CS_def)
    have cs: "(CS i)(i - k := child_slots S i, i := nullptr) = CS (Suc i)"
      using i kk inner' by (auto simp: CS_def fun_eq_iff)
    have bnd: "i - k \<le> kMaxInnerKeys cfg" "i \<le> kMaxInnerKeys cfg"
      using i icap inner' by auto
    have w: "SetChild cfg (B i) c (i - k) (child_slots S i) \<bind> (\<lambda>h. SetChild cfg h c i nullptr)
        = Some (B (Suc i))"
      using bnd inner' nn by (simp add: SetChild_def B_def cs)
    show "Child cfg (B i) c i \<bind> (\<lambda>ca. SetChild cfg (B i) c (i - k) ca \<bind>
          (\<lambda>h. SetChild cfg h c i nullptr)) = Some (B (Suc i))"
      by (simp add: rd w)
  qed (use kk in simp)
  have BG: "leaf S \<Longrightarrow> G Sn = B (Suc Sn)"
    by (auto simp: G_def B_def CS_def CD_def fun_eq_iff intro!: heap_upd_cong BPTreeNode.equality)
  have ni: "num_items (S\<lparr>key_slots := x\<rparr>) = num_items S"
    "num_items (S\<lparr>key_slots := x, child_slots := y\<rparr>) = num_items S"
    "num_items (D\<lparr>key_slots := x, child_slots := z\<rparr>) = num_items D"
    "leaf (S\<lparr>key_slots := x\<rparr>) = leaf S"
    "leaf (S\<lparr>key_slots := x, child_slots := y\<rparr>) = leaf S" for x y z
    by simp_all
  have a22: "set_num_items (B (Suc Sn)) l (num_items D + k) = Some HC"
    using lt dist by (simp add: set_num_items_def dB) (auto simp: B_def HC_def Dn_def fun_eq_iff)
  have dC: "deref HC c = Some (S\<lparr>key_slots := KS Sn, child_slots := CS (Suc Sn)\<rparr>)"
    using nn by (simp add: HC_def)
  have a24: "set_num_items HC c (Sn - k) = Some HF"
    using lt by (simp add: set_num_items_def dC) (simp add: HC_def HF_def)
  have main: "RebalanceChildToLeft cfg h this p k = Some HF"
  proof (cases "leaf S")
    case True
    show ?thesis
      by (simp only: RebalanceChildToLeft_def Let_def a1 a2 u1 u2 u3 a3 S D a6 a9 a10 a11 a12 a13
          dG ni a15 True BG [OF True] dB a22 dC a24 Option.bind.simps simp_thms if_True if_False)
  next
    case False
    show ?thesis
      by (simp only: RebalanceChildToLeft_def Let_def a1 a2 u1 u2 u3 a3 S D a6 a9 a10 a11 a12 a13
          dG ni a15 False GA a18 [OF False] dA AB a20 [OF False] dB a22 dC a24
          Option.bind.simps simp_thms if_True if_False)
  qed
  show ?thesis
    unfolding main HF_def KD_def CD_def KS_def CS_def P'_def Dn_def Sn_def
    by (simp cong: if_cong)
qed


lemma RebalanceChildToRight_eq:
  assumes P: "deref h this = Some P" and inner: "\<not> leaf P"
    and pcap: "num_items P \<le> kMaxInnerKeys cfg" and p: "p < num_items P"
    and c: "child_slots P p = c" and r: "child_slots P (p + 1) = r"
    and S: "deref h c = Some S" and D: "deref h r = Some D"
    and dist: "this \<noteq> r" "this \<noteq> c" "r \<noteq> c"
    and kind: "leaf D = leaf S"
    and k: "1 \<le> k" "k \<le> num_items S" and scap: "num_items S \<le> MaxItems cfg S"
    and room: "num_items D + k \<le> MaxItems cfg D"
    and nonempty: "NDEBUG cfg \<or> 0 < num_items D"
    and valid: "layout_valid cfg"
  shows "RebalanceChildToRight cfg h this p k =
     Some (h(r \<mapsto> D\<lparr>
              key_slots := (\<lambda>j. if j < k - 1 then key_slots S (num_items S - k + j + 1)
                       else if j = k - 1 then key_slots P p
                       else if j < num_items D + k then key_slots D (j - k) else key_slots D j),
              child_slots := (\<lambda>j. if leaf S then child_slots D j
                       else if j < k then child_slots S (num_items S - (k - 1) + j)
                       else if j < Suc (num_items D) + k then child_slots D (j - k)
                       else child_slots D j),
              num_items := num_items D + k\<rparr>,
            this \<mapsto> P\<lparr>key_slots := (key_slots P)(p := key_slots S (num_items S - k))\<rparr>,
            c \<mapsto> S\<lparr>
              child_slots := (\<lambda>j. if \<not> leaf S \<and> num_items S - (k - 1) \<le> j \<and> j < Suc (num_items S)
                       then nullptr else child_slots S j),
              num_items := num_items S - k\<rparr>))"
    (is "_ = Some (h(r \<mapsto> ?D', this \<mapsto> ?P', c \<mapsto> ?S'))")
proof -
  define Dn where "Dn = num_items D"
  define Sn where "Sn = num_items S"
  define KD1 where "KD1 = (\<lambda>i j. if i + k \<le> j \<and> j < Dn + k then key_slots D (j - k) else key_slots D j)"
  define KD2 where "KD2 = (\<lambda>i j. if j < i - 1 then key_slots S (Sn - k + j + 1) else KD1 0 j)"
  define KD3 where "KD3 = (KD2 k)(k - 1 := key_slots P p)"
  define CD1 where "CD1 = (\<lambda>i j. if \<not> leaf S \<and> i + k \<le> j \<and> j < Suc Dn + k
                       then child_slots D (j - k) else child_slots D j)"
  define CD2 where "CD2 = (\<lambda>i j. if \<not> leaf S \<and> j < i then child_slots S (Sn - (k - 1) + j) else CD1 0 j)"
  define CS where "CS = (\<lambda>i j. if \<not> leaf S \<and> Sn - (k - 1) \<le> j \<and> j < Sn - (k - 1) + i
                       then nullptr else child_slots S j)"
  define P' where "P' = P\<lparr>key_slots := (key_slots P)(p := key_slots S (Sn - k))\<rparr>"
  define R1 where "R1 = (\<lambda>i. h(r \<mapsto> D\<lparr>key_slots := KD1 i\<rparr>))"
  define R2 where "R2 = (\<lambda>i. h(r \<mapsto> D\<lparr>key_slots := KD2 i\<rparr>))"
  define H3 where "H3 = h(r \<mapsto> D\<lparr>key_slots := KD3\<rparr>)"
  define A where "A = (\<lambda>i. h(r \<mapsto> D\<lparr>key_slots := KD3, child_slots := CD1 i\<rparr>, this \<mapsto> P'))"
  define B where "B = (\<lambda>i. h(r \<mapsto> D\<lparr>key_slots := KD3, child_slots := CD2 i\<rparr>, this \<mapsto> P',
                           c \<mapsto> S\<lparr>child_slots := CS i\<rparr>))"
  define HC where "HC = h(r \<mapsto> D\<lparr>key_slots := KD3, child_slots := CD2 k, num_items := Dn + k\<rparr>,
                           this \<mapsto> P', c \<mapsto> S\<lparr>child_slots := CS k\<rparr>)"
  define HF where "HF = h(r \<mapsto> D\<lparr>key_slots := KD3, child_slots := CD2 k, num_items := Dn + k\<rparr>,
                           this \<mapsto> P', c \<mapsto> S\<lparr>child_slots := CS k, num_items := Sn - k\<rparr>)"
  have nn: "this \<noteq> nullptr" "r \<noteq> nullptr" "c \<noteq> nullptr"
    using P S D by (auto dest: deref_nonnull)
  have hr: "h r = Some D" and hc: "h c = Some S" and ht: "h this = Some P"
    using P S D by (auto simp: deref_def split: if_splits)
  have mx: "MaxItems cfg D = MaxItems cfg S" "MaxItems cfg P = kMaxInnerKeys cfg"
    using kind inner by (simp_all add: MaxItems_def)
  have lt: "Dn + k < 128" "Sn < 128"
    using room scap MaxItems_lt_128 [OF valid, of D] MaxItems_lt_128 [OF valid, of S]
    by (simp_all add: Dn_def Sn_def)
  have kk: "1 \<le> k" "k \<le> Sn" "Sn \<le> MaxItems cfg S" "Dn + k \<le> MaxItems cfg S"
    using k scap room mx by (simp_all add: Dn_def Sn_def)
  have icap: "\<not> leaf S \<Longrightarrow> Sn \<le> kMaxInnerKeys cfg \<and> Dn + k \<le> kMaxInnerKeys cfg"
    using kk by (simp add: MaxItems_def)
  have a1: "cassert cfg (p < num_items P) = Some ()"
    using p by simp
  have a2: "Child cfg h this p = Some c" "Child cfg h this (p + 1) = Some r"
    using P inner pcap p c r by (simp_all add: Child_eq)
  have u: "usub k 1 = k - 1" "usub (num_items S) k = Sn - k"
    using k by (simp_all add: Sn_def)
  have a6: "cassert cfg (num_items S \<ge> k) = Some ()" "cassert cfg (k \<ge> 1) = Some ()"
      "cassert cfg (AvailableSlotCount cfg D \<ge> k) = Some ()"
      "cassert cfg (num_items D > 0) = Some ()"
    using k room nonempty by (auto simp: AvailableSlotCount_def)
  have dR1: "deref (R1 i) r = Some (D\<lparr>key_slots := KD1 i\<rparr>)" "deref (R1 i) c = Some S" for i
    using nn dist S by (simp_all add: R1_def)
  have "for_loop (rev [0..<Dn])
                 (\<lambda>i h. do { ka \<leftarrow> Key cfg h r i;
                             SetKey cfg h r (i + k) ka }) (R1 Dn) = Some (R1 0)"
  proof (rule for_loop_rev_upt)
    fix i assume i: "i < Dn"
    have rd: "Key cfg (R1 (Suc i)) r i = Some (key_slots D i)"
      using i kk mx by (subst Key_eq [OF dR1(1)]) (auto simp: MaxItems_def KD1_def)
    have "SetKey cfg (R1 (Suc i)) r (i + k) (key_slots D i) = Some (R1 i)"
      using i kk mx by (subst SetKey_eq [OF dR1(1)])
        (auto simp: MaxItems_def R1_def KD1_def fun_eq_iff intro!: heap_upd_cong BPTreeNode.equality)
    with rd show "Key cfg (R1 (Suc i)) r i \<bind> SetKey cfg (R1 (Suc i)) r (i + k) = Some (R1 i)"
      by simp
  qed
  moreover have "R1 Dn = h"
    using hr by (auto simp: R1_def KD1_def fun_eq_iff intro!: BPTreeNode.equality)
  ultimately have a10: "for_loop (rev [0..<num_items D])
                 (\<lambda>i h. do { ka \<leftarrow> Key cfg h r i;
                             SetKey cfg h r (i + k) ka }) h = Some (R2 1)"
    by (simp add: Dn_def R1_def R2_def KD2_def)
  have dR2: "deref (R2 i) r = Some (D\<lparr>key_slots := KD2 i\<rparr>)" "deref (R2 i) c = Some S"
      "deref (R2 i) this = Some P" for i
    using nn dist S P by (simp_all add: R2_def)
  have a11: "Key cfg (R2 1) c (Sn - k) = Some (key_slots S (Sn - k))"
    using kk by (subst Key_eq [OF dR2(2)]) auto
  have a12: "for_loop [1..<k]
                 (\<lambda>i h. do { s \<leftarrow> deref h c;
                             ka \<leftarrow> Key cfg h c (uadd (usub (num_items s) k) i);
                             SetKey cfg h r (i - 1) ka }) (R2 1) = Some (R2 k)"
  proof (rule for_loop_upt)
    fix i assume i: "1 \<le> i" "i < k"
    have id: "uadd (usub (num_items S) k) i = Sn - k + i"
      using i kk lt by (simp add: Sn_def)
    have rd: "Key cfg (R2 i) c (Sn - k + i) = Some (key_slots S (Sn - k + i))"
      using i kk by (subst Key_eq [OF dR2(2)]) auto
    have kd: "(KD2 i)(i - 1 := key_slots S (Sn - k + i)) = KD2 (Suc i)"
    proof (rule ext)
      fix j
      have e: "Sn - k + (i - 1) + 1 = Sn - k + i"
        using i by simp
      show "((KD2 i)(i - 1 := key_slots S (Sn - k + i))) j = KD2 (Suc i) j"
      proof (cases "j = i - 1")
        case True
        then have "KD2 (Suc i) j = key_slots S (Sn - k + (i - 1) + 1)"
          using i by (simp add: KD2_def)
        with True e show ?thesis by simp
      next
        case False
        then have "j < i - 1 \<longleftrightarrow> j < Suc i - 1"
          by auto
        with False show ?thesis by (simp add: KD2_def)
      qed
    qed
    have "SetKey cfg (R2 i) r (i - 1) (key_slots S (Sn - k + i)) = Some (R2 (Suc i))"
      using i kk mx kd by (subst SetKey_eq [OF dR2(1)]) (auto simp: MaxItems_def R2_def)
    with rd show "deref (R2 i) c \<bind> (\<lambda>s. Key cfg (R2 i) c (uadd (usub (num_items s) k) i) \<bind>
           (\<lambda>ka. SetKey cfg (R2 i) r (i - 1) ka)) = Some (R2 (Suc i))"
      by (simp add: dR2 id)
  qed (use k in simp)
  have a13: "Key cfg (R2 k) this p = Some (key_slots P p)"
    using p pcap mx by (subst Key_eq [OF dR2(3)]) auto
  have a14: "SetKey cfg (R2 k) r (k - 1) (key_slots P p) = Some H3"
    using kk mx by (subst SetKey_eq [OF dR2(1)]) (auto simp: MaxItems_def R2_def H3_def KD3_def)
  have d3: "deref H3 this = Some P"
    using P dist nn by (simp add: H3_def)
  have a15: "SetKey cfg H3 this p (key_slots S (Sn - k)) = Some (A (Suc Dn))"
    using p pcap mx hr
    by (subst SetKey_eq [OF d3])
       (auto simp: H3_def A_def P'_def CD1_def fun_eq_iff intro!: heap_upd_cong BPTreeNode.equality)
  have dA: "deref (A i) c = Some S"
      "deref (A i) r = Some (D\<lparr>key_slots := KD3, child_slots := CD1 i\<rparr>)" for i
    using nn dist S by (simp_all add: A_def)
  have a18: "for_loop (rev [0..<Suc (num_items D)])
                 (\<lambda>i h. do { ca \<leftarrow> Child cfg h r i;
                             SetChild cfg h r (i + k) ca }) (A (Suc Dn)) = Some (A 0)"
    if inner': "\<not> leaf S"
    unfolding Dn_def [symmetric]
  proof (rule for_loop_rev_upt)
    fix i assume i: "i < Suc Dn"
    have rd: "Child cfg (A (Suc i)) r i = Some (child_slots D i)"
      using i kk icap inner' kind by (subst Child_eq [OF dA(2)]) (auto simp: CD1_def)
    have "SetChild cfg (A (Suc i)) r (i + k) (child_slots D i) = Some (A i)"
      using i kk icap inner' kind dist by (subst SetChild_eq [OF dA(2)])
        (auto simp: A_def CD1_def fun_eq_iff intro!: heap_upd_cong BPTreeNode.equality)
    with rd show "Child cfg (A (Suc i)) r i \<bind> SetChild cfg (A (Suc i)) r (i + k) = Some (A i)"
      by simp
  qed
  have AB: "A 0 = B 0"
    using hc dist by (auto simp: A_def B_def CD2_def CS_def fun_eq_iff intro!: BPTreeNode.equality)
  have dB: "deref (B i) c = Some (S\<lparr>child_slots := CS i\<rparr>)"
      "deref (B i) r = Some (D\<lparr>key_slots := KD3, child_slots := CD2 i\<rparr>)" for i
    using nn dist by (simp_all add: B_def)
  have a20: "for_loop [0..<k]
                 (\<lambda>i h. do { s \<leftarrow> deref h c;
                             ca \<leftarrow> Child cfg h c (uadd (usub (num_items s) (k - 1)) i);
                             h \<leftarrow> SetChild cfg h r i ca;
                             SetChild cfg h c (uadd (usub (num_items s) (k - 1)) i) nullptr })
                 (B 0) = Some (B k)"
    if inner': "\<not> leaf S"
  proof (rule for_loop_upt)
    fix i assume i: "0 \<le> i" "i < k"
    have id: "uadd (usub (num_items (S\<lparr>child_slots := CS i\<rparr>)) (k - 1)) i = Sn - (k - 1) + i"
      using i kk lt by (simp add: Sn_def)
    have bnd: "Sn - (k - 1) + i \<le> kMaxInnerKeys cfg" "i \<le> kMaxInnerKeys cfg"
      using i kk icap inner' by auto
    have rd: "Child cfg (B i) c (Sn - (k - 1) + i) = Some (child_slots S (Sn - (k - 1) + i))"
      using bnd inner' by (subst Child_eq [OF dB(1)]) (auto simp: CS_def)
    have cd: "(CD2 i)(i := child_slots S (Sn - (k - 1) + i)) = CD2 (Suc i)"
      using inner' by (auto simp: CD2_def fun_eq_iff intro!: BPTreeNode.equality)
    have cs: "(CS i)(Sn - (k - 1) + i := nullptr) = CS (Suc i)"
      using inner' by (auto simp: CS_def fun_eq_iff intro!: BPTreeNode.equality)
    have w: "SetChild cfg (B i) r i (child_slots S (Sn - (k - 1) + i))
          \<bind> (\<lambda>h. SetChild cfg h c (Sn - (k - 1) + i) nullptr) = Some (B (Suc i))"
      using bnd inner' kind nn dist cd cs
      by (simp add: SetChild_def B_def fun_upd_twist)
    show "deref (B i) c \<bind> (\<lambda>s. Child cfg (B i) c (uadd (usub (num_items s) (k - 1)) i) \<bind>
          (\<lambda>ca. SetChild cfg (B i) r i ca \<bind>
          (\<lambda>h. SetChild cfg h c (uadd (usub (num_items s) (k - 1)) i) nullptr))) = Some (B (Suc i))"
      by (simp only: dB id rd w Option.bind.simps)
  qed simp
  have BG: "leaf S \<Longrightarrow> A (Suc Dn) = B k"
    using hc dist by (auto simp: A_def B_def CS_def CD1_def CD2_def fun_eq_iff intro!: BPTreeNode.equality)
  have ni: "num_items (S\<lparr>child_slots := y\<rparr>) = num_items S"
    "num_items (D\<lparr>key_slots := x, child_slots := z\<rparr>) = num_items D"
    "leaf (S\<lparr>child_slots := y\<rparr>) = leaf S" for x y z
    by simp_all
  have a22: "set_num_items (B k) r (num_items D + k) = Some HC"
    using lt dist by (simp add: set_num_items_def dB) (auto simp: B_def HC_def Dn_def fun_eq_iff intro!: BPTreeNode.equality)
  have dC: "deref HC c = Some (S\<lparr>child_slots := CS k\<rparr>)"
    using nn by (simp add: HC_def)
  have a24: "set_num_items HC c (Sn - k) = Some HF"
    using lt by (simp add: set_num_items_def dC) (simp add: HC_def HF_def)
  have main: "RebalanceChildToRight cfg h this p k = Some HF"
  proof (cases "leaf S")
    case True
    show ?thesis
      by (simp only: RebalanceChildToRight_def Let_def P a1 a2 u S D a6 a10 dR2 a11 a12 a13 a14 a15
          dA ni True BG [OF True] dB a22 dC a24 Option.bind.simps simp_thms if_True if_False)
  next
    case False
    show ?thesis
      by (simp only: RebalanceChildToRight_def Let_def P a1 a2 u S D a6 a10 dR2 a11 a12 a13 a14 a15
          dA ni False a18 [OF False] AB a20 [OF False] dB a22 dC a24
          Option.bind.simps simp_thms if_True if_False)
  qed
  have eD: "D\<lparr>key_slots := KD3, child_slots := CD2 k, num_items := Dn + k\<rparr> = ?D'"
    using k by (auto simp: KD3_def KD2_def KD1_def CD2_def CD1_def Dn_def Sn_def fun_eq_iff
          intro!: BPTreeNode.equality)
  have eS: "S\<lparr>child_slots := CS k, num_items := Sn - k\<rparr> = ?S'"
    using k by (auto simp: CS_def Sn_def fun_eq_iff intro!: BPTreeNode.equality)
  show ?thesis
    by (simp only: main HF_def eD eS P'_def) (simp only: Sn_def)
qed

text \<open>
  The same results read as lists: what the two children hold afterwards, as pieces of what
  they and the separator held before.
\<close>

lemma RebalanceChildToLeft_spec:
  assumes P: "deref h this = Some P" and inner: "\<not> leaf P"
    and pcap: "num_items P \<le> kMaxInnerKeys cfg" and p: "0 < p" "p \<le> num_items P"
    and c: "child_slots P p = c" and l: "child_slots P (p - 1) = l"
    and S: "deref h c = Some S" and D: "deref h l = Some D"
    and dist: "this \<noteq> l" "this \<noteq> c" "l \<noteq> c"
    and kind: "leaf D = leaf S"
    and k: "1 \<le> k" "k \<le> num_items S" and scap: "num_items S \<le> MaxItems cfg S"
    and room: "num_items D + k \<le> MaxItems cfg D"
    and valid: "layout_valid cfg"
  shows "\<exists>D' S'. RebalanceChildToLeft cfg h this p k =
        Some (h(l \<mapsto> D',
                this \<mapsto> P\<lparr>key_slots := (key_slots P)(p - 1 := key_slots S (k - 1))\<rparr>,
                c \<mapsto> S'))
     \<and> keys_of D' = keys_of D @ key_slots P (p - 1) # take (k - 1) (keys_of S)
     \<and> keys_of S' = drop k (keys_of S)
     \<and> children_of D' = children_of D @ take k (children_of S)
     \<and> children_of S' = drop k (children_of S)
     \<and> num_items D' = num_items D + k \<and> num_items S' = num_items S - k
     \<and> leaf D' = leaf D \<and> leaf S' = leaf S"
proof -
  let ?D' = "D\<lparr>
              key_slots := (\<lambda>j. if j = num_items D then key_slots P (p - 1)
                       else if num_items D < j \<and> j < num_items D + k
                       then key_slots S (j - num_items D - 1) else key_slots D j),
              child_slots := (\<lambda>j. if \<not> leaf S \<and> num_items D < j \<and> j < num_items D + 1 + k
                       then child_slots S (j - num_items D - 1) else child_slots D j),
              num_items := num_items D + k\<rparr>"
  let ?S' = "S\<lparr>
              key_slots := (\<lambda>j. if j < num_items S - k then key_slots S (j + k) else key_slots S j),
              child_slots := (\<lambda>j. if leaf S then child_slots S j
                       else if j < Suc (num_items S) - k then child_slots S (j + k)
                       else if k \<le> j \<and> j < Suc (num_items S) then nullptr
                       else child_slots S j),
              num_items := num_items S - k\<rparr>"
  have kD: "keys_of ?D' = keys_of D @ key_slots P (p - 1) # take (k - 1) (keys_of S)"
    using k by (intro nth_equalityI) (auto simp: keys_of_nth nth_append nth_Cons')
  have kS: "keys_of ?S' = drop k (keys_of S)"
    using k by (intro nth_equalityI) (auto simp: keys_of_nth add.commute)
  have cD: "children_of ?D' = children_of D @ take k (children_of S)"
  proof (cases "leaf S")
    case True
    then show ?thesis using kind by (simp add: children_of_def)
  next
    case False
    then have "\<not> leaf D" using kind by simp
    with False show ?thesis
      using k by (intro nth_equalityI) (auto simp: children_of_nth nth_append)
  qed
  have cS: "children_of ?S' = drop k (children_of S)"
  proof (cases "leaf S")
    case True
    then show ?thesis by (simp add: children_of_def)
  next
    case False
    then show ?thesis
      using k by (intro nth_equalityI) (auto simp: children_of_nth add.commute)
  qed
  show ?thesis
    using RebalanceChildToLeft_eq [OF assms] kD kS cD cS
    by (intro exI [of _ ?D'] exI [of _ ?S']) simp
qed

lemma RebalanceChildToRight_spec:
  assumes P: "deref h this = Some P" and inner: "\<not> leaf P"
    and pcap: "num_items P \<le> kMaxInnerKeys cfg" and p: "p < num_items P"
    and c: "child_slots P p = c" and r: "child_slots P (p + 1) = r"
    and S: "deref h c = Some S" and D: "deref h r = Some D"
    and dist: "this \<noteq> r" "this \<noteq> c" "r \<noteq> c"
    and kind: "leaf D = leaf S"
    and k: "1 \<le> k" "k \<le> num_items S" and scap: "num_items S \<le> MaxItems cfg S"
    and room: "num_items D + k \<le> MaxItems cfg D"
    and nonempty: "NDEBUG cfg \<or> 0 < num_items D"
    and valid: "layout_valid cfg"
  shows "\<exists>D' S'. RebalanceChildToRight cfg h this p k =
        Some (h(r \<mapsto> D',
                this \<mapsto> P\<lparr>key_slots := (key_slots P)(p := key_slots S (num_items S - k))\<rparr>,
                c \<mapsto> S'))
     \<and> keys_of D' = drop (num_items S - k + 1) (keys_of S) @ key_slots P p # keys_of D
     \<and> keys_of S' = take (num_items S - k) (keys_of S)
     \<and> children_of D' = drop (num_items S - k + 1) (children_of S) @ children_of D
     \<and> children_of S' = take (num_items S - k + 1) (children_of S)
     \<and> num_items D' = num_items D + k \<and> num_items S' = num_items S - k
     \<and> leaf D' = leaf D \<and> leaf S' = leaf S"
proof -
  let ?D' = "D\<lparr>
              key_slots := (\<lambda>j. if j < k - 1 then key_slots S (num_items S - k + j + 1)
                       else if j = k - 1 then key_slots P p
                       else if j < num_items D + k then key_slots D (j - k) else key_slots D j),
              child_slots := (\<lambda>j. if leaf S then child_slots D j
                       else if j < k then child_slots S (num_items S - (k - 1) + j)
                       else if j < Suc (num_items D) + k then child_slots D (j - k)
                       else child_slots D j),
              num_items := num_items D + k\<rparr>"
  let ?S' = "S\<lparr>
              child_slots := (\<lambda>j. if \<not> leaf S \<and> num_items S - (k - 1) \<le> j \<and> j < Suc (num_items S)
                       then nullptr else child_slots S j),
              num_items := num_items S - k\<rparr>"
  have len: "length (drop (num_items S - k + 1) (keys_of S)) = k - 1"
    using k by simp
  have kD: "keys_of ?D' = drop (num_items S - k + 1) (keys_of S) @ key_slots P p # keys_of D"
  proof (intro nth_equalityI allI impI)
    show "length (keys_of ?D') = length (drop (num_items S - k + 1) (keys_of S) @ key_slots P p # keys_of D)"
      using k by simp
  next
    fix j assume "j < length (keys_of ?D')"
    then have j: "j < num_items D + k" by simp
    consider "j < k - 1" | "j = k - 1" | "k \<le> j" by linarith
    then show "keys_of ?D' ! j = (drop (num_items S - k + 1) (keys_of S) @ key_slots P p # keys_of D) ! j"
    proof cases
      case 1
      then have "num_items S - k + 1 + j < num_items S" using k by simp
      with 1 j k show ?thesis
        by (simp add: keys_of_nth nth_append add.commute add.left_commute)
    next
      case 2
      with j k show ?thesis
        by (simp add: keys_of_nth nth_append)
    next
      case 3
      then have e: "j - (k - 1) = Suc (j - k)" and ge: "\<not> j < k - 1" "j \<noteq> k - 1"
        using k by simp_all
      have "(drop (num_items S - k + 1) (keys_of S) @ key_slots P p # keys_of D) ! j
            = (key_slots P p # keys_of D) ! (j - (k - 1))"
        using ge len by (simp only: nth_append if_False)
      also have "\<dots> = keys_of D ! (j - k)"
        by (simp only: e nth_Cons_Suc)
      also have "\<dots> = key_slots D (j - k)"
        using 3 j by (simp add: keys_of_nth)
      finally have rhs: "(drop (num_items S - k + 1) (keys_of S) @ key_slots P p # keys_of D) ! j
            = key_slots D (j - k)" .
      have "keys_of ?D' ! j = key_slots ?D' j"
        using j by (simp add: keys_of_nth)
      also have "\<dots> = key_slots D (j - k)"
        using ge j by simp
      finally show ?thesis using rhs by simp
    qed
  qed
  have kS: "keys_of ?S' = take (num_items S - k) (keys_of S)"
    using k by (intro nth_equalityI) (auto simp: keys_of_nth)
  have cD: "children_of ?D' = drop (num_items S - k + 1) (children_of S) @ children_of D"
  proof (cases "leaf S")
    case True
    then show ?thesis using kind by (simp add: children_of_def)
  next
    case False
    then have iD: "\<not> leaf D" using kind by simp
    show ?thesis
    proof (intro nth_equalityI allI impI)
      show "length (children_of ?D') = length (drop (num_items S - k + 1) (children_of S) @ children_of D)"
        using k False iD by simp
    next
      fix j assume "j < length (children_of ?D')"
      then have j: "j < Suc (num_items D + k)" using iD by simp
      show "children_of ?D' ! j = (drop (num_items S - k + 1) (children_of S) @ children_of D) ! j"
      proof (cases "j < k")
        case True
        then have "num_items S - k + 1 + j \<le> num_items S" "num_items S - (k - 1) + j = num_items S - k + 1 + j"
          using k by simp_all
        with True j k False iD show ?thesis
          by (simp add: children_of_nth nth_append)
      next
        case False
        with j k iD \<open>\<not> leaf S\<close> show ?thesis
          by (simp add: children_of_nth nth_append)
      qed
    qed
  qed
  have cS: "children_of ?S' = take (num_items S - k + 1) (children_of S)"
  proof (cases "leaf S")
    case True
    then show ?thesis by (simp add: children_of_def)
  next
    case False
    then show ?thesis
      using k by (intro nth_equalityI) (auto simp: children_of_nth)
  qed
  show ?thesis
    using RebalanceChildToRight_eq [OF assms] kD kS cD cS
    by (intro exI [of _ ?D'] exI [of _ ?S']) simp
qed


text \<open>
  C8. Let \<open>lp\<close> and \<open>rp\<close> be the children at positions \<open>a\<close> and \<open>a + 1\<close> of
  an inner node, distinct nodes of the same kind within their capacity, and
  \<open>k \<ge> 1\<close>. When the source holds at least \<open>k\<close> items and the destination has
  \<open>k\<close> free slots (and, for the move to the right, the destination is not empty or
  assertions are compiled out), \<open>RebalanceChildToLeft(a + 1, k)\<close> and
  \<open>RebalanceChildToRight(a, k)\<close> succeed and change only the parent and the two
  children; the parent keeps its count, its leaf flag, its children and every key slot
  but the separator at slot \<open>a\<close>; the keys of the left child, the separator and the
  keys of the right child are, in this order, the same sequence as before, hence the same
  multiset; the destination gains exactly \<open>k\<close> items and the source loses exactly
  \<open>k\<close>.
\<close>

theorem C8_rebalance_frame:
  assumes P: "deref h this = Some P" and inner: "\<not> leaf P"
    and pcap: "num_items P \<le> kMaxInnerKeys cfg" and a: "a < num_items P"
    and lp: "child_slots P a = lp" and rp: "child_slots P (a + 1) = rp"
    and L: "deref h lp = Some L" and R: "deref h rp = Some R"
    and dist: "this \<noteq> lp" "this \<noteq> rp" "lp \<noteq> rp"
    and kind: "leaf L = leaf R"
    and caps: "num_items L \<le> MaxItems cfg L" "num_items R \<le> MaxItems cfg R"
    and k: "1 \<le> k" and valid: "layout_valid cfg"
  shows "(k \<le> num_items R \<and> num_items L + k \<le> MaxItems cfg L \<longrightarrow>
          (\<exists>P' L' R'. RebalanceChildToLeft cfg h this (a + 1) k
                = Some (h(lp \<mapsto> L', this \<mapsto> P', rp \<mapsto> R'))
            \<and> num_items P' = num_items P \<and> leaf P' = leaf P
            \<and> children_of P' = children_of P
            \<and> (\<forall>j. j \<noteq> a \<longrightarrow> key_slots P' j = key_slots P j)
            \<and> keys_of L' @ key_slots P' a # keys_of R' = keys_of L @ key_slots P a # keys_of R
            \<and> mset (keys_of L') + {#key_slots P' a#} + mset (keys_of R')
                = mset (keys_of L) + {#key_slots P a#} + mset (keys_of R)
            \<and> num_items L' = num_items L + k \<and> num_items R' = num_items R - k))
       \<and> (k \<le> num_items L \<and> num_items R + k \<le> MaxItems cfg R
            \<and> (NDEBUG cfg \<or> 0 < num_items R) \<longrightarrow>
          (\<exists>P' L' R'. RebalanceChildToRight cfg h this a k
                = Some (h(rp \<mapsto> R', this \<mapsto> P', lp \<mapsto> L'))
            \<and> num_items P' = num_items P \<and> leaf P' = leaf P
            \<and> children_of P' = children_of P
            \<and> (\<forall>j. j \<noteq> a \<longrightarrow> key_slots P' j = key_slots P j)
            \<and> keys_of L' @ key_slots P' a # keys_of R' = keys_of L @ key_slots P a # keys_of R
            \<and> mset (keys_of L') + {#key_slots P' a#} + mset (keys_of R')
                = mset (keys_of L) + {#key_slots P a#} + mset (keys_of R)
            \<and> num_items R' = num_items R + k \<and> num_items L' = num_items L - k))"
proof (intro conjI impI)
  assume pre: "k \<le> num_items R \<and> num_items L + k \<le> MaxItems cfg L"
  let ?P' = "P\<lparr>key_slots := (key_slots P)(a + 1 - 1 := key_slots R (k - 1))\<rparr>"
  have a': "0 < a + 1" "a + 1 \<le> num_items P" "child_slots P (a + 1 - 1) = lp"
    using a lp by simp_all
  from RebalanceChildToLeft_spec [OF P inner pcap a'(1,2) rp a'(3) R L dist(1,2,3) kind k _ caps(2) _ valid] pre
  obtain L' R' where res: "RebalanceChildToLeft cfg h this (a + 1) k
        = Some (h(lp \<mapsto> L', this \<mapsto> ?P', rp \<mapsto> R'))"
      "keys_of L' = keys_of L @ key_slots P (a + 1 - 1) # take (k - 1) (keys_of R)"
      "keys_of R' = drop k (keys_of R)"
      "num_items L' = num_items L + k" "num_items R' = num_items R - k"
    by auto
  have km: "k - 1 < length (keys_of R)" "Suc (k - 1) = k"
    using k pre by auto
  have nth: "keys_of R ! (k - 1) = key_slots R (k - 1)"
    using km(1) by (simp add: keys_of_nth)
  have split: "take (k - 1) (keys_of R) @ key_slots R (k - 1) # drop k (keys_of R) = keys_of R"
    using id_take_nth_drop [OF km(1)] by (simp only: km(2) nth)
  have "keys_of L' @ key_slots ?P' a # keys_of R'
      = keys_of L @ key_slots P a # (take (k - 1) (keys_of R) @ key_slots R (k - 1) # drop k (keys_of R))"
    by (simp add: res(2,3))
  then have seq: "keys_of L' @ key_slots ?P' a # keys_of R' = keys_of L @ key_slots P a # keys_of R"
    by (simp only: split)
  have ms: "mset (keys_of L') + {#key_slots ?P' a#} + mset (keys_of R')
                = mset (keys_of L) + {#key_slots P a#} + mset (keys_of R)"
    using arg_cong [OF seq, of mset] by simp
  show "\<exists>P' L' R'. RebalanceChildToLeft cfg h this (a + 1) k
                = Some (h(lp \<mapsto> L', this \<mapsto> P', rp \<mapsto> R'))
            \<and> num_items P' = num_items P \<and> leaf P' = leaf P
            \<and> children_of P' = children_of P
            \<and> (\<forall>j. j \<noteq> a \<longrightarrow> key_slots P' j = key_slots P j)
            \<and> keys_of L' @ key_slots P' a # keys_of R' = keys_of L @ key_slots P a # keys_of R
            \<and> mset (keys_of L') + {#key_slots P' a#} + mset (keys_of R')
                = mset (keys_of L) + {#key_slots P a#} + mset (keys_of R)
            \<and> num_items L' = num_items L + k \<and> num_items R' = num_items R - k"
    using res(1,4,5) seq ms
    by (intro exI [of _ ?P'] exI [of _ L'] exI [of _ R']) (simp add: children_of_def)
next
  assume pre: "k \<le> num_items L \<and> num_items R + k \<le> MaxItems cfg R \<and> (NDEBUG cfg \<or> 0 < num_items R)"
  let ?P' = "P\<lparr>key_slots := (key_slots P)(a := key_slots L (num_items L - k))\<rparr>"
  from RebalanceChildToRight_spec [OF P inner pcap a lp rp L R dist(2,1) dist(3) [symmetric]
      kind [symmetric] k _ caps(1) _ _ valid] pre
  obtain R' L' where res: "RebalanceChildToRight cfg h this a k
        = Some (h(rp \<mapsto> R', this \<mapsto> ?P', lp \<mapsto> L'))"
      "keys_of R' = drop (num_items L - k + 1) (keys_of L) @ key_slots P a # keys_of R"
      "keys_of L' = take (num_items L - k) (keys_of L)"
      "num_items R' = num_items R + k" "num_items L' = num_items L - k"
    by auto
  have km: "num_items L - k < length (keys_of L)"
    using k pre by auto
  have nth: "keys_of L ! (num_items L - k) = key_slots L (num_items L - k)"
    using km by (simp add: keys_of_nth)
  have split: "take (num_items L - k) (keys_of L) @ key_slots L (num_items L - k)
        # drop (num_items L - k + 1) (keys_of L) = keys_of L"
    using id_take_nth_drop [OF km] by (simp only: nth Suc_eq_plus1)
  have "keys_of L' @ key_slots ?P' a # keys_of R'
      = (take (num_items L - k) (keys_of L) @ key_slots L (num_items L - k)
        # drop (num_items L - k + 1) (keys_of L)) @ key_slots P a # keys_of R"
    by (simp add: res(2,3))
  then have seq: "keys_of L' @ key_slots ?P' a # keys_of R' = keys_of L @ key_slots P a # keys_of R"
    by (simp only: split)
  have ms: "mset (keys_of L') + {#key_slots ?P' a#} + mset (keys_of R')
                = mset (keys_of L) + {#key_slots P a#} + mset (keys_of R)"
    using arg_cong [OF seq, of mset] by simp
  show "\<exists>P' L' R'. RebalanceChildToRight cfg h this a k
                = Some (h(rp \<mapsto> R', this \<mapsto> P', lp \<mapsto> L'))
            \<and> num_items P' = num_items P \<and> leaf P' = leaf P
            \<and> children_of P' = children_of P
            \<and> (\<forall>j. j \<noteq> a \<longrightarrow> key_slots P' j = key_slots P j)
            \<and> keys_of L' @ key_slots P' a # keys_of R' = keys_of L @ key_slots P a # keys_of R
            \<and> mset (keys_of L') + {#key_slots P' a#} + mset (keys_of R')
                = mset (keys_of L) + {#key_slots P a#} + mset (keys_of R)
            \<and> num_items R' = num_items R + k \<and> num_items L' = num_items L - k"
    using res(1,4,5) seq ms
    by (intro exI [of _ ?P'] exI [of _ L'] exI [of _ R']) (simp add: children_of_def)
qed


theorem C8_witness:
  "(\<exists>P' L' R'. RebalanceChildToLeft cfg64
          [1 \<mapsto> inner_node [40] [2, 3], 2 \<mapsto> leaf_node [10, 20], 3 \<mapsto> leaf_node [50, 60]] 1 1 1
        = Some ([1 \<mapsto> inner_node [40] [2, 3], 2 \<mapsto> leaf_node [10, 20], 3 \<mapsto> leaf_node [50, 60]]
                  (2 \<mapsto> L', 1 \<mapsto> P', 3 \<mapsto> R'))
      \<and> num_items P' = 1 \<and> children_of P' = [2, 3]
      \<and> keys_of L' @ key_slots P' 0 # keys_of R' = [10, 20, 40, 50, 60]
      \<and> num_items L' = 3 \<and> num_items R' = 1)
   \<and> (\<exists>P' L' R'. RebalanceChildToRight cfg64
          [1 \<mapsto> inner_node [40] [2, 3], 2 \<mapsto> leaf_node [10, 20], 3 \<mapsto> leaf_node [50, 60]] 1 0 1
        = Some ([1 \<mapsto> inner_node [40] [2, 3], 2 \<mapsto> leaf_node [10, 20], 3 \<mapsto> leaf_node [50, 60]]
                  (3 \<mapsto> R', 1 \<mapsto> P', 2 \<mapsto> L'))
      \<and> num_items P' = 1 \<and> children_of P' = [2, 3]
      \<and> keys_of L' @ key_slots P' 0 # keys_of R' = [10, 20, 40, 50, 60]
      \<and> num_items R' = 3 \<and> num_items L' = 1)"
proof -
  let ?P = "inner_node [40] [2, 3]"
  let ?L = "leaf_node [10, 20]"
  let ?R = "leaf_node [50, 60]"
  let ?h = "[1 \<mapsto> ?P, 2 \<mapsto> ?L, 3 \<mapsto> ?R]"
  have d: "deref ?h 1 = Some ?P" "deref ?h 2 = Some ?L" "deref ?h 3 = Some ?R"
    by (simp_all add: deref_def nullptr_def)
  have P: "\<not> leaf ?P" "num_items ?P \<le> kMaxInnerKeys cfg64" "0 < num_items ?P"
      "child_slots ?P 0 = 2" "child_slots ?P (0 + 1) = 3"
    by (simp_all add: slots_def)
  have ne: "(1::nat) \<noteq> 2" "(1::nat) \<noteq> 3" "(2::nat) \<noteq> 3"
    by simp_all
  have c: "leaf ?L = leaf ?R" "num_items ?L \<le> MaxItems cfg64 ?L" "num_items ?R \<le> MaxItems cfg64 ?R"
      "(1::nat) \<le> 1" "layout_valid cfg64"
    by (simp_all add: MaxItems_def layout_valid_def)
  have pre: "1 \<le> num_items ?R \<and> num_items ?L + 1 \<le> MaxItems cfg64 ?L"
      "1 \<le> num_items ?L \<and> num_items ?R + 1 \<le> MaxItems cfg64 ?R
        \<and> (NDEBUG cfg64 \<or> 0 < num_items ?R)"
    by (simp_all add: MaxItems_def)
  from C8_rebalance_frame [OF d(1) P d(2,3) ne c] pre
  have "(\<exists>P' L' R'. RebalanceChildToLeft cfg64 ?h 1 (0 + 1) 1
                = Some (?h(2 \<mapsto> L', 1 \<mapsto> P', 3 \<mapsto> R'))
            \<and> num_items P' = num_items ?P \<and> leaf P' = leaf ?P
            \<and> children_of P' = children_of ?P
            \<and> (\<forall>j. j \<noteq> 0 \<longrightarrow> key_slots P' j = key_slots ?P j)
            \<and> keys_of L' @ key_slots P' 0 # keys_of R' = keys_of ?L @ key_slots ?P 0 # keys_of ?R
            \<and> mset (keys_of L') + {#key_slots P' 0#} + mset (keys_of R')
                = mset (keys_of ?L) + {#key_slots ?P 0#} + mset (keys_of ?R)
            \<and> num_items L' = num_items ?L + 1 \<and> num_items R' = num_items ?R - 1)"
    and "(\<exists>P' L' R'. RebalanceChildToRight cfg64 ?h 1 0 1
                = Some (?h(3 \<mapsto> R', 1 \<mapsto> P', 2 \<mapsto> L'))
            \<and> num_items P' = num_items ?P \<and> leaf P' = leaf ?P
            \<and> children_of P' = children_of ?P
            \<and> (\<forall>j. j \<noteq> 0 \<longrightarrow> key_slots P' j = key_slots ?P j)
            \<and> keys_of L' @ key_slots P' 0 # keys_of R' = keys_of ?L @ key_slots ?P 0 # keys_of ?R
            \<and> mset (keys_of L') + {#key_slots P' 0#} + mset (keys_of R')
                = mset (keys_of ?L) + {#key_slots ?P 0#} + mset (keys_of ?R)
            \<and> num_items R' = num_items ?R + 1 \<and> num_items L' = num_items ?L - 1)"
    by blast+
  then show ?thesis
    by (simp add: slots_def numeral_3_eq_3) blast
qed

section \<open>RebalanceChild\<close>

text \<open>
  The three ways through \<open>RebalanceChild\<close> on a full child: items go to the left
  sibling, the left sibling is passed over and items go to the right sibling, or nothing
  moves and the null node is returned.
\<close>

lemma deref_Some_heap: "deref h p = Some n \<Longrightarrow> h p = Some n"
  by (auto simp: deref_def split: if_splits)

lemma RebalanceChild_left:
  assumes P: "deref h this = Some P" and inner: "\<not> leaf P"
    and pcap: "num_items P \<le> kMaxInnerKeys cfg" and pos: "0 < pos" "pos \<le> num_items P"
    and c: "child_slots P pos = c" and l: "child_slots P (pos - 1) = l"
    and C: "deref h c = Some C" and L: "deref h l = Some L"
    and dist: "this \<noteq> l" "this \<noteq> c" "l \<noteq> c"
    and kind: "leaf L = leaf C"
    and full: "num_items C = MaxItems cfg C"
    and Lne: "1 \<le> num_items L"
    and ok: "num_items L < MaxItems cfg L" "ip = num_items C \<or> num_items L + 1 < MaxItems cfg L"
    and valid: "layout_valid cfg"
    and tm: "tm = (if ip = num_items C then MaxItems cfg L - num_items L
                  else (MaxItems cfg L - num_items L) div 2)"
  shows "\<exists>L' C'. RebalanceChild cfg h this pos ip =
        Some (h(l \<mapsto> L',
                this \<mapsto> P\<lparr>key_slots := (key_slots P)(pos - 1 := key_slots C (tm - 1))\<rparr>,
                c \<mapsto> C'),
              if ip < tm then l else c,
              if ip < tm then num_items L + ip + 1 else ip - tm)
     \<and> 1 \<le> tm \<and> tm < num_items C \<and> num_items L + tm \<le> MaxItems cfg L
     \<and> (ip < tm \<longrightarrow> num_items L + tm < MaxItems cfg L)
     \<and> keys_of L' = keys_of L @ key_slots P (pos - 1) # take (tm - 1) (keys_of C)
     \<and> keys_of C' = drop tm (keys_of C)
     \<and> children_of L' = children_of L @ take tm (children_of C)
     \<and> children_of C' = drop tm (children_of C)
     \<and> num_items L' = num_items L + tm \<and> num_items C' = num_items C - tm
     \<and> leaf L' = leaf L \<and> leaf C' = leaf C"
proof -
  define fl where "fl = MaxItems cfg L - num_items L"
  have mx: "MaxItems cfg L = MaxItems cfg C"
    using kind by (simp add: MaxItems_def)
  have fl: "AvailableSlotCount cfg L = fl" "0 < fl" "fl < num_items C"
    using ok Lne full mx by (simp_all add: AvailableSlotCount_def fl_def)
  have tm': "tm = (if ip = num_items C then fl else fl div 2)"
    using tm by (simp add: fl_def)
  have tmb: "1 \<le> tm" "tm \<le> num_items C" "num_items L + tm \<le> MaxItems cfg L" "tm < num_items C"
      "ip < tm \<longrightarrow> num_items L + tm < MaxItems cfg L"
    using ok fl tm' full mx by (auto simp: fl_def)
  have scap: "num_items C \<le> MaxItems cfg C"
    using full by simp
  from RebalanceChildToLeft_spec [OF P inner pcap pos c l C L dist kind tmb(1,2) scap tmb(3) valid]
  obtain L' C' where res: "RebalanceChildToLeft cfg h this pos tm =
        Some (h(l \<mapsto> L',
                this \<mapsto> P\<lparr>key_slots := (key_slots P)(pos - 1 := key_slots C (tm - 1))\<rparr>,
                c \<mapsto> C'))"
     "keys_of L' = keys_of L @ key_slots P (pos - 1) # take (tm - 1) (keys_of C)"
     "keys_of C' = drop tm (keys_of C)"
     "children_of L' = children_of L @ take tm (children_of C)"
     "children_of C' = drop tm (children_of C)"
     "num_items L' = num_items L + tm" "num_items C' = num_items C - tm"
     "leaf L' = leaf L" "leaf C' = leaf C"
    by blast
  have nn: "this \<noteq> nullptr" "l \<noteq> nullptr" "c \<noteq> nullptr"
    using P C L by (auto dest: deref_nonnull)
  have ch: "Child cfg h this pos = Some c" "Child cfg h this (pos - 1) = Some l"
    using P inner pcap pos c l by (simp_all add: Child_eq)
  let ?h' = "h(l \<mapsto> L',
                this \<mapsto> P\<lparr>key_slots := (key_slots P)(pos - 1 := key_slots C (tm - 1))\<rparr>,
                c \<mapsto> C')"
  have d': "deref ?h' c = Some C'" "deref ?h' l = Some L'"
    using nn dist by simp_all
  have av: "AvailableSlotCount cfg C' = tm" "ip < tm \<Longrightarrow> 0 < AvailableSlotCount cfg L'"
    using res(6-9) tmb full mx by (auto simp: AvailableSlotCount_def MaxItems_def)
  have as: "cassert cfg (fl < num_items C) = Some ()" "cassert cfg (AvailableSlotCount cfg C' = tm) = Some ()"
    using fl av by simp_all
  have run: "RebalanceChild cfg h this pos ip =
        Some (?h', if ip < tm then l else c, if ip < tm then num_items L + ip + 1 else ip - tm)"
  proof (cases "ip = num_items C")
    case True
    then have t: "tm = fl" using tm' by simp
    have f: "\<not> num_items C < fl" "fl \<noteq> 0"
      using fl by simp_all
    show ?thesis
      unfolding True t
      using pos(1)
      by (simp only: RebalanceChild_def Let_def ch L C fl(1,2) as [unfolded t] f
            res(1) [unfolded t] d' [unfolded t]
            Option.bind.simps simp_thms if_True if_False)
  next
    case False
    then have t: "tm = fl div 2" "1 < fl" "fl div 2 \<noteq> 0" using tm' tmb(1) by auto
    show ?thesis
    proof (cases "ip < tm")
      case lt: True
      have "cassert cfg (AvailableSlotCount cfg L' > 0) = Some ()"
        using av(2) [OF lt] by simp
      then show ?thesis
        unfolding t(1)
        using pos(1) False lt [unfolded t(1)]
        by (simp only: RebalanceChild_def Let_def ch L C fl(1,2) as [unfolded t(1)] t(2,3)
            res(1) [unfolded t(1)] d' [unfolded t(1)]
            Option.bind.simps simp_thms if_True if_False)
    next
      case ge: False
      show ?thesis
        unfolding t(1)
        using pos(1) False ge [unfolded t(1)]
        by (simp only: RebalanceChild_def Let_def ch L C fl(1,2) as [unfolded t(1)] t(2,3)
            res(1) [unfolded t(1)] d' [unfolded t(1)]
            Option.bind.simps simp_thms if_True if_False)
    qed
  qed
  show ?thesis
    using run res(2-9) tmb by blast
qed

lemma RebalanceChild_skip_left:
  assumes P: "deref h this = Some P" and inner: "\<not> leaf P"
    and pcap: "num_items P \<le> kMaxInnerKeys cfg" and pos: "pos \<le> num_items P"
    and c: "child_slots P pos = c" and C: "deref h c = Some C"
    and left: "0 < pos \<Longrightarrow> deref h (child_slots P (pos - 1)) = Some L
        \<and> num_items L \<le> MaxItems cfg L
        \<and> \<not> (num_items L < MaxItems cfg L \<and> (ip = num_items C \<or> num_items L + 1 < MaxItems cfg L))"
  shows "RebalanceChild cfg h this pos ip = RebalanceChild_right cfg h this pos ip c"
proof (cases "0 < pos")
  case False
  then show ?thesis
    using P inner pcap pos c by (simp add: RebalanceChild_def Child_eq)
next
  case True
  note l = left [OF True]
  have ch: "Child cfg h this pos = Some c" "Child cfg h this (pos - 1) = Some (child_slots P (pos - 1))"
    using P inner pcap pos c by (simp_all add: Child_eq)
  have "AvailableSlotCount cfg L = 0 \<or> (ip \<noteq> num_items C \<and> AvailableSlotCount cfg L = 1)"
    using l by (auto simp: AvailableSlotCount_def)
  then show ?thesis
    using True ch l C by (auto simp: RebalanceChild_def)
qed

lemma RebalanceChild_right_fail:
  assumes P: "deref h this = Some P" and inner: "\<not> leaf P"
    and pcap: "num_items P \<le> kMaxInnerKeys cfg" and pos: "pos \<le> num_items P"
    and C: "deref h c = Some C"
    and right: "pos < num_items P \<Longrightarrow> deref h (child_slots P (pos + 1)) = Some R
        \<and> num_items R \<le> MaxItems cfg R
        \<and> \<not> (num_items R < MaxItems cfg R \<and> (ip = 0 \<or> num_items R + 1 < MaxItems cfg R))"
  shows "RebalanceChild_right cfg h this pos ip c = Some (h, nullptr, 0)"
proof (cases "pos < num_items P")
  case False
  then show ?thesis
    using P by (simp add: RebalanceChild_right_def)
next
  case True
  note r = right [OF True]
  have ch: "Child cfg h this (pos + 1) = Some (child_slots P (pos + 1))"
    using P inner pcap True by (simp add: Child_eq)
  have "AvailableSlotCount cfg R = 0 \<or> (ip \<noteq> 0 \<and> AvailableSlotCount cfg R = 1)"
    using r by (auto simp: AvailableSlotCount_def)
  then show ?thesis
    using True ch r P by (auto simp: RebalanceChild_right_def)
qed

lemma RebalanceChild_right_ok:
  assumes P: "deref h this = Some P" and inner: "\<not> leaf P"
    and pcap: "num_items P \<le> kMaxInnerKeys cfg" and pos: "pos < num_items P"
    and c: "child_slots P pos = c" and r: "child_slots P (pos + 1) = r"
    and C: "deref h c = Some C" and R: "deref h r = Some R"
    and dist: "this \<noteq> r" "this \<noteq> c" "r \<noteq> c"
    and kind: "leaf R = leaf C"
    and full: "num_items C = MaxItems cfg C"
    and Rne: "1 \<le> num_items R"
    and ok: "num_items R < MaxItems cfg R" "ip = 0 \<or> num_items R + 1 < MaxItems cfg R"
    and valid: "layout_valid cfg"
    and tm: "tm = (if ip = 0 then MaxItems cfg R - num_items R
                  else (MaxItems cfg R - num_items R) div 2)"
  shows "\<exists>R' C'. RebalanceChild_right cfg h this pos ip c =
        Some (h(r \<mapsto> R',
                this \<mapsto> P\<lparr>key_slots := (key_slots P)(pos := key_slots C (num_items C - tm))\<rparr>,
                c \<mapsto> C'),
              if num_items C - tm < ip then r else c,
              if num_items C - tm < ip then ip - (num_items C - tm + 1) else ip)
     \<and> 1 \<le> tm \<and> tm < num_items C \<and> num_items R + tm \<le> MaxItems cfg R
     \<and> (ip \<noteq> 0 \<longrightarrow> num_items R + tm < MaxItems cfg R)
     \<and> keys_of R' = drop (num_items C - tm + 1) (keys_of C) @ key_slots P pos # keys_of R
     \<and> keys_of C' = take (num_items C - tm) (keys_of C)
     \<and> children_of R' = drop (num_items C - tm + 1) (children_of C) @ children_of R
     \<and> children_of C' = take (num_items C - tm + 1) (children_of C)
     \<and> num_items R' = num_items R + tm \<and> num_items C' = num_items C - tm
     \<and> leaf R' = leaf R \<and> leaf C' = leaf C"
proof -
  define fr where "fr = MaxItems cfg R - num_items R"
  have mx: "MaxItems cfg R = MaxItems cfg C"
    using kind by (simp add: MaxItems_def)
  have fr: "AvailableSlotCount cfg R = fr" "0 < fr" "fr < num_items C"
    using ok Rne full mx by (simp_all add: AvailableSlotCount_def fr_def)
  have tm': "tm = (if ip = 0 then fr else fr div 2)"
    using tm by (simp add: fr_def)
  have tmb: "1 \<le> tm" "tm \<le> num_items C" "num_items R + tm \<le> MaxItems cfg R" "tm < num_items C"
      "ip \<noteq> 0 \<longrightarrow> num_items R + tm < MaxItems cfg R"
    using ok fr tm' full mx by (auto simp: fr_def)
  have scap: "num_items C \<le> MaxItems cfg C"
    using full by simp
  have ne: "NDEBUG cfg \<or> 0 < num_items R"
    using Rne by simp
  from RebalanceChildToRight_spec [OF P inner pcap pos c r C R dist kind tmb(1,2) scap tmb(3) ne valid]
  obtain R' C' where res: "RebalanceChildToRight cfg h this pos tm =
        Some (h(r \<mapsto> R',
                this \<mapsto> P\<lparr>key_slots := (key_slots P)(pos := key_slots C (num_items C - tm))\<rparr>,
                c \<mapsto> C'))"
     "keys_of R' = drop (num_items C - tm + 1) (keys_of C) @ key_slots P pos # keys_of R"
     "keys_of C' = take (num_items C - tm) (keys_of C)"
     "children_of R' = drop (num_items C - tm + 1) (children_of C) @ children_of R"
     "children_of C' = take (num_items C - tm + 1) (children_of C)"
     "num_items R' = num_items R + tm" "num_items C' = num_items C - tm"
     "leaf R' = leaf R" "leaf C' = leaf C"
    by blast
  have nn: "this \<noteq> nullptr" "r \<noteq> nullptr" "c \<noteq> nullptr"
    using P C R by (auto dest: deref_nonnull)
  have ch: "Child cfg h this (pos + 1) = Some r"
    using P inner pcap pos r by (simp add: Child_eq)
  let ?h' = "h(r \<mapsto> R',
                this \<mapsto> P\<lparr>key_slots := (key_slots P)(pos := key_slots C (num_items C - tm))\<rparr>,
                c \<mapsto> C')"
  have d': "deref ?h' c = Some C'"
    using nn dist by simp
  have as: "cassert cfg (fr < num_items C) = Some ()"
    using fr by simp
  have run: "RebalanceChild_right cfg h this pos ip c =
        Some (?h', if num_items C - tm < ip then r else c,
              if num_items C - tm < ip then ip - (num_items C - tm + 1) else ip)"
  proof (cases "ip = 0")
    case True
    then have t: "tm = fr" using tm' by simp
    have f: "\<not> num_items C - fr < 0" "fr \<noteq> 0"
      using fr by simp_all
    show ?thesis
      unfolding True t
      using pos
      by (simp only: RebalanceChild_right_def Let_def P ch R C fr(1,2) as f
            res(1) [unfolded t] d' [unfolded t] res(7) [unfolded t]
            Option.bind.simps simp_thms if_True if_False)
  next
    case False
    then have t: "tm = fr div 2" "1 < fr" "fr div 2 \<noteq> 0" using tm' tmb(1) by auto
    show ?thesis
    proof (cases "num_items C - tm < ip")
      case lt: True
      then have u: "usub ip (num_items C - fr div 2 + 1) = ip - (num_items C - fr div 2 + 1)"
        unfolding t(1) by simp
      show ?thesis
        unfolding t(1)
        using pos False lt [unfolded t(1)]
        by (simp only: RebalanceChild_right_def Let_def P ch R C fr(1,2) t(2,3) u
            res(1) [unfolded t(1)] d' [unfolded t(1)] res(7) [unfolded t(1)]
            Option.bind.simps simp_thms if_True if_False)
    next
      case ge: False
      show ?thesis
        unfolding t(1)
        using pos False ge [unfolded t(1)]
        by (simp only: RebalanceChild_right_def Let_def P ch R C fr(1,2) t(2,3)
            res(1) [unfolded t(1)] d' [unfolded t(1)] res(7) [unfolded t(1)]
            Option.bind.simps simp_thms if_True if_False)
    qed
  qed
  show ?thesis
    using run res(2-9) tmb by blast
qed

text \<open>
  C2 says that the null node is returned only if no adjacent sibling has a free slot. The
  source moves \<open>dest_free / 2\<close> items when the pending insert is not at the far end,
  and only under the guard \<open>dest_free > 1\<close>: a sibling with exactly one free slot is
  passed over. With a left sibling holding two of three keys, a full child, no right
  sibling and an insert at position 1, nothing moves and the null node is returned,
  although the left sibling has a free slot.
\<close>

theorem C2_counterexample:
  "RebalanceChild cfg64
      [1 \<mapsto> inner_node [40] [2, 3], 2 \<mapsto> leaf_node [10, 20], 3 \<mapsto> leaf_node [50, 60, 70]] 1 1 1
     = Some ([1 \<mapsto> inner_node [40] [2, 3], 2 \<mapsto> leaf_node [10, 20], 3 \<mapsto> leaf_node [50, 60, 70]],
             nullptr, 0)
   \<and> child_slots (inner_node [40] [2, 3]) 1 = 3
   \<and> num_items (leaf_node [50, 60, 70]) = MaxItems cfg64 (leaf_node [50, 60, 70])
   \<and> child_slots (inner_node [40] [2, 3]) (1 - 1) = 2
   \<and> AvailableSlotCount cfg64 (leaf_node [10, 20]) = 1"
proof -
  let ?P = "inner_node [40] [2, 3]"
  let ?h = "[1 \<mapsto> ?P, 2 \<mapsto> leaf_node [10, 20], 3 \<mapsto> leaf_node [50, 60, 70]]"
  have d: "deref ?h 1 = Some ?P" "deref ?h 3 = Some (leaf_node [50, 60, 70])"
    by (simp_all add: deref_def nullptr_def)
  have P: "\<not> leaf ?P" "num_items ?P \<le> kMaxInnerKeys cfg64" "1 \<le> num_items ?P"
      "child_slots ?P 1 = 3"
    by (simp_all add: slots_def)
  have skip: "RebalanceChild cfg64 ?h 1 1 1 = RebalanceChild_right cfg64 ?h 1 1 1 3"
    by (rule RebalanceChild_skip_left [OF d(1) P d(2), where L = "leaf_node [10, 20]"])
       (simp add: slots_def deref_def nullptr_def MaxItems_def)
  have fail: "RebalanceChild_right cfg64 ?h 1 1 1 3 = Some (?h, nullptr, 0)"
    by (rule RebalanceChild_right_fail [OF d(1) P(1,2,3) d(2)]) simp
  show ?thesis
    using skip fail by (simp add: slots_def MaxItems_def AvailableSlotCount_def)
qed

text \<open>
  C2 as amended. On an inner node with a full child at \<open>pos\<close> whose existing siblings
  are distinct non-empty nodes of its kind within capacity, \<open>RebalanceChild\<close> always
  returns. The left sibling is used when it exists, has a free slot, and either the
  insert is at the end of the child or the sibling has at least two free slots; otherwise
  the right sibling is used when it exists, has a free slot, and either the insert is at
  position 0 or it has at least two free slots. The null node is returned exactly when
  neither holds, and then the heap is unchanged. The sibling used gains, and the child
  loses, \<open>to_move \<ge> 1\<close> items: all the free slots of the sibling when the insert
  is at the far end of the child, half of them (rounded down) otherwise. The items move
  through the parent: to the left, the old separator and the first \<open>to_move - 1\<close>
  keys of the child are appended to the sibling, key \<open>to_move - 1\<close> of the child is
  the new separator and the first \<open>to_move\<close> children follow; to the right, the last
  \<open>to_move - 1\<close> keys of the child and the old separator are put in front of the
  sibling, the key before them is the new separator and the last \<open>to_move\<close> children
  follow. Only the sibling used, the child and that separator slot of the parent change.
\<close>

theorem C2_RebalanceChild_outcome:
  assumes P: "deref h this = Some P" and inner: "\<not> leaf P"
    and pcap: "num_items P \<le> kMaxInnerKeys cfg" and pos: "pos \<le> num_items P"
    and c: "child_slots P pos = c" and C: "deref h c = Some C" and tc: "this \<noteq> c"
    and full: "num_items C = MaxItems cfg C"
    and left: "0 < pos \<Longrightarrow> child_slots P (pos - 1) = l \<and> deref h l = Some L
        \<and> this \<noteq> l \<and> l \<noteq> c \<and> leaf L = leaf C
        \<and> 1 \<le> num_items L \<and> num_items L \<le> MaxItems cfg L"
    and right: "pos < num_items P \<Longrightarrow> child_slots P (pos + 1) = r \<and> deref h r = Some R
        \<and> this \<noteq> r \<and> r \<noteq> c \<and> leaf R = leaf C
        \<and> 1 \<le> num_items R \<and> num_items R \<le> MaxItems cfg R"
    and valid: "layout_valid cfg"
    and left_ok: "left_ok \<longleftrightarrow> 0 < pos \<and> num_items L < MaxItems cfg L
        \<and> (ip = num_items C \<or> num_items L + 1 < MaxItems cfg L)"
    and right_ok: "right_ok \<longleftrightarrow> pos < num_items P \<and> num_items R < MaxItems cfg R
        \<and> (ip = 0 \<or> num_items R + 1 < MaxItems cfg R)"
    and to_left: "to_left = (if ip = num_items C then MaxItems cfg L - num_items L
                  else (MaxItems cfg L - num_items L) div 2)"
    and to_right: "to_right = (if ip = 0 then MaxItems cfg R - num_items R
                  else (MaxItems cfg R - num_items R) div 2)"
  shows "\<exists>h' node' ip'. RebalanceChild cfg h this pos ip = Some (h', node', ip')
      \<and> (node' = nullptr \<longleftrightarrow> \<not> left_ok \<and> \<not> right_ok)
      \<and> (node' = nullptr \<longrightarrow> h' = h)
      \<and> (left_ok \<longrightarrow> 1 \<le> to_left \<and> to_left < num_items C
            \<and> (\<exists>L' C'. deref h' l = Some L' \<and> deref h' c = Some C'
              \<and> num_items L' = num_items L + to_left \<and> num_items C' = num_items C - to_left
              \<and> h' = h(l \<mapsto> L',
                       this \<mapsto> P\<lparr>key_slots := (key_slots P)(pos - 1 := key_slots C (to_left - 1))\<rparr>,
                       c \<mapsto> C')
              \<and> keys_of L' = keys_of L @ key_slots P (pos - 1) # take (to_left - 1) (keys_of C)
              \<and> keys_of C' = drop to_left (keys_of C)
              \<and> children_of L' = children_of L @ take to_left (children_of C)
              \<and> children_of C' = drop to_left (children_of C)
              \<and> leaf L' = leaf L \<and> leaf C' = leaf C))
      \<and> (\<not> left_ok \<and> right_ok \<longrightarrow> 1 \<le> to_right \<and> to_right < num_items C
            \<and> (\<exists>R' C'. deref h' r = Some R' \<and> deref h' c = Some C'
              \<and> num_items R' = num_items R + to_right \<and> num_items C' = num_items C - to_right
              \<and> h' = h(r \<mapsto> R',
                       this \<mapsto> P\<lparr>key_slots := (key_slots P)(pos := key_slots C (num_items C - to_right))\<rparr>,
                       c \<mapsto> C')
              \<and> keys_of R' = drop (num_items C - to_right + 1) (keys_of C) @ key_slots P pos # keys_of R
              \<and> keys_of C' = take (num_items C - to_right) (keys_of C)
              \<and> children_of R' = drop (num_items C - to_right + 1) (children_of C) @ children_of R
              \<and> children_of C' = take (num_items C - to_right + 1) (children_of C)
              \<and> leaf R' = leaf R \<and> leaf C' = leaf C))"
proof (cases left_ok)
  case True
  then have p: "0 < pos" and ok: "num_items L < MaxItems cfg L"
      "ip = num_items C \<or> num_items L + 1 < MaxItems cfg L"
    using left_ok by auto
  note l = left [OF p]
  have nn: "l \<noteq> nullptr" "c \<noteq> nullptr" "this \<noteq> nullptr"
    using l C P by (auto dest: deref_nonnull)
  from RebalanceChild_left [OF P inner pcap p pos c _ C _ _ tc _ _ full _ ok valid to_left, of l] l
  obtain L' C' where "RebalanceChild cfg h this pos ip =
        Some (h(l \<mapsto> L',
                this \<mapsto> P\<lparr>key_slots := (key_slots P)(pos - 1 := key_slots C (to_left - 1))\<rparr>,
                c \<mapsto> C'),
              if ip < to_left then l else c,
              if ip < to_left then num_items L + ip + 1 else ip - to_left)"
      "1 \<le> to_left" "to_left < num_items C"
      "num_items L' = num_items L + to_left" "num_items C' = num_items C - to_left"
      "keys_of L' = keys_of L @ key_slots P (pos - 1) # take (to_left - 1) (keys_of C)"
      "keys_of C' = drop to_left (keys_of C)"
      "children_of L' = children_of L @ take to_left (children_of C)"
      "children_of C' = drop to_left (children_of C)"
      "leaf L' = leaf L" "leaf C' = leaf C"
    by blast
  note res = this
  define h' where "h' = h(l \<mapsto> L',
                this \<mapsto> P\<lparr>key_slots := (key_slots P)(pos - 1 := key_slots C (to_left - 1))\<rparr>,
                c \<mapsto> C')"
  have d: "deref h' l = Some L'" "deref h' c = Some C'"
    using nn l tc by (simp_all add: h'_def)
  have n0: "(if ip < to_left then l else c) \<noteq> nullptr"
    using nn by simp
  have run: "RebalanceChild cfg h this pos ip =
      Some (h', if ip < to_left then l else c,
            if ip < to_left then num_items L + ip + 1 else ip - to_left)"
    using res(1) by (simp only: h'_def)
  have mv: "\<exists>L' C'. deref h' l = Some L' \<and> deref h' c = Some C'
              \<and> num_items L' = num_items L + to_left \<and> num_items C' = num_items C - to_left
              \<and> h' = h(l \<mapsto> L',
                       this \<mapsto> P\<lparr>key_slots := (key_slots P)(pos - 1 := key_slots C (to_left - 1))\<rparr>,
                       c \<mapsto> C')
              \<and> keys_of L' = keys_of L @ key_slots P (pos - 1) # take (to_left - 1) (keys_of C)
              \<and> keys_of C' = drop to_left (keys_of C)
              \<and> children_of L' = children_of L @ take to_left (children_of C)
              \<and> children_of C' = drop to_left (children_of C)
              \<and> leaf L' = leaf L \<and> leaf C' = leaf C"
    using d res(4-11) h'_def by (intro exI [of _ L'] exI [of _ C']) (simp only: simp_thms)
  show ?thesis
    using True run n0 res(2,3) mv
    by (intro exI [of _ h'] exI [of _ "if ip < to_left then l else c"]
          exI [of _ "if ip < to_left then num_items L + ip + 1 else ip - to_left"])
       (simp only: simp_thms)
next
  case False
  have sk: "RebalanceChild cfg h this pos ip = RebalanceChild_right cfg h this pos ip c"
    using False left left_ok
    by (intro RebalanceChild_skip_left [OF P inner pcap pos c C, where L = L]) auto
  show ?thesis
  proof (cases right_ok)
    case True
    then have p: "pos < num_items P" and ok: "num_items R < MaxItems cfg R"
        "ip = 0 \<or> num_items R + 1 < MaxItems cfg R"
      using right_ok by auto
    note r = right [OF p]
    have nn: "r \<noteq> nullptr" "c \<noteq> nullptr" "this \<noteq> nullptr"
      using r C P by (auto dest: deref_nonnull)
    from RebalanceChild_right_ok [OF P inner pcap p c _ C _ _ tc _ _ full _ ok valid to_right, of r] r
    obtain R' C' where "RebalanceChild_right cfg h this pos ip c =
        Some (h(r \<mapsto> R',
                this \<mapsto> P\<lparr>key_slots := (key_slots P)(pos := key_slots C (num_items C - to_right))\<rparr>,
                c \<mapsto> C'),
              if num_items C - to_right < ip then r else c,
              if num_items C - to_right < ip then ip - (num_items C - to_right + 1) else ip)"
      "1 \<le> to_right" "to_right < num_items C"
      "num_items R' = num_items R + to_right" "num_items C' = num_items C - to_right"
      "keys_of R' = drop (num_items C - to_right + 1) (keys_of C) @ key_slots P pos # keys_of R"
      "keys_of C' = take (num_items C - to_right) (keys_of C)"
      "children_of R' = drop (num_items C - to_right + 1) (children_of C) @ children_of R"
      "children_of C' = take (num_items C - to_right + 1) (children_of C)"
      "leaf R' = leaf R" "leaf C' = leaf C"
      by blast
    note res = this
    define h' where "h' = h(r \<mapsto> R',
                this \<mapsto> P\<lparr>key_slots := (key_slots P)(pos := key_slots C (num_items C - to_right))\<rparr>,
                c \<mapsto> C')"
    have d: "deref h' r = Some R'" "deref h' c = Some C'"
      using nn r tc by (simp_all add: h'_def)
    have n0: "(if num_items C - to_right < ip then r else c) \<noteq> nullptr"
      using nn by simp
    have run: "RebalanceChild cfg h this pos ip =
        Some (h', if num_items C - to_right < ip then r else c,
              if num_items C - to_right < ip then ip - (num_items C - to_right + 1) else ip)"
      using res(1) by (simp only: h'_def sk)
    have mv: "\<exists>R' C'. deref h' r = Some R' \<and> deref h' c = Some C'
              \<and> num_items R' = num_items R + to_right \<and> num_items C' = num_items C - to_right
              \<and> h' = h(r \<mapsto> R',
                       this \<mapsto> P\<lparr>key_slots := (key_slots P)(pos := key_slots C (num_items C - to_right))\<rparr>,
                       c \<mapsto> C')
              \<and> keys_of R' = drop (num_items C - to_right + 1) (keys_of C) @ key_slots P pos # keys_of R
              \<and> keys_of C' = take (num_items C - to_right) (keys_of C)
              \<and> children_of R' = drop (num_items C - to_right + 1) (children_of C) @ children_of R
              \<and> children_of C' = take (num_items C - to_right + 1) (children_of C)
              \<and> leaf R' = leaf R \<and> leaf C' = leaf C"
      using d res(4-11) h'_def by (intro exI [of _ R'] exI [of _ C']) (simp only: simp_thms)
    show ?thesis
      using True False run n0 res(2,3) mv
      by (intro exI [of _ h'] exI [of _ "if num_items C - to_right < ip then r else c"]
          exI [of _ "if num_items C - to_right < ip then ip - (num_items C - to_right + 1) else ip"])
         (simp only: simp_thms)
  next
    case nr: False
    have "RebalanceChild_right cfg h this pos ip c = Some (h, nullptr, 0)"
      using nr right right_ok
      by (intro RebalanceChild_right_fail [OF P inner pcap pos C, where R = R]) auto
    with sk False nr show ?thesis by simp
  qed
qed


theorem C2_witness:
  "\<exists>h' node' ip'. RebalanceChild cfg64
        [1 \<mapsto> inner_node [40, 80] [2, 3, 4], 2 \<mapsto> leaf_node [10],
         3 \<mapsto> leaf_node [50, 60, 70], 4 \<mapsto> leaf_node [90, 100, 110]] 1 1 1
          = Some (h', node', ip')
      \<and> node' \<noteq> nullptr
      \<and> (\<exists>L' C' P'. deref h' 2 = Some L' \<and> deref h' 3 = Some C' \<and> deref h' 1 = Some P'
              \<and> num_items L' = 2 \<and> num_items C' = 2
              \<and> keys_of L' = [10, 40] \<and> key_slots P' 0 = 50 \<and> keys_of C' = [60, 70])"
proof -
  let ?P = "inner_node [40, 80] [2, 3, 4]"
  let ?L = "leaf_node [10]"
  let ?C = "leaf_node [50, 60, 70]"
  let ?R = "leaf_node [90, 100, 110]"
  let ?h = "[1 \<mapsto> ?P, 2 \<mapsto> ?L, 3 \<mapsto> ?C, 4 \<mapsto> ?R]"
  let ?P' = "?P\<lparr>key_slots := (key_slots ?P)(1 - 1 := key_slots ?C (1 - 1))\<rparr>"
  have d: "deref ?h 1 = Some ?P" "deref ?h 3 = Some ?C"
    by (simp_all add: deref_def nullptr_def)
  have P: "\<not> leaf ?P" "num_items ?P \<le> kMaxInnerKeys cfg64" "1 \<le> num_items ?P"
      "child_slots ?P 1 = 3"
    by (simp_all add: slots_def)
  have ne: "(1::nat) \<noteq> 3" and full: "num_items ?C = MaxItems cfg64 ?C"
    by (simp_all add: MaxItems_def)
  have left: "child_slots ?P (1 - 1) = 2 \<and> deref ?h 2 = Some ?L
        \<and> (1::nat) \<noteq> 2 \<and> (2::nat) \<noteq> 3 \<and> leaf ?L = leaf ?C
        \<and> 1 \<le> num_items ?L \<and> num_items ?L \<le> MaxItems cfg64 ?L"
    by (simp add: slots_def deref_def nullptr_def MaxItems_def)
  have right: "child_slots ?P (1 + 1) = 4 \<and> deref ?h 4 = Some ?R
        \<and> (1::nat) \<noteq> 4 \<and> (4::nat) \<noteq> 3 \<and> leaf ?R = leaf ?C
        \<and> 1 \<le> num_items ?R \<and> num_items ?R \<le> MaxItems cfg64 ?R"
    by (simp add: slots_def deref_def nullptr_def MaxItems_def)
  have valid: "layout_valid cfg64"
    by (simp add: layout_valid_def)
  have lo: "True \<longleftrightarrow> 0 < (1::nat) \<and> num_items ?L < MaxItems cfg64 ?L
        \<and> (1 = num_items ?C \<or> num_items ?L + 1 < MaxItems cfg64 ?L)"
    and ro: "False \<longleftrightarrow> 1 < num_items ?P \<and> num_items ?R < MaxItems cfg64 ?R
        \<and> ((1::nat) = 0 \<or> num_items ?R + 1 < MaxItems cfg64 ?R)"
    and tl: "1 = (if 1 = num_items ?C then MaxItems cfg64 ?L - num_items ?L
                  else (MaxItems cfg64 ?L - num_items ?L) div 2)"
    and tr: "0 = (if (1::nat) = 0 then MaxItems cfg64 ?R - num_items ?R
                  else (MaxItems cfg64 ?R - num_items ?R) div 2)"
    by (simp_all add: MaxItems_def)
  from C2_RebalanceChild_outcome [OF d(1) P d(2) ne full left right valid lo ro tl tr]
  obtain h' node' ip' where r:
      "RebalanceChild cfg64 ?h 1 1 1 = Some (h', node', ip')"
      "(node' = nullptr) = (\<not> True \<and> \<not> False)"
      "True \<longrightarrow> (1::nat) \<le> 1 \<and> 1 < num_items ?C
        \<and> (\<exists>L' C'. deref h' 2 = Some L' \<and> deref h' 3 = Some C'
              \<and> num_items L' = num_items ?L + 1 \<and> num_items C' = num_items ?C - 1
              \<and> h' = ?h(2 \<mapsto> L', 1 \<mapsto> ?P', 3 \<mapsto> C')
              \<and> keys_of L' = keys_of ?L @ key_slots ?P (1 - 1) # take (1 - 1) (keys_of ?C)
              \<and> keys_of C' = drop 1 (keys_of ?C)
              \<and> children_of L' = children_of ?L @ take 1 (children_of ?C)
              \<and> children_of C' = drop 1 (children_of ?C)
              \<and> leaf L' = leaf ?L \<and> leaf C' = leaf ?C)"
    by (elim exE conjE)
  from r(3) obtain L' C' where m: "deref h' 2 = Some L'" "deref h' 3 = Some C'"
      "num_items L' = num_items ?L + 1" "num_items C' = num_items ?C - 1"
      "h' = ?h(2 \<mapsto> L', 1 \<mapsto> ?P', 3 \<mapsto> C')"
      "keys_of L' = keys_of ?L @ key_slots ?P (1 - 1) # take (1 - 1) (keys_of ?C)"
      "keys_of C' = drop 1 (keys_of ?C)"
    by (elim impE exE conjE) (rule TrueI)
  have p: "deref h' 1 = Some ?P'"
    by (simp add: m(5) deref_def nullptr_def)
  have n: "node' \<noteq> nullptr"
    using r(2) by simp
  have k: "num_items L' = 2" "num_items C' = 2" "keys_of L' = [10, 40]" "keys_of C' = [60, 70]"
      "key_slots ?P' 0 = 50"
    using m(3,4,6,7) by (simp_all add: slots_def)
  show ?thesis
    using r(1) n m(1,2) p k by blast
qed

section \<open>Insertion into a slot\<close>

text \<open>
  \<open>InsertItem\<close> on a node with a free slot, at an index where the new key respects
  the order of its neighbours (what its assertions check).
\<close>

lemma ShiftRight_eq:
  assumes N: "deref h q = Some N" and idx: "idx \<le> num_items N"
    and room: "num_items N < MaxItems cfg N" and valid: "layout_valid cfg"
  shows "ShiftRight cfg h q idx =
     Some (h(q \<mapsto> N\<lparr>
        key_slots := (\<lambda>j. if idx < j \<and> j \<le> num_items N then key_slots N (j - 1) else key_slots N j),
        child_slots := (\<lambda>j. if \<not> leaf N \<and> idx < num_items N \<and> idx < j \<and> j \<le> num_items N + 1
                          then child_slots N (j - 1) else child_slots N j),
        num_items := num_items N + 1\<rparr>))"
proof -
  have nn: "q \<noteq> nullptr" using N by (rule deref_nonnull)
  have lt: "num_items N + 1 < 128"
    using room MaxItems_lt_128 [OF valid, of N] by simp
  show ?thesis
  proof (cases "idx = num_items N")
    case True
    then show ?thesis
      using N lt nn
      by (auto simp: ShiftRight_def set_num_items_def fun_eq_iff
            intro!: heap_upd_cong BPTreeNode.equality)
  next
    case False
    with idx have i: "idx < num_items N" by simp
    show ?thesis
    proof (cases "leaf N")
      case True
      then show ?thesis
        using N lt nn i room
        by (auto simp: ShiftRight_def set_num_items_def memmove_keys_def fun_eq_iff
              intro!: heap_upd_cong BPTreeNode.equality)
    next
      case False
      then have "num_items N < kMaxInnerKeys cfg"
        using room by (simp add: MaxItems_def)
      with False show ?thesis
        using N lt nn i room
        by (auto simp: ShiftRight_def set_num_items_def memmove_keys_def memmove_children_def
              fun_eq_iff intro!: heap_upd_cong BPTreeNode.equality)
    qed
  qed
qed


lemma InsertItem_spec:
  fixes x :: "'k::ord"
  assumes N: "deref h q = Some N" and idx: "idx \<le> num_items N"
    and room: "num_items N < MaxItems cfg N" and valid: "layout_valid cfg"
    and ord: "NDEBUG cfg \<or> ((idx = 0 \<or> key_slots N (idx - 1) < x)
                \<and> (idx = num_items N \<or> x < key_slots N idx))"
  shows "\<exists>N'. InsertItem cfg h q idx x = Some (h(q \<mapsto> N'))
      \<and> keys_of N' = take idx (keys_of N) @ x # drop idx (keys_of N)
      \<and> num_items N' = num_items N + 1 \<and> leaf N' = leaf N
      \<and> (\<forall>j\<le>idx. child_slots N' j = child_slots N j)
      \<and> (\<not> leaf N \<longrightarrow>
            (\<forall>j. idx < j \<and> j \<le> num_items N \<longrightarrow> child_slots N' (j + 1) = child_slots N j))"
proof -
  let ?N1 = "N\<lparr>
        key_slots := (\<lambda>j. if idx < j \<and> j \<le> num_items N then key_slots N (j - 1) else key_slots N j),
        child_slots := (\<lambda>j. if \<not> leaf N \<and> idx < num_items N \<and> idx < j \<and> j \<le> num_items N + 1
                          then child_slots N (j - 1) else child_slots N j),
        num_items := num_items N + 1\<rparr>"
  let ?N' = "?N1\<lparr>key_slots := (key_slots ?N1)(idx := x)\<rparr>"
  have nn: "q \<noteq> nullptr" using N by (rule deref_nonnull)
  have sr: "ShiftRight cfg h q idx = Some (h(q \<mapsto> ?N1))"
    by (rule ShiftRight_eq [OF N idx room valid])
  have d1: "deref (h(q \<mapsto> ?N1)) q = Some ?N1"
    using nn by simp
  have sk: "SetKey cfg (h(q \<mapsto> ?N1)) q idx x = Some (h(q \<mapsto> ?N'))"
    using idx room by (subst SetKey_eq [OF d1]) (simp_all add: MaxItems_def)
  have a1: "(if NDEBUG cfg \<or> idx = 0 then Some ()
           else do { k \<leftarrow> Key cfg h q (usub idx 1); cassert cfg (k < x) }) = Some ()"
  proof (cases "NDEBUG cfg \<or> idx = 0")
    case True
    then show ?thesis by simp
  next
    case False
    then have "Key cfg h q (usub idx 1) = Some (key_slots N (idx - 1))" "key_slots N (idx - 1) < x"
      using N idx room ord by (simp_all add: Key_eq)
    with False show ?thesis by simp
  qed
  have a2: "(if NDEBUG cfg \<or> idx = num_items N then Some ()
           else do { k \<leftarrow> Key cfg h q idx; cassert cfg (k > x) }) = Some ()"
  proof (cases "NDEBUG cfg \<or> idx = num_items N")
    case True
    then show ?thesis by simp
  next
    case False
    then have "Key cfg h q idx = Some (key_slots N idx)" "x < key_slots N idx"
      using N idx room ord by (simp_all add: Key_eq)
    with False show ?thesis by simp
  qed
  have a0: "cassert cfg (idx \<le> num_items N) = Some ()"
    using idx by simp
  have run: "InsertItem cfg h q idx x = Some (h(q \<mapsto> ?N'))"
    by (simp only: InsertItem_def N a0 a1 a2 sr sk Option.bind.simps)
  have k: "keys_of ?N' = take idx (keys_of N) @ x # drop idx (keys_of N)"
    using idx by (intro nth_equalityI) (auto simp: keys_of_nth nth_append nth_Cons')
  show ?thesis
    using run k by (intro exI [of _ ?N']) auto
qed

lemma LeafInsert_spec:
  fixes x :: "'k::ord"
  assumes N: "deref h q = Some N" and lf: "leaf N" and idx: "idx \<le> num_items N"
    and room: "num_items N < MaxItems cfg N" and valid: "layout_valid cfg"
    and ord: "NDEBUG cfg \<or> ((idx = 0 \<or> key_slots N (idx - 1) < x)
                \<and> (idx = num_items N \<or> x < key_slots N idx))"
  shows "\<exists>N'. LeafInsert cfg h q idx x = Some (h(q \<mapsto> N'))
      \<and> keys_of N' = take idx (keys_of N) @ x # drop idx (keys_of N)
      \<and> children_of N' = []
      \<and> num_items N' = num_items N + 1 \<and> leaf N'"
proof -
  from InsertItem_spec [OF N idx room valid ord]
  obtain N' where r: "InsertItem cfg h q idx x = Some (h(q \<mapsto> N'))"
      "keys_of N' = take idx (keys_of N) @ x # drop idx (keys_of N)"
      "num_items N' = num_items N + 1" "leaf N' = leaf N"
    by blast
  have "LeafInsert cfg h q idx x = Some (h(q \<mapsto> N'))"
    using N lf room r(1) by (simp add: LeafInsert_def)
  with r lf show ?thesis
    by (intro exI [of _ N']) (simp add: children_of_def)
qed

lemma InnerInsert_spec:
  fixes x :: "'k::ord"
  assumes N: "deref h q = Some N" and inner: "\<not> leaf N" and idx: "idx \<le> num_items N"
    and room: "num_items N < MaxItems cfg N" and valid: "layout_valid cfg"
    and ord: "NDEBUG cfg \<or> ((idx = 0 \<or> key_slots N (idx - 1) < x)
                \<and> (idx = num_items N \<or> x < key_slots N idx))"
  shows "\<exists>N'. InnerInsert cfg h q idx x g = Some (h(q \<mapsto> N'))
      \<and> keys_of N' = take idx (keys_of N) @ x # drop idx (keys_of N)
      \<and> children_of N' = take (idx + 1) (children_of N) @ g # drop (idx + 1) (children_of N)
      \<and> num_items N' = num_items N + 1 \<and> \<not> leaf N'"
proof -
  from InsertItem_spec [OF N idx room valid ord]
  obtain N1 where r: "InsertItem cfg h q idx x = Some (h(q \<mapsto> N1))"
      "keys_of N1 = take idx (keys_of N) @ x # drop idx (keys_of N)"
      "num_items N1 = num_items N + 1" "leaf N1 = leaf N"
      "\<forall>j\<le>idx. child_slots N1 j = child_slots N j"
      "\<forall>j. idx < j \<and> j \<le> num_items N \<longrightarrow> child_slots N1 (j + 1) = child_slots N j"
    using inner by blast
  let ?N' = "N1\<lparr>child_slots := (child_slots N1)(idx + 1 := g)\<rparr>"
  have nn: "q \<noteq> nullptr" using N by (rule deref_nonnull)
  have d1: "deref (h(q \<mapsto> N1)) q = Some N1"
    using nn by simp
  have cap: "idx + 1 \<le> kMaxInnerKeys cfg"
    using idx room inner by (simp add: MaxItems_def)
  have sc: "SetChild cfg (h(q \<mapsto> N1)) q (idx + 1) g = Some (h(q \<mapsto> ?N'))"
    using inner r(4) cap by (subst SetChild_eq [OF d1]) simp_all
  have run: "InnerInsert cfg h q idx x g = Some (h(q \<mapsto> ?N'))"
    by (simp only: InnerInsert_def r(1) sc Option.bind.simps)
  have k: "keys_of ?N' = keys_of N1"
    by (simp add: keys_of_def)
  have i1: "\<not> leaf ?N'" using inner r(4) by simp
  have c: "children_of ?N' = take (idx + 1) (children_of N) @ g # drop (idx + 1) (children_of N)"
  proof (intro nth_equalityI allI impI)
    show "length (children_of ?N') = length (take (idx + 1) (children_of N) @ g # drop (idx + 1) (children_of N))"
      using idx inner i1 r(3) by simp
  next
    fix j assume "j < length (children_of ?N')"
    then have j: "j \<le> num_items N + 1" using i1 r(3) by simp
    consider "j \<le> idx" | "j = idx + 1" | "idx + 1 < j" by linarith
    then show "children_of ?N' ! j = (take (idx + 1) (children_of N) @ g # drop (idx + 1) (children_of N)) ! j"
    proof cases
      case 1
      then show ?thesis
        using idx inner i1 r(3,5) j by (simp add: children_of_nth nth_append)
    next
      case 2
      then show ?thesis
        using idx inner i1 r(3) j by (simp add: children_of_nth nth_append)
    next
      case 3
      then obtain j' where j': "j = j' + 1" "idx < j'" "j' \<le> num_items N"
        using j by (cases j) auto
      have len: "length (take (idx + 1) (children_of N)) = idx + 1"
        using idx inner by simp
      have "(take (idx + 1) (children_of N) @ g # drop (idx + 1) (children_of N)) ! j
          = (g # drop (idx + 1) (children_of N)) ! (j - (idx + 1))"
        using 3 len by (simp add: nth_append)
      also have "j - (idx + 1) = Suc (j' - (idx + 1))"
        using j' by simp
      also have "(g # drop (idx + 1) (children_of N)) ! Suc (j' - (idx + 1)) = children_of N ! j'"
        using j' inner by simp
      also have "\<dots> = child_slots N j'"
        using j' inner by (simp add: children_of_nth)
      finally have rhs: "(take (idx + 1) (children_of N) @ g # drop (idx + 1) (children_of N)) ! j
          = child_slots N j'" .
      have "children_of ?N' ! j = child_slots ?N' j"
        using i1 j r(3) by (simp add: children_of_nth)
      also have "\<dots> = child_slots N1 (j' + 1)"
        using j' by simp
      also have "\<dots> = child_slots N j'"
        using r(6) j' by simp
      finally show ?thesis using rhs by simp
    qed
  qed
  show ?thesis
    using run k c r(2,3) i1 by (intro exI [of _ ?N']) simp
qed

section \<open>MergeOrRebalanceChild\<close>

lemma MinItems_eq: "MinItems cfg n = MaxItems cfg n div 2"
proof -
  have "kMaxLeafKeys cfg < 65536" "kMaxInnerKeys cfg < 65536"
    by (simp_all add: kMaxLeafKeys_def kMaxInnerKeys_def uint16_def)
  then show ?thesis
    by (simp add: MinItems_def MaxItems_def kMinLeafKeys_def kMinInnerKeys_def uint16_def)
qed

text \<open>
  The size of the transfer in \<open>MergeOrRebalanceChild\<close>: the deficient node holds
  fewer than \<open>max div 2\<close> items and the merge with the sibling does not fit.
\<close>

lemma to_move_bounds:
  assumes "c < m div 2" and "s \<le> m" and "\<not> s + 1 + c \<le> m"
  shows "usub s c div 2 = (s - c) div 2" and "1 \<le> (s - c) div 2" and "(s - c) div 2 < s"
    and "(s - c) div 2 \<le> s" and "c + (s - c) div 2 \<le> m" and "c \<le> s"
proof -
  have cs: "c \<le> s" "2 \<le> s - c"
    using assms by linarith+
  show "usub s c div 2 = (s - c) div 2"
    using cs by simp
  show "1 \<le> (s - c) div 2" "(s - c) div 2 < s" "(s - c) div 2 \<le> s" "c + (s - c) div 2 \<le> m" "c \<le> s"
    using assms cs by linarith+
qed

lemma MergeFromRight_spec:
  assumes "deref h this = Some n" and "deref h right = Some r"
    and "this \<noteq> right" and "leaf r = leaf n"
    and "num_items n + 1 + num_items r \<le> MaxItems cfg n"
    and "layout_valid cfg"
  shows "\<exists>n'. MergeFromRight cfg h this key right
          = Some (h(this \<mapsto> n', right \<mapsto> r\<lparr>num_items := 0\<rparr>))
      \<and> keys_of n' = keys_of n @ key # keys_of r
      \<and> children_of n' = children_of n @ children_of r
      \<and> num_items n' = num_items n + 1 + num_items r
      \<and> leaf n' = leaf n"
proof -
  let ?n' = "n\<lparr>
        key_slots := (\<lambda>j. if j = num_items n then key
                           else if num_items n < j \<and> j < num_items n + 1 + num_items r
                           then key_slots r (j - (num_items n + 1)) else key_slots n j),
        child_slots := (\<lambda>j. if \<not> leaf n \<and> num_items n < j \<and> j < num_items n + 2 + num_items r
                           then child_slots r (j - (num_items n + 1)) else child_slots n j),
        num_items := num_items n + 1 + num_items r\<rparr>"
  have k: "keys_of ?n' = keys_of n @ key # keys_of r"
    by (rule nth_equalityI) (auto simp: keys_of_nth nth_append nth_Cons')
  have c: "children_of ?n' = children_of n @ children_of r"
  proof (cases "leaf n")
    case True
    then show ?thesis using assms(4) by (simp add: children_of_def)
  next
    case False
    then have "\<not> leaf r" using assms(4) by simp
    with False show ?thesis
      by (intro nth_equalityI) (auto simp: children_of_nth nth_append)
  qed
  show ?thesis
    using MergeFromRight_eq [OF assms, of key] k c
    by (intro exI [of _ ?n']) simp
qed


text \<open>The four ways through \<open>MergeOrRebalanceChild\<close>.\<close>

lemma MergeOrRebalanceChild_merge_left:
  assumes P: "deref h this = Some P" and inner: "\<not> leaf P"
    and pcap: "num_items P \<le> kMaxInnerKeys cfg" and pos: "0 < pos" "pos \<le> num_items P"
    and c: "child_slots P pos = c" and l: "child_slots P (pos - 1) = l"
    and C: "deref h c = Some C" and L: "deref h l = Some L"
    and dist: "this \<noteq> l" "this \<noteq> c" "l \<noteq> c"
    and kind: "leaf C = leaf L"
    and deficient: "NDEBUG cfg \<or> num_items C < MinItems cfg C"
    and absorb: "num_items L + 1 + num_items C \<le> MaxItems cfg L"
    and valid: "layout_valid cfg"
  shows "\<exists>L' P'. MergeOrRebalanceChild cfg h this pos
          = Some (h(l \<mapsto> L', c \<mapsto> C\<lparr>num_items := 0\<rparr>, this \<mapsto> P'), c)
      \<and> keys_of L' = keys_of L @ key_slots P (pos - 1) # keys_of C
      \<and> children_of L' = children_of L @ children_of C
      \<and> num_items L' = num_items L + 1 + num_items C \<and> leaf L' = leaf L
      \<and> \<not> leaf P' \<and> num_items P' = num_items P - 1
      \<and> keys_of P' = take (pos - 1) (keys_of P) @ drop pos (keys_of P)
      \<and> children_of P' = take pos (children_of P) @ drop (Suc pos) (children_of P)"
proof -
  have nn: "this \<noteq> nullptr" "l \<noteq> nullptr" "c \<noteq> nullptr"
    using P C L by (auto dest: deref_nonnull)
  have ch: "Child cfg h this pos = Some c" "Child cfg h this (pos - 1) = Some l"
    using P inner pcap pos c l by (simp_all add: Child_eq)
  have key: "Key cfg h this (pos - 1) = Some (key_slots P (pos - 1))"
    using P inner pcap pos by (simp add: Key_eq MaxItems_def)
  from MergeFromRight_spec [OF L C dist(3) kind absorb valid, of "key_slots P (pos - 1)"]
  obtain L' where mf: "MergeFromRight cfg h l (key_slots P (pos - 1)) c
        = Some (h(l \<mapsto> L', c \<mapsto> C\<lparr>num_items := 0\<rparr>))"
      "keys_of L' = keys_of L @ key_slots P (pos - 1) # keys_of C"
      "children_of L' = children_of L @ children_of C"
      "num_items L' = num_items L + 1 + num_items C" "leaf L' = leaf L"
    by blast
  define h1 where "h1 = h(l \<mapsto> L', c \<mapsto> C\<lparr>num_items := 0\<rparr>)"
  have P1: "deref h1 this = Some P"
    using P nn dist by (simp add: h1_def)
  have lt: "pos - 1 < num_items P" and S: "Suc (pos - 1) = pos"
    using pos by simp_all
  have "\<exists>P'. ShiftLeft cfg h1 this (pos - 1) True = Some (h1(this \<mapsto> P'))
      \<and> \<not> leaf P' \<and> num_items P' = num_items P - 1
      \<and> keys_of P' = take (pos - 1) (keys_of P) @ drop pos (keys_of P)
      \<and> children_of P' = take pos (children_of P) @ drop (Suc pos) (children_of P)"
    using ShiftLeft_inner [OF P1 inner pcap lt, of True] by (simp only: simp_thms if_True S)
  then obtain P' where sl: "ShiftLeft cfg h1 this (pos - 1) True = Some (h1(this \<mapsto> P'))"
      "\<not> leaf P'" "num_items P' = num_items P - 1"
      "keys_of P' = take (pos - 1) (keys_of P) @ drop pos (keys_of P)"
      "children_of P' = take pos (children_of P) @ drop (Suc pos) (children_of P)"
    by blast
  have as: "cassert cfg (1 \<le> num_items P) = Some ()"
      "(if NDEBUG cfg then Some () else cassert cfg (num_items C < MinItems cfg C)) = Some ()"
    using pos deficient by auto
  have run: "MergeOrRebalanceChild cfg h this pos = Some (h1(this \<mapsto> P'), c)"
    using pos(1) absorb
    by (simp only: MergeOrRebalanceChild_def ch P C L as key mf(1) h1_def [symmetric] sl(1)
          Option.bind.simps simp_thms if_True if_False)
  show ?thesis
    using run mf(2-5) sl(2-5) unfolding h1_def by blast
qed


lemma MergeOrRebalanceChild_skip_left:
  assumes P: "deref h this = Some P" and inner: "\<not> leaf P"
    and pcap: "num_items P \<le> kMaxInnerKeys cfg" and pos: "pos \<le> num_items P"
    and n1: "1 \<le> num_items P"
    and c: "child_slots P pos = c" and C: "deref h c = Some C"
    and deficient: "NDEBUG cfg \<or> num_items C < MinItems cfg C"
    and left: "0 < pos \<Longrightarrow> deref h (child_slots P (pos - 1)) = Some L
        \<and> \<not> num_items L + 1 + num_items C \<le> MaxItems cfg L"
  shows "MergeOrRebalanceChild cfg h this pos
     = MergeOrRebalanceChild_right cfg h this pos c
         (if 0 < pos then child_slots P (pos - 1) else nullptr)"
proof -
  have ch: "Child cfg h this pos = Some c"
      "Child cfg h this (pos - 1) = Some (child_slots P (pos - 1))"
    using P inner pcap pos c by (simp_all add: Child_eq)
  have as: "cassert cfg (1 \<le> num_items P) = Some ()"
      "(if NDEBUG cfg then Some () else cassert cfg (num_items C < MinItems cfg C)) = Some ()"
    using n1 deficient by auto
  show ?thesis
  proof (cases "0 < pos")
    case True
    note l = left [OF True]
    show ?thesis
      using True l
      by (simp only: MergeOrRebalanceChild_def ch P C as conjunct1 [OF l]
            Option.bind.simps simp_thms if_True if_False)
  next
    case False
    then show ?thesis
      by (simp only: MergeOrRebalanceChild_def ch P C as
            Option.bind.simps simp_thms if_True if_False)
  qed
qed

lemma MergeOrRebalanceChild_merge_right:
  assumes P: "deref h this = Some P" and inner: "\<not> leaf P"
    and pcap: "num_items P \<le> kMaxInnerKeys cfg" and pos: "pos < num_items P"
    and c: "child_slots P pos = c" and r: "child_slots P (pos + 1) = r"
    and C: "deref h c = Some C" and R: "deref h r = Some R"
    and dist: "this \<noteq> r" "this \<noteq> c" "r \<noteq> c"
    and kind: "leaf R = leaf C"
    and absorb: "num_items C + 1 + num_items R \<le> MaxItems cfg R"
    and valid: "layout_valid cfg"
  shows "\<exists>C' P'. MergeOrRebalanceChild_right cfg h this pos c left
          = Some (h(c \<mapsto> C', r \<mapsto> R\<lparr>num_items := 0\<rparr>, this \<mapsto> P'), r)
      \<and> keys_of C' = keys_of C @ key_slots P pos # keys_of R
      \<and> children_of C' = children_of C @ children_of R
      \<and> num_items C' = num_items C + 1 + num_items R \<and> leaf C' = leaf C
      \<and> \<not> leaf P' \<and> num_items P' = num_items P - 1
      \<and> keys_of P' = take pos (keys_of P) @ drop (Suc pos) (keys_of P)
      \<and> children_of P' = take (Suc pos) (children_of P) @ drop (Suc (Suc pos)) (children_of P)"
proof -
  have nn: "this \<noteq> nullptr" "r \<noteq> nullptr" "c \<noteq> nullptr"
    using P C R by (auto dest: deref_nonnull)
  have ch: "Child cfg h this (pos + 1) = Some r"
    using P inner pcap pos r by (simp add: Child_eq)
  have key: "Key cfg h this pos = Some (key_slots P pos)"
    using P inner pcap pos by (simp add: Key_eq MaxItems_def)
  have room: "num_items C + 1 + num_items R \<le> MaxItems cfg C"
    using absorb kind by (simp add: MaxItems_def)
  from MergeFromRight_spec [OF C R dist(3) [symmetric] kind room valid, of "key_slots P pos"]
  obtain C' where mf: "MergeFromRight cfg h c (key_slots P pos) r
        = Some (h(c \<mapsto> C', r \<mapsto> R\<lparr>num_items := 0\<rparr>))"
      "keys_of C' = keys_of C @ key_slots P pos # keys_of R"
      "children_of C' = children_of C @ children_of R"
      "num_items C' = num_items C + 1 + num_items R" "leaf C' = leaf C"
    by blast
  define h1 where "h1 = h(c \<mapsto> C', r \<mapsto> R\<lparr>num_items := 0\<rparr>)"
  have P1: "deref h1 this = Some P"
    using P nn dist by (simp add: h1_def)
  have "\<exists>P'. ShiftLeft cfg h1 this pos True = Some (h1(this \<mapsto> P'))
      \<and> \<not> leaf P' \<and> num_items P' = num_items P - 1
      \<and> keys_of P' = take pos (keys_of P) @ drop (Suc pos) (keys_of P)
      \<and> children_of P' = take (Suc pos) (children_of P) @ drop (Suc (Suc pos)) (children_of P)"
    using ShiftLeft_inner [OF P1 inner pcap pos, of True] by (simp only: simp_thms if_True)
  then obtain P' where sl: "ShiftLeft cfg h1 this pos True = Some (h1(this \<mapsto> P'))"
      "\<not> leaf P'" "num_items P' = num_items P - 1"
      "keys_of P' = take pos (keys_of P) @ drop (Suc pos) (keys_of P)"
      "children_of P' = take (Suc pos) (children_of P) @ drop (Suc (Suc pos)) (children_of P)"
    by blast
  have run: "MergeOrRebalanceChild_right cfg h this pos c left = Some (h1(this \<mapsto> P'), r)"
    using pos absorb
    by (simp only: MergeOrRebalanceChild_right_def ch P C R key mf(1) h1_def [symmetric] sl(1)
          Option.bind.simps simp_thms if_True if_False)
  show ?thesis
    using run mf(2-5) sl(2-5) unfolding h1_def by blast
qed

lemma MergeOrRebalanceChild_from_right:
  assumes P: "deref h this = Some P" and inner: "\<not> leaf P"
    and pcap: "num_items P \<le> kMaxInnerKeys cfg" and pos: "pos < num_items P"
    and c: "child_slots P pos = c" and r: "child_slots P (pos + 1) = r"
    and C: "deref h c = Some C" and R: "deref h r = Some R"
    and dist: "this \<noteq> r" "this \<noteq> c" "r \<noteq> c"
    and kind: "leaf R = leaf C"
    and deficient: "num_items C < MinItems cfg C"
    and Rcap: "num_items R \<le> MaxItems cfg R"
    and noabsorb: "\<not> num_items C + 1 + num_items R \<le> MaxItems cfg R"
    and valid: "layout_valid cfg"
    and tm: "tm = (num_items R - num_items C) div 2"
  shows "\<exists>C' R'. MergeOrRebalanceChild_right cfg h this pos c left
          = Some (h(c \<mapsto> C',
                    this \<mapsto> P\<lparr>key_slots := (key_slots P)(pos := key_slots R (tm - 1))\<rparr>,
                    r \<mapsto> R'), nullptr)
      \<and> 1 \<le> tm \<and> tm < num_items R \<and> num_items C + tm \<le> MaxItems cfg C
      \<and> keys_of C' = keys_of C @ key_slots P pos # take (tm - 1) (keys_of R)
      \<and> keys_of R' = drop tm (keys_of R)
      \<and> children_of C' = children_of C @ take tm (children_of R)
      \<and> children_of R' = drop tm (children_of R)
      \<and> num_items C' = num_items C + tm \<and> num_items R' = num_items R - tm
      \<and> leaf C' = leaf C \<and> leaf R' = leaf R"
proof -
  have mx: "MaxItems cfg R = MaxItems cfg C"
    using kind by (simp add: MaxItems_def)
  have d: "num_items C < MaxItems cfg R div 2"
    using deficient by (simp add: MinItems_eq mx)
  have na: "\<not> num_items R + 1 + num_items C \<le> MaxItems cfg R"
    using noabsorb by simp
  note b = to_move_bounds [OF d Rcap na, folded tm]
  have ch: "Child cfg h this (pos + 1) = Some r"
    using P inner pcap pos r by (simp add: Child_eq)
  have p1: "0 < pos + 1" "pos + 1 \<le> num_items P" "child_slots P (pos + 1 - 1) = c"
    using pos c by simp_all
  have room: "num_items C + tm \<le> MaxItems cfg C"
    using b(5) by (simp add: mx)
  from RebalanceChildToLeft_spec [OF P inner pcap p1(1,2) r p1(3) R C dist(2,1) dist(3) [symmetric]
      kind [symmetric] b(2,4) Rcap room valid]
  obtain C' R' where res: "RebalanceChildToLeft cfg h this (pos + 1) tm =
        Some (h(c \<mapsto> C',
                this \<mapsto> P\<lparr>key_slots := (key_slots P)(pos + 1 - 1 := key_slots R (tm - 1))\<rparr>,
                r \<mapsto> R'))"
     "keys_of C' = keys_of C @ key_slots P (pos + 1 - 1) # take (tm - 1) (keys_of R)"
     "keys_of R' = drop tm (keys_of R)"
     "children_of C' = children_of C @ take tm (children_of R)"
     "children_of R' = drop tm (children_of R)"
     "num_items C' = num_items C + tm" "num_items R' = num_items R - tm"
     "leaf C' = leaf C" "leaf R' = leaf R"
    by blast
  have as: "cassert cfg (tm < num_items R) = Some ()"
    using b(3) by simp
  have run: "MergeOrRebalanceChild_right cfg h this pos c left =
        Some (h(c \<mapsto> C',
                this \<mapsto> P\<lparr>key_slots := (key_slots P)(pos + 1 - 1 := key_slots R (tm - 1))\<rparr>,
                r \<mapsto> R'), nullptr)"
    using pos noabsorb
    by (simp only: MergeOrRebalanceChild_right_def Let_def ch P C R b(1) as res(1)
          Option.bind.simps simp_thms if_True if_False)
  show ?thesis
    using run res(2-9) b(2,3) room by (simp only: add_diff_cancel_right') blast
qed

lemma MergeOrRebalanceChild_from_left:
  assumes P: "deref h this = Some P" and inner: "\<not> leaf P"
    and pcap: "num_items P \<le> kMaxInnerKeys cfg" and pos: "0 < pos" "pos = num_items P"
    and c: "child_slots P pos = c" and l: "child_slots P (pos - 1) = l"
    and C: "deref h c = Some C" and L: "deref h l = Some L"
    and dist: "this \<noteq> l" "this \<noteq> c" "l \<noteq> c"
    and kind: "leaf L = leaf C"
    and deficient: "num_items C < MinItems cfg C"
    and Lcap: "num_items L \<le> MaxItems cfg L"
    and noabsorb: "\<not> num_items L + 1 + num_items C \<le> MaxItems cfg L"
    and nonempty: "NDEBUG cfg \<or> 0 < num_items C"
    and valid: "layout_valid cfg"
    and tm: "tm = (num_items L - num_items C) div 2"
  shows "\<exists>C' L'. MergeOrRebalanceChild_right cfg h this pos c l
          = Some (h(c \<mapsto> C',
                    this \<mapsto> P\<lparr>key_slots := (key_slots P)(pos - 1 := key_slots L (num_items L - tm))\<rparr>,
                    l \<mapsto> L'), nullptr)
      \<and> 1 \<le> tm \<and> tm < num_items L \<and> num_items C + tm \<le> MaxItems cfg C
      \<and> keys_of C' = drop (num_items L - tm + 1) (keys_of L) @ key_slots P (pos - 1) # keys_of C
      \<and> keys_of L' = take (num_items L - tm) (keys_of L)
      \<and> children_of C' = drop (num_items L - tm + 1) (children_of L) @ children_of C
      \<and> children_of L' = take (num_items L - tm + 1) (children_of L)
      \<and> num_items C' = num_items C + tm \<and> num_items L' = num_items L - tm
      \<and> leaf C' = leaf C \<and> leaf L' = leaf L"
proof -
  have mx: "MaxItems cfg L = MaxItems cfg C"
    using kind by (simp add: MaxItems_def)
  have d: "num_items C < MaxItems cfg L div 2"
    using deficient by (simp add: MinItems_eq mx)
  note b = to_move_bounds [OF d Lcap noabsorb, folded tm]
  have nn: "l \<noteq> nullptr"
    using L by (rule deref_nonnull)
  have p1: "pos - 1 < num_items P" "child_slots P (pos - 1 + 1) = c" "usub pos 1 = pos - 1"
    using pos c by simp_all
  have room: "num_items C + tm \<le> MaxItems cfg C"
    using b(5) by (simp add: mx)
  from RebalanceChildToRight_spec [OF P inner pcap p1(1) l p1(2) L C dist(2,1) dist(3) [symmetric]
      kind [symmetric] b(2,4) Lcap room nonempty valid]
  obtain C' L' where res: "RebalanceChildToRight cfg h this (pos - 1) tm =
        Some (h(c \<mapsto> C',
                this \<mapsto> P\<lparr>key_slots := (key_slots P)(pos - 1 := key_slots L (num_items L - tm))\<rparr>,
                l \<mapsto> L'))"
     "keys_of C' = drop (num_items L - tm + 1) (keys_of L) @ key_slots P (pos - 1) # keys_of C"
     "keys_of L' = take (num_items L - tm) (keys_of L)"
     "children_of C' = drop (num_items L - tm + 1) (children_of L) @ children_of C"
     "children_of L' = take (num_items L - tm + 1) (children_of L)"
     "num_items C' = num_items C + tm" "num_items L' = num_items L - tm"
     "leaf C' = leaf C" "leaf L' = leaf L"
    by blast
  have as: "cassert cfg (tm < num_items L) = Some ()" "cassert cfg True = Some ()"
    using b(3) by simp_all
  have np: "\<not> pos < num_items P"
    using pos by simp
  have run: "MergeOrRebalanceChild_right cfg h this pos c l =
        Some (h(c \<mapsto> C',
                this \<mapsto> P\<lparr>key_slots := (key_slots P)(pos - 1 := key_slots L (num_items L - tm))\<rparr>,
                l \<mapsto> L'), nullptr)"
    using np nn
    by (simp only: MergeOrRebalanceChild_right_def Let_def P C L b(1) as p1(3) res(1)
          Option.bind.simps simp_thms if_True if_False)
  show ?thesis
    using run res(2-9) b(2,3) room by blast
qed

text \<open>
  The assertion \<open>dest_items > 0\<close> of \<open>RebalanceChildToRight\<close> fails on an empty
  destination, whatever else holds.
\<close>

lemma RebalanceChildToRight_empty_dest:
  assumes "\<not> NDEBUG cfg" and "deref h this = Some P"
    and "deref h (child_slots P (p + 1)) = Some D" and "num_items D = 0"
  shows "RebalanceChildToRight cfg h this p k = None"
  using assms
  by (auto simp: RebalanceChildToRight_def Child_def cassert_def Let_def
      split: Option.bind_splits if_splits)


lemma MergeOrRebalanceChild_right_empty_last:
  assumes dbg: "\<not> NDEBUG cfg" and P: "deref h this = Some P"
    and pos: "0 < pos" "pos = num_items P"
    and c: "child_slots P pos = c" and C: "deref h c = Some C" and z: "num_items C = 0"
    and L: "deref h l = Some L"
  shows "MergeOrRebalanceChild_right cfg h this pos c l = None"
proof -
  have ln: "l \<noteq> nullptr"
    using L by (rule deref_nonnull)
  have dC: "deref h (child_slots P (pos - 1 + 1)) = Some C"
    using pos c C by simp
  have rc: "RebalanceChildToRight cfg h this (pos - 1) k = None" for k
    by (rule RebalanceChildToRight_empty_dest [OF dbg P dC z])
  have u: "usub pos 1 = pos - 1"
    using pos by simp
  have np: "\<not> pos < num_items P"
    using pos by simp
  show ?thesis
    using np ln
    by (simp only: MergeOrRebalanceChild_right_def Let_def P C L u rc)
       (simp add: cassert_def)
qed

text \<open>
  C5. \<open>MergeOrRebalanceChild(pos)\<close> on an inner node whose child at \<open>pos\<close> holds
  fewer items than its minimum; the siblings that exist are distinct nodes of the kind of
  the child within capacity. When the left sibling can absorb the child
  (\<open>left.count + 1 + node.count \<le> max\<close>) the child is merged into it and returned,
  empty; otherwise, when the child can absorb the right sibling, that sibling is merged
  into the child and returned, empty; in both cases the parent loses the separator
  between the two nodes and the pointer to the returned node. Otherwise
  \<open>(sibling.count - node.count) / 2\<close> items are moved into the child, from the right
  sibling when there is one, else from the left sibling, the null node is returned and
  the parent keeps its count and its children. The last case is where the source
  departs from this: moving from the left sibling goes through
  \<open>RebalanceChildToRight\<close>, which asserts that its destination is not empty, so with
  assertions enabled the call does not return when the child is empty.
\<close>

theorem C5_MergeOrRebalanceChild_outcome:
  assumes P: "deref h this = Some P" and inner: "\<not> leaf P"
    and pcap: "num_items P \<le> kMaxInnerKeys cfg" and pos: "pos \<le> num_items P"
    and n1: "1 \<le> num_items P"
    and c: "child_slots P pos = c" and C: "deref h c = Some C" and tc: "this \<noteq> c"
    and deficient: "num_items C < MinItems cfg C"
    and left: "0 < pos \<Longrightarrow> child_slots P (pos - 1) = l \<and> deref h l = Some L
        \<and> this \<noteq> l \<and> l \<noteq> c \<and> leaf L = leaf C \<and> num_items L \<le> MaxItems cfg L"
    and right: "pos < num_items P \<Longrightarrow> child_slots P (pos + 1) = r \<and> deref h r = Some R
        \<and> this \<noteq> r \<and> r \<noteq> c \<and> leaf R = leaf C \<and> num_items R \<le> MaxItems cfg R"
    and valid: "layout_valid cfg"
    and merge_left: "merge_left \<longleftrightarrow> 0 < pos \<and> num_items L + 1 + num_items C \<le> MaxItems cfg L"
    and merge_right: "merge_right \<longleftrightarrow>
        pos < num_items P \<and> num_items C + 1 + num_items R \<le> MaxItems cfg R"
    and from_right: "from_right = (num_items R - num_items C) div 2"
    and from_left: "from_left = (num_items L - num_items C) div 2"
  shows "(merge_left \<longrightarrow>
          (\<exists>L' P'. MergeOrRebalanceChild cfg h this pos
                = Some (h(l \<mapsto> L', c \<mapsto> C\<lparr>num_items := 0\<rparr>, this \<mapsto> P'), c)
            \<and> c \<noteq> nullptr
            \<and> keys_of L' = keys_of L @ key_slots P (pos - 1) # keys_of C
            \<and> children_of L' = children_of L @ children_of C
            \<and> num_items L' = num_items L + 1 + num_items C
            \<and> num_items P' = num_items P - 1
            \<and> keys_of P' = take (pos - 1) (keys_of P) @ drop pos (keys_of P)
            \<and> children_of P' = take pos (children_of P) @ drop (Suc pos) (children_of P)))
      \<and> (\<not> merge_left \<and> merge_right \<longrightarrow>
          (\<exists>C' P'. MergeOrRebalanceChild cfg h this pos
                = Some (h(c \<mapsto> C', r \<mapsto> R\<lparr>num_items := 0\<rparr>, this \<mapsto> P'), r)
            \<and> r \<noteq> nullptr
            \<and> keys_of C' = keys_of C @ key_slots P pos # keys_of R
            \<and> children_of C' = children_of C @ children_of R
            \<and> num_items C' = num_items C + 1 + num_items R
            \<and> num_items P' = num_items P - 1
            \<and> keys_of P' = take pos (keys_of P) @ drop (Suc pos) (keys_of P)
            \<and> children_of P' = take (Suc pos) (children_of P) @ drop (Suc (Suc pos)) (children_of P)))
      \<and> (\<not> merge_left \<and> \<not> merge_right \<and> pos < num_items P \<longrightarrow>
          (\<exists>C' R'. MergeOrRebalanceChild cfg h this pos
                = Some (h(c \<mapsto> C',
                          this \<mapsto> P\<lparr>key_slots := (key_slots P)(pos := key_slots R (from_right - 1))\<rparr>,
                          r \<mapsto> R'), nullptr)
            \<and> 1 \<le> from_right \<and> from_right < num_items R
            \<and> keys_of C' = keys_of C @ key_slots P pos # take (from_right - 1) (keys_of R)
            \<and> keys_of R' = drop from_right (keys_of R)
            \<and> children_of C' = children_of C @ take from_right (children_of R)
            \<and> children_of R' = drop from_right (children_of R)
            \<and> num_items C' = num_items C + from_right
            \<and> num_items R' = num_items R - from_right))
      \<and> (\<not> merge_left \<and> pos = num_items P \<and> (NDEBUG cfg \<or> 0 < num_items C) \<longrightarrow>
          (\<exists>C' L'. MergeOrRebalanceChild cfg h this pos
                = Some (h(c \<mapsto> C',
                          this \<mapsto> P\<lparr>key_slots :=
                            (key_slots P)(pos - 1 := key_slots L (num_items L - from_left))\<rparr>,
                          l \<mapsto> L'), nullptr)
            \<and> 1 \<le> from_left \<and> from_left < num_items L
            \<and> keys_of C' = drop (num_items L - from_left + 1) (keys_of L)
                              @ key_slots P (pos - 1) # keys_of C
            \<and> keys_of L' = take (num_items L - from_left) (keys_of L)
            \<and> children_of C' = drop (num_items L - from_left + 1) (children_of L) @ children_of C
            \<and> children_of L' = take (num_items L - from_left + 1) (children_of L)
            \<and> num_items C' = num_items C + from_left
            \<and> num_items L' = num_items L - from_left))
      \<and> (\<not> merge_left \<and> pos = num_items P \<and> \<not> NDEBUG cfg \<and> num_items C = 0 \<longrightarrow>
            MergeOrRebalanceChild cfg h this pos = None)"
proof -
  have cn: "c \<noteq> nullptr"
    using C by (rule deref_nonnull)
  have i1: "merge_left \<longrightarrow>
          (\<exists>L' P'. MergeOrRebalanceChild cfg h this pos
                = Some (h(l \<mapsto> L', c \<mapsto> C\<lparr>num_items := 0\<rparr>, this \<mapsto> P'), c)
            \<and> c \<noteq> nullptr
            \<and> keys_of L' = keys_of L @ key_slots P (pos - 1) # keys_of C
            \<and> children_of L' = children_of L @ children_of C
            \<and> num_items L' = num_items L + 1 + num_items C
            \<and> num_items P' = num_items P - 1
            \<and> keys_of P' = take (pos - 1) (keys_of P) @ drop pos (keys_of P)
            \<and> children_of P' = take pos (children_of P) @ drop (Suc pos) (children_of P))"
  proof
    assume merge_left
    then have p: "0 < pos" and ab: "num_items L + 1 + num_items C \<le> MaxItems cfg L"
      using merge_left by simp_all
    note f = left [OF p]
    have l: "child_slots P (pos - 1) = l" and L: "deref h l = Some L"
      and d: "this \<noteq> l" "l \<noteq> c" and k: "leaf C = leaf L"
      using f by simp_all
    from MergeOrRebalanceChild_merge_left [OF P inner pcap p pos c l C L d(1) tc d(2) k
        disjI2 [OF deficient] ab valid] cn
    show "\<exists>L' P'. MergeOrRebalanceChild cfg h this pos
                = Some (h(l \<mapsto> L', c \<mapsto> C\<lparr>num_items := 0\<rparr>, this \<mapsto> P'), c)
            \<and> c \<noteq> nullptr
            \<and> keys_of L' = keys_of L @ key_slots P (pos - 1) # keys_of C
            \<and> children_of L' = children_of L @ children_of C
            \<and> num_items L' = num_items L + 1 + num_items C
            \<and> num_items P' = num_items P - 1
            \<and> keys_of P' = take (pos - 1) (keys_of P) @ drop pos (keys_of P)
            \<and> children_of P' = take pos (children_of P) @ drop (Suc pos) (children_of P)"
      by blast
  qed
  have sk: "MergeOrRebalanceChild cfg h this pos
     = MergeOrRebalanceChild_right cfg h this pos c
         (if 0 < pos then child_slots P (pos - 1) else nullptr)" if "\<not> merge_left"
    using that left merge_left
    by (intro MergeOrRebalanceChild_skip_left [OF P inner pcap pos n1 c C disjI2 [OF deficient],
          where L = L]) auto
  have i2: "\<not> merge_left \<and> merge_right \<longrightarrow>
          (\<exists>C' P'. MergeOrRebalanceChild cfg h this pos
                = Some (h(c \<mapsto> C', r \<mapsto> R\<lparr>num_items := 0\<rparr>, this \<mapsto> P'), r)
            \<and> r \<noteq> nullptr
            \<and> keys_of C' = keys_of C @ key_slots P pos # keys_of R
            \<and> children_of C' = children_of C @ children_of R
            \<and> num_items C' = num_items C + 1 + num_items R
            \<and> num_items P' = num_items P - 1
            \<and> keys_of P' = take pos (keys_of P) @ drop (Suc pos) (keys_of P)
            \<and> children_of P' = take (Suc pos) (children_of P) @ drop (Suc (Suc pos)) (children_of P))"
  proof
    assume a: "\<not> merge_left \<and> merge_right"
    then have p: "pos < num_items P" and ab: "num_items C + 1 + num_items R \<le> MaxItems cfg R"
      using merge_right by simp_all
    note f = right [OF p]
    have r: "child_slots P (pos + 1) = r" and R: "deref h r = Some R"
      and d: "this \<noteq> r" "r \<noteq> c" and k: "leaf R = leaf C"
      using f by simp_all
    have rn: "r \<noteq> nullptr"
      using R by (rule deref_nonnull)
    from MergeOrRebalanceChild_merge_right [OF P inner pcap p c r C R d(1) tc d(2) k ab valid,
        of "if 0 < pos then child_slots P (pos - 1) else nullptr"] rn
    show "\<exists>C' P'. MergeOrRebalanceChild cfg h this pos
                = Some (h(c \<mapsto> C', r \<mapsto> R\<lparr>num_items := 0\<rparr>, this \<mapsto> P'), r)
            \<and> r \<noteq> nullptr
            \<and> keys_of C' = keys_of C @ key_slots P pos # keys_of R
            \<and> children_of C' = children_of C @ children_of R
            \<and> num_items C' = num_items C + 1 + num_items R
            \<and> num_items P' = num_items P - 1
            \<and> keys_of P' = take pos (keys_of P) @ drop (Suc pos) (keys_of P)
            \<and> children_of P' = take (Suc pos) (children_of P) @ drop (Suc (Suc pos)) (children_of P)"
      unfolding sk [OF conjunct1 [OF a]] by blast
  qed
  have i3: "\<not> merge_left \<and> \<not> merge_right \<and> pos < num_items P \<longrightarrow>
          (\<exists>C' R'. MergeOrRebalanceChild cfg h this pos
                = Some (h(c \<mapsto> C',
                          this \<mapsto> P\<lparr>key_slots := (key_slots P)(pos := key_slots R (from_right - 1))\<rparr>,
                          r \<mapsto> R'), nullptr)
            \<and> 1 \<le> from_right \<and> from_right < num_items R
            \<and> keys_of C' = keys_of C @ key_slots P pos # take (from_right - 1) (keys_of R)
            \<and> keys_of R' = drop from_right (keys_of R)
            \<and> children_of C' = children_of C @ take from_right (children_of R)
            \<and> children_of R' = drop from_right (children_of R)
            \<and> num_items C' = num_items C + from_right
            \<and> num_items R' = num_items R - from_right)"
  proof
    assume a: "\<not> merge_left \<and> \<not> merge_right \<and> pos < num_items P"
    then have p: "pos < num_items P" and na: "\<not> num_items C + 1 + num_items R \<le> MaxItems cfg R"
      using merge_right by simp_all
    note f = right [OF p]
    have r: "child_slots P (pos + 1) = r" and R: "deref h r = Some R"
      and d: "this \<noteq> r" "r \<noteq> c" and k: "leaf R = leaf C" and cap: "num_items R \<le> MaxItems cfg R"
      using f by simp_all
    from MergeOrRebalanceChild_from_right [OF P inner pcap p c r C R d(1) tc d(2) k deficient cap
        na valid from_right, of "if 0 < pos then child_slots P (pos - 1) else nullptr"]
    show "\<exists>C' R'. MergeOrRebalanceChild cfg h this pos
                = Some (h(c \<mapsto> C',
                          this \<mapsto> P\<lparr>key_slots := (key_slots P)(pos := key_slots R (from_right - 1))\<rparr>,
                          r \<mapsto> R'), nullptr)
            \<and> 1 \<le> from_right \<and> from_right < num_items R
            \<and> keys_of C' = keys_of C @ key_slots P pos # take (from_right - 1) (keys_of R)
            \<and> keys_of R' = drop from_right (keys_of R)
            \<and> children_of C' = children_of C @ take from_right (children_of R)
            \<and> children_of R' = drop from_right (children_of R)
            \<and> num_items C' = num_items C + from_right
            \<and> num_items R' = num_items R - from_right"
      unfolding sk [OF conjunct1 [OF a]] by blast
  qed
  have last: "0 < pos \<and> child_slots P (pos - 1) = l \<and> deref h l = Some L
        \<and> this \<noteq> l \<and> l \<noteq> c \<and> leaf L = leaf C \<and> num_items L \<le> MaxItems cfg L
        \<and> \<not> num_items L + 1 + num_items C \<le> MaxItems cfg L
        \<and> MergeOrRebalanceChild cfg h this pos = MergeOrRebalanceChild_right cfg h this pos c l"
    if a: "\<not> merge_left" "pos = num_items P"
  proof -
    have p: "0 < pos"
      using a(2) n1 by simp
    note f = left [OF p]
    have "MergeOrRebalanceChild cfg h this pos = MergeOrRebalanceChild_right cfg h this pos c l"
      using sk [OF a(1)] p f by simp
    then show ?thesis
      using p f a(1) merge_left by simp
  qed
  have i4: "\<not> merge_left \<and> pos = num_items P \<and> (NDEBUG cfg \<or> 0 < num_items C) \<longrightarrow>
          (\<exists>C' L'. MergeOrRebalanceChild cfg h this pos
                = Some (h(c \<mapsto> C',
                          this \<mapsto> P\<lparr>key_slots :=
                            (key_slots P)(pos - 1 := key_slots L (num_items L - from_left))\<rparr>,
                          l \<mapsto> L'), nullptr)
            \<and> 1 \<le> from_left \<and> from_left < num_items L
            \<and> keys_of C' = drop (num_items L - from_left + 1) (keys_of L)
                              @ key_slots P (pos - 1) # keys_of C
            \<and> keys_of L' = take (num_items L - from_left) (keys_of L)
            \<and> children_of C' = drop (num_items L - from_left + 1) (children_of L) @ children_of C
            \<and> children_of L' = take (num_items L - from_left + 1) (children_of L)
            \<and> num_items C' = num_items C + from_left
            \<and> num_items L' = num_items L - from_left)"
  proof
    assume a: "\<not> merge_left \<and> pos = num_items P \<and> (NDEBUG cfg \<or> 0 < num_items C)"
    then have ne: "NDEBUG cfg \<or> 0 < num_items C" and pe: "pos = num_items P"
      by simp_all
    from a have f: "0 < pos \<and> child_slots P (pos - 1) = l \<and> deref h l = Some L
        \<and> this \<noteq> l \<and> l \<noteq> c \<and> leaf L = leaf C \<and> num_items L \<le> MaxItems cfg L
        \<and> \<not> num_items L + 1 + num_items C \<le> MaxItems cfg L
        \<and> MergeOrRebalanceChild cfg h this pos = MergeOrRebalanceChild_right cfg h this pos c l"
      by (intro last) simp_all
    have p: "0 < pos" and l: "child_slots P (pos - 1) = l" and L: "deref h l = Some L"
      and d: "this \<noteq> l" "l \<noteq> c" and k: "leaf L = leaf C" and cap: "num_items L \<le> MaxItems cfg L"
      and na: "\<not> num_items L + 1 + num_items C \<le> MaxItems cfg L"
      and e: "MergeOrRebalanceChild cfg h this pos = MergeOrRebalanceChild_right cfg h this pos c l"
      using f by simp_all
    from MergeOrRebalanceChild_from_left [OF P inner pcap p pe c l C L d(1) tc d(2) k deficient cap
        na ne valid from_left]
    show "\<exists>C' L'. MergeOrRebalanceChild cfg h this pos
                = Some (h(c \<mapsto> C',
                          this \<mapsto> P\<lparr>key_slots :=
                            (key_slots P)(pos - 1 := key_slots L (num_items L - from_left))\<rparr>,
                          l \<mapsto> L'), nullptr)
            \<and> 1 \<le> from_left \<and> from_left < num_items L
            \<and> keys_of C' = drop (num_items L - from_left + 1) (keys_of L)
                              @ key_slots P (pos - 1) # keys_of C
            \<and> keys_of L' = take (num_items L - from_left) (keys_of L)
            \<and> children_of C' = drop (num_items L - from_left + 1) (children_of L) @ children_of C
            \<and> children_of L' = take (num_items L - from_left + 1) (children_of L)
            \<and> num_items C' = num_items C + from_left
            \<and> num_items L' = num_items L - from_left"
      unfolding e by blast
  qed
  have i5: "\<not> merge_left \<and> pos = num_items P \<and> \<not> NDEBUG cfg \<and> num_items C = 0 \<longrightarrow>
            MergeOrRebalanceChild cfg h this pos = None"
  proof
    assume a: "\<not> merge_left \<and> pos = num_items P \<and> \<not> NDEBUG cfg \<and> num_items C = 0"
    then have dbg: "\<not> NDEBUG cfg" and pe: "pos = num_items P" and z: "num_items C = 0"
      by simp_all
    from a have f: "0 < pos \<and> child_slots P (pos - 1) = l \<and> deref h l = Some L
        \<and> this \<noteq> l \<and> l \<noteq> c \<and> leaf L = leaf C \<and> num_items L \<le> MaxItems cfg L
        \<and> \<not> num_items L + 1 + num_items C \<le> MaxItems cfg L
        \<and> MergeOrRebalanceChild cfg h this pos = MergeOrRebalanceChild_right cfg h this pos c l"
      by (intro last) simp_all
    have p: "0 < pos" and L: "deref h l = Some L"
      and e: "MergeOrRebalanceChild cfg h this pos = MergeOrRebalanceChild_right cfg h this pos c l"
      using f by simp_all
    show "MergeOrRebalanceChild cfg h this pos = None"
      unfolding e by (rule MergeOrRebalanceChild_right_empty_last [OF dbg P p pe c C z L])
  qed
  show ?thesis
    by (intro conjI i1 i2 i3 i4 i5)
qed


theorem C5_witness:
  "MergeOrRebalanceChild cfg64
      [1 \<mapsto> inner_node [40] [2, 3], 2 \<mapsto> leaf_node [10, 20, 30], 3 \<mapsto> leaf_node []] 1 1 = None
   \<and> (\<exists>L' P'. MergeOrRebalanceChild cfg64
          [1 \<mapsto> inner_node [40, 80] [2, 3, 4], 2 \<mapsto> leaf_node [10, 20], 3 \<mapsto> leaf_node [],
           4 \<mapsto> leaf_node [90, 100, 110]] 1 1
        = Some ([1 \<mapsto> inner_node [40, 80] [2, 3, 4], 2 \<mapsto> leaf_node [10, 20], 3 \<mapsto> leaf_node [],
                 4 \<mapsto> leaf_node [90, 100, 110]]
                  (2 \<mapsto> L', 3 \<mapsto> (leaf_node [])\<lparr>num_items := 0\<rparr>, 1 \<mapsto> P'), 3)
       \<and> keys_of L' = [10, 20, 40] \<and> keys_of P' = [80] \<and> children_of P' = [2, 4])"
proof -
  let ?C = "leaf_node []"
  have valid: "layout_valid cfg64"
    by (simp add: layout_valid_def)
  have ne: "(1::nat) \<noteq> 3" and deficient: "num_items ?C < MinItems cfg64 ?C"
    by (simp_all add: MinItems_def)
  have a: "MergeOrRebalanceChild cfg64
      [1 \<mapsto> inner_node [40] [2, 3], 2 \<mapsto> leaf_node [10, 20, 30], 3 \<mapsto> leaf_node []] 1 1 = None"
  proof -
    let ?P = "inner_node [40] [2, 3]"
    let ?L = "leaf_node [10, 20, 30]"
    let ?h = "[1 \<mapsto> ?P, 2 \<mapsto> ?L, 3 \<mapsto> ?C]"
    have d: "deref ?h 1 = Some ?P" "deref ?h 3 = Some ?C"
      by (simp_all add: deref_def nullptr_def)
    have P: "\<not> leaf ?P" "num_items ?P \<le> kMaxInnerKeys cfg64" "1 \<le> num_items ?P"
        "1 \<le> num_items ?P" "child_slots ?P 1 = 3"
      by (simp_all add: slots_def)
    have left: "child_slots ?P (1 - 1) = 2 \<and> deref ?h 2 = Some ?L
          \<and> (1::nat) \<noteq> 2 \<and> (2::nat) \<noteq> 3 \<and> leaf ?L = leaf ?C
          \<and> num_items ?L \<le> MaxItems cfg64 ?L"
      by (simp add: slots_def deref_def nullptr_def MaxItems_def)
    have right: "1 < num_items ?P \<Longrightarrow> child_slots ?P (1 + 1) = 0 \<and> deref ?h 0 = Some ?C
          \<and> (1::nat) \<noteq> 0 \<and> (0::nat) \<noteq> 3 \<and> leaf ?C = leaf ?C
          \<and> num_items ?C \<le> MaxItems cfg64 ?C"
      by simp
    have ml: "False \<longleftrightarrow> 0 < (1::nat) \<and> num_items ?L + 1 + num_items ?C \<le> MaxItems cfg64 ?L"
      and mr: "False \<longleftrightarrow> 1 < num_items ?P \<and> num_items ?C + 1 + num_items ?C \<le> MaxItems cfg64 ?C"
      and fr: "0 = (num_items ?C - num_items ?C) div 2"
      and fl: "1 = (num_items ?L - num_items ?C) div 2"
      by (simp_all add: MaxItems_def)
    note o = C5_MergeOrRebalanceChild_outcome [OF d(1) P d(2) ne deficient left right valid ml mr fr fl]
    show ?thesis
      using o [THEN conjunct2, THEN conjunct2, THEN conjunct2, THEN conjunct2] by simp
  qed
  have b: "\<exists>L' P'. MergeOrRebalanceChild cfg64
          [1 \<mapsto> inner_node [40, 80] [2, 3, 4], 2 \<mapsto> leaf_node [10, 20], 3 \<mapsto> leaf_node [],
           4 \<mapsto> leaf_node [90, 100, 110]] 1 1
        = Some ([1 \<mapsto> inner_node [40, 80] [2, 3, 4], 2 \<mapsto> leaf_node [10, 20], 3 \<mapsto> leaf_node [],
                 4 \<mapsto> leaf_node [90, 100, 110]]
                  (2 \<mapsto> L', 3 \<mapsto> (leaf_node [])\<lparr>num_items := 0\<rparr>, 1 \<mapsto> P'), 3)
       \<and> keys_of L' = [10, 20, 40] \<and> keys_of P' = [80] \<and> children_of P' = [2, 4]"
  proof -
    let ?P = "inner_node [40, 80] [2, 3, 4]"
    let ?L = "leaf_node [10, 20]"
    let ?R = "leaf_node [90, 100, 110]"
    let ?h = "[1 \<mapsto> ?P, 2 \<mapsto> ?L, 3 \<mapsto> ?C, 4 \<mapsto> ?R]"
    have d: "deref ?h 1 = Some ?P" "deref ?h 3 = Some ?C"
      by (simp_all add: deref_def nullptr_def)
    have P: "\<not> leaf ?P" "num_items ?P \<le> kMaxInnerKeys cfg64" "1 \<le> num_items ?P"
        "1 \<le> num_items ?P" "child_slots ?P 1 = 3"
      by (simp_all add: slots_def)
    have left: "child_slots ?P (1 - 1) = 2 \<and> deref ?h 2 = Some ?L
          \<and> (1::nat) \<noteq> 2 \<and> (2::nat) \<noteq> 3 \<and> leaf ?L = leaf ?C
          \<and> num_items ?L \<le> MaxItems cfg64 ?L"
      by (simp add: slots_def deref_def nullptr_def MaxItems_def)
    have right: "child_slots ?P (1 + 1) = 4 \<and> deref ?h 4 = Some ?R
          \<and> (1::nat) \<noteq> 4 \<and> (4::nat) \<noteq> 3 \<and> leaf ?R = leaf ?C
          \<and> num_items ?R \<le> MaxItems cfg64 ?R"
      by (simp add: slots_def deref_def nullptr_def MaxItems_def)
    have ml: "True \<longleftrightarrow> 0 < (1::nat) \<and> num_items ?L + 1 + num_items ?C \<le> MaxItems cfg64 ?L"
      and mr: "False \<longleftrightarrow> 1 < num_items ?P \<and> num_items ?C + 1 + num_items ?R \<le> MaxItems cfg64 ?R"
      and fr: "1 = (num_items ?R - num_items ?C) div 2"
      and fl: "1 = (num_items ?L - num_items ?C) div 2"
      by (simp_all add: MaxItems_def)
    note o = C5_MergeOrRebalanceChild_outcome [OF d(1) P d(2) ne deficient left right valid ml mr fr fl]
    from o [THEN conjunct1] obtain L' P' where r:
        "MergeOrRebalanceChild cfg64 ?h 1 1
           = Some (?h(2 \<mapsto> L', 3 \<mapsto> ?C\<lparr>num_items := 0\<rparr>, 1 \<mapsto> P'), 3)"
        "keys_of L' = keys_of ?L @ key_slots ?P (1 - 1) # keys_of ?C"
        "keys_of P' = take (1 - 1) (keys_of ?P) @ drop 1 (keys_of ?P)"
        "children_of P' = take 1 (children_of ?P) @ drop (Suc 1) (children_of ?P)"
      by (elim impE exE conjE) (rule TrueI)
    have k: "keys_of L' = [10, 20, 40]" "keys_of P' = [80]" "children_of P' = [2, 4]"
      using r(2-4) by (simp_all add: slots_def)
    show ?thesis
      using r(1) k by blast
  qed
  show ?thesis
    using a b by (rule conjI)
qed


text \<open>
  C10. In the rebalancing branches of \<open>MergeOrRebalanceChild(pos)\<close> (the child at
  \<open>pos\<close> below its minimum, the siblings within capacity, both merge tests failed)
  the transfer size \<open>to_move = (sibling.count - node.count) / 2\<close> is at least 1,
  smaller than the count of the sibling and no larger than the number of free slots of
  the child. Moving from the right sibling therefore always returns, and so does moving
  from the left sibling when the child holds a key or assertions are disabled. With
  assertions enabled and an empty child, moving from the left sibling does not return:
  \<open>RebalanceChildToRight\<close> asserts \<open>dest_items > 0\<close> and its destination, the
  child, is empty.
\<close>

theorem C10_transfer_size_and_assertions:
  assumes P: "deref h this = Some P" and inner: "\<not> leaf P"
    and pcap: "num_items P \<le> kMaxInnerKeys cfg" and pos: "pos \<le> num_items P"
    and n1: "1 \<le> num_items P"
    and c: "child_slots P pos = c" and C: "deref h c = Some C" and tc: "this \<noteq> c"
    and deficient: "num_items C < MinItems cfg C"
    and left: "0 < pos \<Longrightarrow> child_slots P (pos - 1) = l \<and> deref h l = Some L
        \<and> this \<noteq> l \<and> l \<noteq> c \<and> leaf L = leaf C
        \<and> MinItems cfg L \<le> num_items L \<and> num_items L \<le> MaxItems cfg L
        \<and> \<not> num_items L + 1 + num_items C \<le> MaxItems cfg L"
    and right: "pos < num_items P \<Longrightarrow> child_slots P (pos + 1) = r \<and> deref h r = Some R
        \<and> this \<noteq> r \<and> r \<noteq> c \<and> leaf R = leaf C
        \<and> MinItems cfg R \<le> num_items R \<and> num_items R \<le> MaxItems cfg R
        \<and> \<not> num_items C + 1 + num_items R \<le> MaxItems cfg R"
    and valid: "layout_valid cfg"
    and sibling: "sibling = (if pos < num_items P then R else L)"
    and to_move: "to_move = (num_items sibling - num_items C) div 2"
  shows "1 \<le> to_move \<and> to_move < num_items sibling \<and> to_move \<le> AvailableSlotCount cfg C
      \<and> (pos < num_items P \<or> NDEBUG cfg \<or> 0 < num_items C \<longrightarrow>
            (\<exists>h'. MergeOrRebalanceChild cfg h this pos = Some (h', nullptr)))
      \<and> (pos = num_items P \<and> \<not> NDEBUG cfg \<and> num_items C = 0 \<longrightarrow>
            MergeOrRebalanceChild cfg h this pos = None)"
proof -
  have sk: "MergeOrRebalanceChild cfg h this pos
     = MergeOrRebalanceChild_right cfg h this pos c
         (if 0 < pos then child_slots P (pos - 1) else nullptr)"
    using left
    by (intro MergeOrRebalanceChild_skip_left [OF P inner pcap pos n1 c C disjI2 [OF deficient],
          where L = L]) simp
  have av: "AvailableSlotCount cfg C = MaxItems cfg C - num_items C"
    using deficient by (simp add: AvailableSlotCount_def MinItems_eq)
  show ?thesis
  proof (cases "pos < num_items P")
    case True
    note f = right [OF True]
    have r: "child_slots P (pos + 1) = r" and R: "deref h r = Some R"
      and d: "this \<noteq> r" "r \<noteq> c" and k: "leaf R = leaf C" and cap: "num_items R \<le> MaxItems cfg R"
      and na: "\<not> num_items C + 1 + num_items R \<le> MaxItems cfg R"
      using f by simp_all
    have tm: "to_move = (num_items R - num_items C) div 2"
      using to_move sibling True by simp
    from MergeOrRebalanceChild_from_right [OF P inner pcap True c r C R d(1) tc d(2) k deficient cap
        na valid tm, of "if 0 < pos then child_slots P (pos - 1) else nullptr"]
    obtain h' where res: "MergeOrRebalanceChild cfg h this pos = Some (h', nullptr)"
        "1 \<le> to_move" "to_move < num_items R" "num_items C + to_move \<le> MaxItems cfg C"
      unfolding sk [symmetric] by blast
    have "to_move \<le> AvailableSlotCount cfg C"
      using res(4) av by simp
    then show ?thesis
      using res(1-3) True sibling by auto
  next
    case False
    then have pe: "pos = num_items P" and p: "0 < pos"
      using pos n1 by simp_all
    note f = left [OF p]
    have l: "child_slots P (pos - 1) = l" and L: "deref h l = Some L"
      and d: "this \<noteq> l" "l \<noteq> c" and k: "leaf L = leaf C" and cap: "num_items L \<le> MaxItems cfg L"
      and na: "\<not> num_items L + 1 + num_items C \<le> MaxItems cfg L"
      using f by simp_all
    have tm: "to_move = (num_items L - num_items C) div 2"
      using to_move sibling False by simp
    have mx: "MaxItems cfg L = MaxItems cfg C"
      using k by (simp add: MaxItems_def)
    have dd: "num_items C < MaxItems cfg L div 2"
      using deficient by (simp add: MinItems_eq mx)
    note b = to_move_bounds [OF dd cap na, folded tm]
    have bounds: "1 \<le> to_move" "to_move < num_items sibling" "to_move \<le> AvailableSlotCount cfg C"
      using b(2,3,5) sibling False av mx by simp_all
    have e: "MergeOrRebalanceChild cfg h this pos = MergeOrRebalanceChild_right cfg h this pos c l"
      using sk p l by simp
    have ok: "\<exists>h'. MergeOrRebalanceChild cfg h this pos = Some (h', nullptr)"
      if ne: "NDEBUG cfg \<or> 0 < num_items C"
      using MergeOrRebalanceChild_from_left [OF P inner pcap p pe c l C L d(1) tc d(2) k deficient cap
          na ne valid tm]
      unfolding e by blast
    have bad: "MergeOrRebalanceChild cfg h this pos = None"
      if "\<not> NDEBUG cfg" "num_items C = 0"
      unfolding e by (rule MergeOrRebalanceChild_right_empty_last [OF that(1) P p pe c C that(2) L])
    have ok': "pos < num_items P \<or> NDEBUG cfg \<or> 0 < num_items C \<longrightarrow>
            (\<exists>h'. MergeOrRebalanceChild cfg h this pos = Some (h', nullptr))"
      using ok False by (simp only: simp_thms) (rule impI)
    have bad': "pos = num_items P \<and> \<not> NDEBUG cfg \<and> num_items C = 0 \<longrightarrow>
            MergeOrRebalanceChild cfg h this pos = None"
      using bad by (intro impI) (elim conjE)
    show ?thesis
      by (intro conjI bounds ok' bad')
  qed
qed

theorem C10_witness:
  "MergeOrRebalanceChild cfg64
      [1 \<mapsto> inner_node [40] [2, 3], 2 \<mapsto> inner_node [10, 20, 30] [5, 6, 7, 8],
       3 \<mapsto> inner_node [] [9]] 1 1 = None
   \<and> num_items (inner_node [] [9]) < MinItems cfg64 (inner_node [] [9]::nat BPTreeNode)
   \<and> AvailableSlotCount cfg64 (inner_node [] [9]::nat BPTreeNode) = 3"
proof -
  let ?P = "inner_node [40] [2, 3]"
  let ?L = "inner_node [10, 20, 30] [5, 6, 7, 8]"
  let ?C = "inner_node [] [9]"
  let ?h = "[1 \<mapsto> ?P, 2 \<mapsto> ?L, 3 \<mapsto> ?C]"
  have valid: "layout_valid cfg64"
    by (simp add: layout_valid_def)
  have ne: "(1::nat) \<noteq> 3" and deficient: "num_items ?C < MinItems cfg64 ?C"
    and av: "AvailableSlotCount cfg64 ?C = 3"
    by (simp_all add: MinItems_def AvailableSlotCount_def MaxItems_def)
  have d: "deref ?h 1 = Some ?P" "deref ?h 3 = Some ?C"
    by (simp_all add: deref_def nullptr_def)
  have P: "\<not> leaf ?P" "num_items ?P \<le> kMaxInnerKeys cfg64" "1 \<le> num_items ?P"
      "1 \<le> num_items ?P" "child_slots ?P 1 = 3"
    by (simp_all add: slots_def)
  have left: "child_slots ?P (1 - 1) = 2 \<and> deref ?h 2 = Some ?L
        \<and> (1::nat) \<noteq> 2 \<and> (2::nat) \<noteq> 3 \<and> leaf ?L = leaf ?C
        \<and> MinItems cfg64 ?L \<le> num_items ?L \<and> num_items ?L \<le> MaxItems cfg64 ?L
        \<and> \<not> num_items ?L + 1 + num_items ?C \<le> MaxItems cfg64 ?L"
    by (simp add: slots_def deref_def nullptr_def MaxItems_def MinItems_def)
  have right: "1 < num_items ?P \<Longrightarrow> child_slots ?P (1 + 1) = 0 \<and> deref ?h 0 = Some ?C
        \<and> (1::nat) \<noteq> 0 \<and> (0::nat) \<noteq> 3 \<and> leaf ?C = leaf ?C
        \<and> MinItems cfg64 ?C \<le> num_items ?C \<and> num_items ?C \<le> MaxItems cfg64 ?C
        \<and> \<not> num_items ?C + 1 + num_items ?C \<le> MaxItems cfg64 ?C"
    by simp
  have sb: "?L = (if 1 < num_items ?P then ?C else ?L)"
    and tm: "1 = (num_items ?L - num_items ?C) div 2"
    by simp_all
  note o = C10_transfer_size_and_assertions [OF d(1) P d(2) ne deficient left right valid sb tm]
  have "MergeOrRebalanceChild cfg64 ?h 1 1 = None"
    using o [THEN conjunct2, THEN conjunct2, THEN conjunct2, THEN conjunct2] by simp
  then show ?thesis
    using deficient av by (intro conjI)
qed

section \<open>RebalanceChild and the pending insert\<close>

lemma inorder_tail:
  "a \<le> n \<Longrightarrow>
   concat (map (\<lambda>i. K i @ [k i]) [a..<n]) @ K n
     = K a @ concat (map (\<lambda>i. k i # K (Suc i)) [a..<n])"
  by (induction n) (auto simp: le_Suc_eq)

lemma upt_split: "a \<le> n \<Longrightarrow> [0..<n] = [0..<a] @ [a..<n]"
  using upt_add_eq_append [of 0 a "n - a"] by simp

lemma inorder_keys_split:
  assumes "deref h this = Some P" and "a \<le> num_items P"
  shows "inorder_keys h this
     = keys_before h P a @ keys_at h (child_slots P a) @ keys_after h P a"
proof -
  let ?K = "\<lambda>i. keys_at h (child_slots P i)"
  have "concat (map (\<lambda>i. ?K i @ [key_slots P i]) [0..<num_items P]) @ ?K (num_items P)
      = keys_before h P a @ (concat (map (\<lambda>i. ?K i @ [key_slots P i]) [a..<num_items P]) @ ?K (num_items P))"
    by (simp add: keys_before_def upt_split [OF assms(2)])
  also have "\<dots> = keys_before h P a @ ?K a @ keys_after h P a"
    using inorder_tail [OF assms(2), of ?K "key_slots P"] by (simp add: keys_after_def)
  finally show ?thesis
    using assms(1) by (simp add: inorder_keys_def)
qed

lemma keys_before_Suc:
  "keys_before h P (Suc a) = keys_before h P a @ keys_at h (child_slots P a) @ [key_slots P a]"
  by (simp add: keys_before_def)

lemma keys_after_step:
  "a < num_items P \<Longrightarrow>
   keys_after h P a = key_slots P a # keys_at h (child_slots P (Suc a)) @ keys_after h P (Suc a)"
  by (simp add: keys_after_def upt_conv_Cons)

lemma keys_before_frame:
  assumes "\<And>i. i < a \<Longrightarrow> keys_at h' (child_slots P' i) = keys_at h (child_slots P i)
                            \<and> key_slots P' i = key_slots P i"
  shows "keys_before h' P' a = keys_before h P a"
  unfolding keys_before_def using assms by (intro arg_cong [where f = concat] map_cong) auto

lemma keys_after_frame:
  assumes "num_items P' = num_items P"
    and "\<And>i. b \<le> i \<Longrightarrow> i < num_items P \<Longrightarrow>
           keys_at h' (child_slots P' (Suc i)) = keys_at h (child_slots P (Suc i))
           \<and> key_slots P' i = key_slots P i"
  shows "keys_after h' P' b = keys_after h P b"
  unfolding keys_after_def using assms by (intro arg_cong [where f = concat] map_cong) auto

lemma inorder_children_split:
  assumes "deref h this = Some P" and "a \<le> num_items P"
  shows "inorder_children h this
     = children_before h P a @ children_at h (child_slots P a) @ children_after h P a"
proof -
  let ?C = "\<lambda>i. children_at h (child_slots P i)"
  have "[0..<Suc (num_items P)] = [0..<a] @ [a..<Suc (num_items P)]"
    using assms(2) by (intro upt_split) simp
  also have "[a..<Suc (num_items P)] = a # [Suc a..<Suc (num_items P)]"
    using assms(2) by (intro upt_conv_Cons) simp
  finally have 1: "[0..<Suc (num_items P)] = [0..<a] @ a # [Suc a..<Suc (num_items P)]" .
  have 2: "map (\<lambda>i. ?C (Suc i)) [a..<num_items P] = map ?C [Suc a..<Suc (num_items P)]"
    by (simp only: map_Suc_upt [symmetric] map_map o_def)
  have "concat (map ?C [0..<Suc (num_items P)])
      = children_before h P a @ ?C a @ concat (map ?C [Suc a..<Suc (num_items P)])"
    by (simp only: 1 children_before_def map_append concat_append list.map concat.simps)
  then show ?thesis
    using assms(1) by (simp add: inorder_children_def children_after_def 2 del: upt_Suc)
qed

lemma children_before_Suc:
  "children_before h P (Suc a) = children_before h P a @ children_at h (child_slots P a)"
  by (simp add: children_before_def)

lemma children_after_step:
  "a < num_items P \<Longrightarrow>
   children_after h P a = children_at h (child_slots P (Suc a)) @ children_after h P (Suc a)"
  by (simp add: children_after_def upt_conv_Cons)

lemma children_before_frame:
  assumes "\<And>i. i < a \<Longrightarrow> children_at h' (child_slots P' i) = children_at h (child_slots P i)"
  shows "children_before h' P' a = children_before h P a"
  unfolding children_before_def using assms by (intro arg_cong [where f = concat] map_cong) auto

lemma children_after_frame:
  assumes "num_items P' = num_items P"
    and "\<And>i. b \<le> i \<Longrightarrow> i < num_items P \<Longrightarrow>
           children_at h' (child_slots P' (Suc i)) = children_at h (child_slots P (Suc i))"
  shows "children_after h' P' b = children_after h P b"
  unfolding children_after_def using assms by (intro arg_cong [where f = concat] map_cong) auto

lemma keys_at_other:
  "p \<noteq> nullptr \<Longrightarrow> q \<noteq> p \<Longrightarrow> keys_at (h(p \<mapsto> n)) q = keys_at h q"
  by (simp add: keys_at_def deref_def)

lemma keys_at_same:
  "p \<noteq> nullptr \<Longrightarrow> keys_at (h(p \<mapsto> n)) p = keys_of n"
  by (simp add: keys_at_def)

lemma keys_at_deref: "deref h p = Some n \<Longrightarrow> keys_at h p = keys_of n"
  by (simp add: keys_at_def)

text \<open>
  The in-order sequence around two adjacent children: everything outside the two
  children and their separator is as in the heap before.
\<close>

lemma inorder_window:
  assumes P2: "deref h2 this = Some P2" and n: "num_items P2 = num_items P"
    and pos: "0 < pos" "pos \<le> num_items P"
    and A: "keys_at h2 (child_slots P2 (pos - 1)) = A"
    and s: "key_slots P2 (pos - 1) = s"
    and B: "keys_at h2 (child_slots P2 pos) = B"
    and fc: "\<And>i. i \<le> num_items P \<Longrightarrow> i \<noteq> pos \<Longrightarrow> i \<noteq> pos - 1 \<Longrightarrow>
              keys_at h2 (child_slots P2 i) = keys_at h (child_slots P i)"
    and fk: "\<And>i. i < num_items P \<Longrightarrow> i \<noteq> pos - 1 \<Longrightarrow> key_slots P2 i = key_slots P i"
  shows "inorder_keys h2 this = keys_before h P (pos - 1) @ A @ s # B @ keys_after h P pos"
proof -
  have le: "pos - 1 \<le> num_items P2" and lt: "pos - 1 < num_items P2"
    using pos n by simp_all
  have S: "Suc (pos - 1) = pos"
    using pos by simp
  have b: "keys_before h2 P2 (pos - 1) = keys_before h P (pos - 1)"
  proof (rule keys_before_frame)
    fix i assume "i < pos - 1"
    then show "keys_at h2 (child_slots P2 i) = keys_at h (child_slots P i)
        \<and> key_slots P2 i = key_slots P i"
      using pos fc [of i] fk [of i] by simp
  qed
  have a: "keys_after h2 P2 pos = keys_after h P pos"
  proof (rule keys_after_frame [OF n])
    fix i assume "pos \<le> i" "i < num_items P"
    then show "keys_at h2 (child_slots P2 (Suc i)) = keys_at h (child_slots P (Suc i))
        \<and> key_slots P2 i = key_slots P i"
      using pos fc [of "Suc i"] fk [of i] by simp
  qed
  have "inorder_keys h2 this
      = keys_before h2 P2 (pos - 1) @ keys_at h2 (child_slots P2 (pos - 1)) @ keys_after h2 P2 (pos - 1)"
    by (rule inorder_keys_split [OF P2 le])
  also have "keys_after h2 P2 (pos - 1)
      = key_slots P2 (pos - 1) # keys_at h2 (child_slots P2 pos) @ keys_after h2 P2 pos"
    using keys_after_step [OF lt, of h2] by (simp only: S)
  finally show ?thesis
    by (simp only: a b A s B)
qed

lemma insert_ord:
  assumes "sorted_wrt (<) (take i ks @ x # drop i ks)" and "i \<le> length ks"
  shows "(i = 0 \<or> ks ! (i - 1) < x) \<and> (i = length ks \<or> x < ks ! i)"
proof -
  note s = assms(1) [unfolded sorted_wrt_append]
  have 1: "a < x" if "a \<in> set (take i ks)" for a
    using s [THEN conjunct2, THEN conjunct2] that by (meson list.set_intros(1))
  have 2: "x < b" if "b \<in> set (drop i ks)" for b
    using s [THEN conjunct2, THEN conjunct1, unfolded sorted_wrt.simps] that by blast
  have 3: "ks ! (i - 1) < x" if "i \<noteq> 0"
  proof -
    have "take i ks ! (i - 1) \<in> set (take i ks)"
      using that assms(2) by (intro nth_mem) simp
    moreover have "take i ks ! (i - 1) = ks ! (i - 1)"
      using that by simp
    ultimately show ?thesis
      using 1 by simp
  qed
  have 4: "x < ks ! i" if "i \<noteq> length ks"
  proof -
    have "drop i ks ! 0 \<in> set (drop i ks)"
      using that assms(2) by (intro nth_mem) simp
    moreover have "drop i ks ! 0 = ks ! i"
      using assms(2) by simp
    ultimately show ?thesis
      using 2 by simp
  qed
  show ?thesis
    using 3 4 by blast
qed

text \<open>The four ways the pending key meets the moved range, on lists.\<close>

lemma window_left_moved:
  assumes "ip < tm" and "tm \<le> length kC"
  shows "(take (length kL + ip + 1) (kL @ s # take (tm - 1) kC) @ x
            # drop (length kL + ip + 1) (kL @ s # take (tm - 1) kC))
          @ kC ! (tm - 1) # drop tm kC
       = kL @ s # (take ip kC @ x # drop ip kC)"
proof -
  define m where "m = tm - 1 - ip"
  have m: "m < length (drop ip kC)" "ip + m = tm - 1" "Suc (ip + m) = tm"
    using assms by (simp_all add: m_def)
  have "drop ip kC = take m (drop ip kC) @ drop ip kC ! m # drop (Suc m) (drop ip kC)"
    by (rule id_take_nth_drop [OF m(1)])
  also have "drop ip kC ! m = kC ! (tm - 1)"
    using assms m by (simp add: add.commute)
  also have "drop (Suc m) (drop ip kC) = drop tm kC"
    using m by (simp add: add.commute)
  finally have d: "drop ip kC = take m (drop ip kC) @ kC ! (tm - 1) # drop tm kC" .
  have mn: "min ip (tm - 1) = ip"
    using assms by simp
  have t: "take ip (take (tm - 1) kC) = take ip kC"
    by (simp only: take_take mn)
  have dt: "drop ip (take (tm - 1) kC) = take m (drop ip kC)"
    by (simp only: drop_take m_def)
  have "take (length kL + ip + 1) (kL @ s # take (tm - 1) kC) = kL @ s # take ip (take (tm - 1) kC)"
    by simp
  moreover have "drop (length kL + ip + 1) (kL @ s # take (tm - 1) kC) = drop ip (take (tm - 1) kC)"
    by simp
  ultimately show ?thesis
    by (simp only: t dt append_assoc append_Cons d [symmetric])
qed

lemma window_left_kept:
  assumes "tm \<le> ip" and "ip \<le> length kC" and "1 \<le> tm"
  shows "(kL @ s # take (tm - 1) kC) @ kC ! (tm - 1)
            # (take (ip - tm) (drop tm kC) @ x # drop (ip - tm) (drop tm kC))
       = kL @ s # (take ip kC @ x # drop ip kC)"
proof -
  have lt: "tm - 1 < length kC" and S: "Suc (tm - 1) = tm"
    using assms by simp_all
  have "take tm kC = take (tm - 1) kC @ [kC ! (tm - 1)]"
    using take_Suc_conv_app_nth [OF lt] by (simp only: S)
  moreover have "take ip kC = take tm kC @ take (ip - tm) (drop tm kC)"
    using assms take_add [of tm "ip - tm" kC] by simp
  ultimately show ?thesis
    using assms by simp
qed

lemma window_right_moved:
  assumes "length kC - tm < ip" and "ip \<le> length kC" and "1 \<le> tm" and "tm < length kC"
  shows "take (length kC - tm) kC @ kC ! (length kC - tm)
           # (take (ip - (length kC - tm + 1)) (drop (length kC - tm + 1) kC @ s # kR) @ x
                # drop (ip - (length kC - tm + 1)) (drop (length kC - tm + 1) kC @ s # kR))
       = (take ip kC @ x # drop ip kC) @ s # kR"
proof -
  define a where "a = length kC - tm"
  have a: "a < length kC" "Suc a \<le> ip"
    using assms by (simp_all add: a_def)
  have 1: "take (Suc a) kC = take a kC @ [kC ! a]"
    by (rule take_Suc_conv_app_nth [OF a(1)])
  have 2: "take ip kC = take (Suc a) kC @ take (ip - Suc a) (drop (Suc a) kC)"
    using a take_add [of "Suc a" "ip - Suc a" kC] by simp
  have 3: "ip - Suc a \<le> length (drop (Suc a) kC)"
    using assms a by simp
  have 4: "drop (ip - Suc a) (drop (Suc a) kC) = drop ip kC"
    using a by simp
  have "take (ip - Suc a) (drop (Suc a) kC @ s # kR) = take (ip - Suc a) (drop (Suc a) kC)"
    using 3 by simp
  moreover have "drop (ip - Suc a) (drop (Suc a) kC @ s # kR) = drop ip kC @ s # kR"
    using 3 4 by simp
  ultimately show ?thesis
    unfolding a_def [symmetric] by (simp only: 1 2 Suc_eq_plus1 [symmetric] append_assoc append_Cons append_Nil)
qed

lemma window_right_kept:
  assumes "ip \<le> length kC - tm" and "1 \<le> tm" and "tm < length kC"
  shows "(take ip (take (length kC - tm) kC) @ x # drop ip (take (length kC - tm) kC))
           @ kC ! (length kC - tm) # drop (length kC - tm + 1) kC @ s # kR
       = (take ip kC @ x # drop ip kC) @ s # kR"
proof -
  define a where "a = length kC - tm"
  define m where "m = a - ip"
  have a: "a < length kC" "ip \<le> a"
    using assms by (simp_all add: a_def)
  have m: "m < length (drop ip kC)" "ip + m = a"
    using a by (simp_all add: m_def)
  have "drop ip kC = take m (drop ip kC) @ drop ip kC ! m # drop (Suc m) (drop ip kC)"
    by (rule id_take_nth_drop [OF m(1)])
  also have "drop ip kC ! m = kC ! a"
    using a m by (simp add: add.commute)
  also have "drop (Suc m) (drop ip kC) = drop (Suc a) kC"
    using m by (simp add: add.commute)
  finally have d: "drop ip kC = take m (drop ip kC) @ kC ! a # drop (Suc a) kC" .
  have mn: "min ip a = ip"
    using a by simp
  have t: "take ip (take a kC) = take ip kC"
    by (simp only: take_take mn)
  have dt: "drop ip (take a kC) = take m (drop ip kC)"
    by (simp only: drop_take m_def)
  have d2: "take m (drop ip kC) @ kC ! a # drop (Suc a) kC @ s # kR = drop ip kC @ s # kR"
    using arg_cong [OF d, of "\<lambda>l. l @ s # kR"] by simp
  show ?thesis
    unfolding a_def [symmetric]
    by (simp only: t dt Suc_eq_plus1 [symmetric] append_assoc append_Cons d2)
qed

lemma children_at_other:
  "p \<noteq> nullptr \<Longrightarrow> q \<noteq> p \<Longrightarrow> children_at (h(p \<mapsto> n)) q = children_at h q"
  by (simp add: children_at_def deref_def)

lemma children_at_same:
  "p \<noteq> nullptr \<Longrightarrow> children_at (h(p \<mapsto> n)) p = children_of n"
  by (simp add: children_at_def)

lemma children_at_deref: "deref h p = Some n \<Longrightarrow> children_at h p = children_of n"
  by (simp add: children_at_def)

lemma inorder_children_window:
  assumes P2: "deref h2 this = Some P2" and n: "num_items P2 = num_items P"
    and pos: "0 < pos" "pos \<le> num_items P"
    and A: "children_at h2 (child_slots P2 (pos - 1)) = A"
    and B: "children_at h2 (child_slots P2 pos) = B"
    and fc: "\<And>i. i \<le> num_items P \<Longrightarrow> i \<noteq> pos \<Longrightarrow> i \<noteq> pos - 1 \<Longrightarrow>
              children_at h2 (child_slots P2 i) = children_at h (child_slots P i)"
  shows "inorder_children h2 this
     = children_before h P (pos - 1) @ A @ B @ children_after h P pos"
proof -
  have le: "pos - 1 \<le> num_items P2" and lt: "pos - 1 < num_items P2"
    using pos n by simp_all
  have S: "Suc (pos - 1) = pos"
    using pos by simp
  have b: "children_before h2 P2 (pos - 1) = children_before h P (pos - 1)"
  proof (rule children_before_frame)
    fix i assume "i < pos - 1"
    then show "children_at h2 (child_slots P2 i) = children_at h (child_slots P i)"
      using pos fc [of i] by simp
  qed
  have a: "children_after h2 P2 pos = children_after h P pos"
  proof (rule children_after_frame [OF n])
    fix i assume "pos \<le> i" "i < num_items P"
    then show "children_at h2 (child_slots P2 (Suc i)) = children_at h (child_slots P (Suc i))"
      using pos fc [of "Suc i"] by simp
  qed
  have "inorder_children h2 this
      = children_before h2 P2 (pos - 1) @ children_at h2 (child_slots P2 (pos - 1))
          @ children_after h2 P2 (pos - 1)"
    by (rule inorder_children_split [OF P2 le])
  also have "children_after h2 P2 (pos - 1)
      = children_at h2 (child_slots P2 pos) @ children_after h2 P2 pos"
    using children_after_step [OF lt, of h2] by (simp only: S)
  finally show ?thesis
    by (simp only: a b A B)
qed

text \<open>Inserting into a list cut in two at \<open>t\<close>, before and after the cut.\<close>

lemma insert_before_cut:
  assumes "i \<le> t"
  shows "take i (take t xs) @ g # drop i (take t xs) @ drop t xs = take i xs @ g # drop i xs"
proof -
  have "min i t = i"
    using assms by simp
  then have 1: "take i (take t xs) = take i xs"
    by (simp only: take_take)
  have "drop i (take t xs @ drop t xs) = drop i (take t xs) @ drop (i - length (take t xs)) (drop t xs)"
    by (rule drop_append)
  moreover have "drop (i - length (take t xs)) (drop t xs) = drop t xs"
    using assms by (cases "t \<le> length xs") simp_all
  ultimately have 2: "drop i (take t xs) @ drop t xs = drop i xs"
    by simp
  show ?thesis
    by (simp only: 1 2)
qed

lemma insert_after_cut:
  assumes "t \<le> i"
  shows "take t xs @ take (i - t) (drop t xs) @ g # drop (i - t) (drop t xs)
       = take i xs @ g # drop i xs"
proof -
  have "take i xs = take t xs @ take (i - t) (drop t xs)"
    using assms take_add [of t "i - t" xs] by simp
  moreover have "drop (i - t) (drop t xs) = drop i xs"
    using assms by simp
  ultimately show ?thesis
    by simp
qed

text \<open>
  Inserting the pending key (and, in an inner node, the child that comes with it) at a
  slot where the key is in strict order.
\<close>

lemma insert_at:
  fixes x :: "'k::ord"
  assumes A: "deref h a = Some A" and idx: "idx \<le> num_items A"
    and room: "num_items A < MaxItems cfg A" and valid: "layout_valid cfg"
    and ord: "NDEBUG cfg \<or> sorted_wrt (<) (take idx (keys_of A) @ x # drop idx (keys_of A))"
  shows "\<exists>N'. (if leaf A then LeafInsert cfg h a idx x else InnerInsert cfg h a idx x g)
          = Some (h(a \<mapsto> N'))
      \<and> keys_of N' = take idx (keys_of A) @ x # drop idx (keys_of A)
      \<and> children_of N' = (if leaf A then []
           else take (idx + 1) (children_of A) @ g # drop (idx + 1) (children_of A))"
proof -
  have ord': "NDEBUG cfg \<or> ((idx = 0 \<or> key_slots A (idx - 1) < x)
                \<and> (idx = num_items A \<or> x < key_slots A idx))"
  proof (cases "NDEBUG cfg")
    case False
    then have "sorted_wrt (<) (take idx (keys_of A) @ x # drop idx (keys_of A))"
      using ord by simp
    from insert_ord [OF this] idx
    have "(idx = 0 \<or> keys_of A ! (idx - 1) < x) \<and> (idx = num_items A \<or> x < keys_of A ! idx)"
      by simp
    moreover have "keys_of A ! (idx - 1) = key_slots A (idx - 1)" if "idx \<noteq> 0"
      using that idx by (intro keys_of_nth) simp
    moreover have "keys_of A ! idx = key_slots A idx" if "idx \<noteq> num_items A"
      using that idx by (intro keys_of_nth) simp
    ultimately show ?thesis
      by metis
  qed simp
  show ?thesis
  proof (cases "leaf A")
    case True
    from LeafInsert_spec [OF A True idx room valid ord'] True show ?thesis
      by auto
  next
    case False
    from InnerInsert_spec [OF A False idx room valid ord', of g] False show ?thesis
      by auto
  qed
qed

text \<open>
  Replacing the first or the second of two adjacent children: the in-order sequences
  change only between the two children.
\<close>

lemma window_update_first:
  assumes P': "deref h' this = Some P'" and n: "num_items P' = num_items P"
    and q: "0 < q" "q \<le> num_items P"
    and a: "child_slots P' (q - 1) = a" and an: "a \<noteq> nullptr"
    and ne: "this \<noteq> a" "child_slots P' q \<noteq> a"
    and fc: "\<And>i. i \<le> num_items P \<Longrightarrow> i \<noteq> q \<Longrightarrow> i \<noteq> q - 1 \<Longrightarrow>
              keys_at h' (child_slots P' i) = keys_at h (child_slots P i)
              \<and> children_at h' (child_slots P' i) = children_at h (child_slots P i)
              \<and> child_slots P' i \<noteq> a"
    and fk: "\<And>i. i < num_items P \<Longrightarrow> i \<noteq> q - 1 \<Longrightarrow> key_slots P' i = key_slots P i"
  shows "inorder_keys (h'(a \<mapsto> N')) this
      = keys_before h P (q - 1) @ keys_of N' @ key_slots P' (q - 1)
          # keys_at h' (child_slots P' q) @ keys_after h P q"
    and "inorder_children (h'(a \<mapsto> N')) this
      = children_before h P (q - 1) @ children_of N'
          @ children_at h' (child_slots P' q) @ children_after h P q"
proof -
  have d: "deref (h'(a \<mapsto> N')) this = Some P'"
    using P' an ne by simp
  have kA: "keys_at (h'(a \<mapsto> N')) (child_slots P' (q - 1)) = keys_of N'"
    and cA: "children_at (h'(a \<mapsto> N')) (child_slots P' (q - 1)) = children_of N'"
    unfolding a by (rule keys_at_same [OF an], rule children_at_same [OF an])
  have kB: "keys_at (h'(a \<mapsto> N')) (child_slots P' q) = keys_at h' (child_slots P' q)"
    and cB: "children_at (h'(a \<mapsto> N')) (child_slots P' q) = children_at h' (child_slots P' q)"
    by (rule keys_at_other [OF an ne(2)], rule children_at_other [OF an ne(2)])
  show "inorder_keys (h'(a \<mapsto> N')) this
      = keys_before h P (q - 1) @ keys_of N' @ key_slots P' (q - 1)
          # keys_at h' (child_slots P' q) @ keys_after h P q"
  proof (rule inorder_window [OF d n q kA refl kB])
    fix i assume i: "i \<le> num_items P" "i \<noteq> q" "i \<noteq> q - 1"
    from fc [OF i] show "keys_at (h'(a \<mapsto> N')) (child_slots P' i) = keys_at h (child_slots P i)"
      using keys_at_other [OF an, of "child_slots P' i" h' N'] by simp
  next
    fix i assume "i < num_items P" "i \<noteq> q - 1"
    then show "key_slots P' i = key_slots P i" by (rule fk)
  qed
  show "inorder_children (h'(a \<mapsto> N')) this
      = children_before h P (q - 1) @ children_of N'
          @ children_at h' (child_slots P' q) @ children_after h P q"
  proof (rule inorder_children_window [OF d n q cA cB])
    fix i assume i: "i \<le> num_items P" "i \<noteq> q" "i \<noteq> q - 1"
    from fc [OF i]
    show "children_at (h'(a \<mapsto> N')) (child_slots P' i) = children_at h (child_slots P i)"
      using children_at_other [OF an, of "child_slots P' i" h' N'] by simp
  qed
qed

lemma window_update_second:
  assumes P': "deref h' this = Some P'" and n: "num_items P' = num_items P"
    and q: "0 < q" "q \<le> num_items P"
    and b: "child_slots P' q = b" and bn: "b \<noteq> nullptr"
    and ne: "this \<noteq> b" "child_slots P' (q - 1) \<noteq> b"
    and fc: "\<And>i. i \<le> num_items P \<Longrightarrow> i \<noteq> q \<Longrightarrow> i \<noteq> q - 1 \<Longrightarrow>
              keys_at h' (child_slots P' i) = keys_at h (child_slots P i)
              \<and> children_at h' (child_slots P' i) = children_at h (child_slots P i)
              \<and> child_slots P' i \<noteq> b"
    and fk: "\<And>i. i < num_items P \<Longrightarrow> i \<noteq> q - 1 \<Longrightarrow> key_slots P' i = key_slots P i"
  shows "inorder_keys (h'(b \<mapsto> N')) this
      = keys_before h P (q - 1) @ keys_at h' (child_slots P' (q - 1)) @ key_slots P' (q - 1)
          # keys_of N' @ keys_after h P q"
    and "inorder_children (h'(b \<mapsto> N')) this
      = children_before h P (q - 1) @ children_at h' (child_slots P' (q - 1))
          @ children_of N' @ children_after h P q"
proof -
  have d: "deref (h'(b \<mapsto> N')) this = Some P'"
    using P' bn ne by simp
  have kB: "keys_at (h'(b \<mapsto> N')) (child_slots P' q) = keys_of N'"
    and cB: "children_at (h'(b \<mapsto> N')) (child_slots P' q) = children_of N'"
    unfolding b by (rule keys_at_same [OF bn], rule children_at_same [OF bn])
  have kA: "keys_at (h'(b \<mapsto> N')) (child_slots P' (q - 1)) = keys_at h' (child_slots P' (q - 1))"
    and cA: "children_at (h'(b \<mapsto> N')) (child_slots P' (q - 1))
        = children_at h' (child_slots P' (q - 1))"
    by (rule keys_at_other [OF bn ne(2)], rule children_at_other [OF bn ne(2)])
  show "inorder_keys (h'(b \<mapsto> N')) this
      = keys_before h P (q - 1) @ keys_at h' (child_slots P' (q - 1)) @ key_slots P' (q - 1)
          # keys_of N' @ keys_after h P q"
  proof (rule inorder_window [OF d n q kA refl kB])
    fix i assume i: "i \<le> num_items P" "i \<noteq> q" "i \<noteq> q - 1"
    from fc [OF i] show "keys_at (h'(b \<mapsto> N')) (child_slots P' i) = keys_at h (child_slots P i)"
      using keys_at_other [OF bn, of "child_slots P' i" h' N'] by simp
  next
    fix i assume "i < num_items P" "i \<noteq> q - 1"
    then show "key_slots P' i = key_slots P i" by (rule fk)
  qed
  show "inorder_children (h'(b \<mapsto> N')) this
      = children_before h P (q - 1) @ children_at h' (child_slots P' (q - 1))
          @ children_of N' @ children_after h P q"
  proof (rule inorder_children_window [OF d n q cA cB])
    fix i assume i: "i \<le> num_items P" "i \<noteq> q" "i \<noteq> q - 1"
    from fc [OF i]
    show "children_at (h'(b \<mapsto> N')) (child_slots P' i) = children_at h (child_slots P i)"
      using children_at_other [OF bn, of "child_slots P' i" h' N'] by simp
  qed
qed

lemma keys_at_frame3:
  assumes "a \<noteq> nullptr" "b \<noteq> nullptr" "c \<noteq> nullptr" "q \<noteq> a" "q \<noteq> b" "q \<noteq> c"
  shows "keys_at (h(a \<mapsto> A, b \<mapsto> B, c \<mapsto> C)) q = keys_at h q"
    and "children_at (h(a \<mapsto> A, b \<mapsto> B, c \<mapsto> C)) q = children_at h q"
  using assms by (simp_all add: keys_at_other children_at_other)

lemma RebalanceChild_left_insert:
  fixes x :: "'k::ord"
  assumes P: "deref h this = Some P" and inner: "\<not> leaf P"
    and pcap: "num_items P \<le> kMaxInnerKeys cfg" and pos: "0 < pos" "pos \<le> num_items P"
    and c: "child_slots P pos = c" and l: "child_slots P (pos - 1) = l"
    and C: "deref h c = Some C" and L: "deref h l = Some L"
    and dist: "this \<noteq> l" "this \<noteq> c" "l \<noteq> c"
    and kind: "leaf L = leaf C"
    and full: "num_items C = MaxItems cfg C"
    and Lne: "1 \<le> num_items L"
    and ok: "num_items L < MaxItems cfg L" "ip = num_items C \<or> num_items L + 1 < MaxItems cfg L"
    and valid: "layout_valid cfg"
    and tm: "tm = (if ip = num_items C then MaxItems cfg L - num_items L
                  else (MaxItems cfg L - num_items L) div 2)"
    and ip: "ip \<le> num_items C"
    and frame: "\<And>i. i \<le> num_items P \<Longrightarrow> i \<noteq> pos \<Longrightarrow> i \<noteq> pos - 1 \<Longrightarrow>
        child_slots P i \<noteq> l \<and> child_slots P i \<noteq> c \<and> child_slots P i \<noteq> this"
    and ord: "NDEBUG cfg \<or> sorted_wrt (<)
        (keys_before h P pos @ (take ip (keys_of C) @ x # drop ip (keys_of C)) @ keys_after h P pos)"
  shows "\<exists>h' h''. RebalanceChild cfg h this pos ip =
        Some (h', if ip < tm then l else c, if ip < tm then num_items L + ip + 1 else ip - tm)
     \<and> 1 \<le> tm \<and> tm < num_items C
     \<and> inorder_keys h' this = inorder_keys h this
     \<and> inorder_children h' this = inorder_children h this
     \<and> (if leaf C
         then LeafInsert cfg h' (if ip < tm then l else c)
                (if ip < tm then num_items L + ip + 1 else ip - tm) x
         else InnerInsert cfg h' (if ip < tm then l else c)
                (if ip < tm then num_items L + ip + 1 else ip - tm) x g) = Some h''
     \<and> (\<forall>p. p \<noteq> this \<and> p \<noteq> c \<and> p \<noteq> l \<longrightarrow> h'' p = h p)
     \<and> inorder_keys h'' this
        = keys_before h P pos @ (take ip (keys_of C) @ x # drop ip (keys_of C)) @ keys_after h P pos
     \<and> (\<not> leaf C \<longrightarrow> inorder_children h'' this
        = children_before h P pos
          @ (take (ip + 1) (children_of C) @ g # drop (ip + 1) (children_of C))
          @ children_after h P pos)"
proof -
  let ?ins = "take ip (keys_of C) @ x # drop ip (keys_of C)"
  let ?insc = "take (ip + 1) (children_of C) @ g # drop (ip + 1) (children_of C)"
  let ?s = "key_slots P (pos - 1)"
  let ?node = "if ip < tm then l else c"
  let ?idx = "if ip < tm then num_items L + ip + 1 else ip - tm"
  define P' where "P' = P\<lparr>key_slots := (key_slots P)(pos - 1 := key_slots C (tm - 1))\<rparr>"
  from RebalanceChild_left [OF P inner pcap pos c l C L dist kind full Lne ok valid tm]
  obtain L' C' where res: "RebalanceChild cfg h this pos ip =
        Some (h(l \<mapsto> L', this \<mapsto> P', c \<mapsto> C'), ?node, ?idx)"
     "1 \<le> tm" "tm < num_items C" "num_items L + tm \<le> MaxItems cfg L"
     "ip < tm \<longrightarrow> num_items L + tm < MaxItems cfg L"
     "keys_of L' = keys_of L @ ?s # take (tm - 1) (keys_of C)"
     "keys_of C' = drop tm (keys_of C)"
     "num_items L' = num_items L + tm" "num_items C' = num_items C - tm"
     "leaf L' = leaf L" "leaf C' = leaf C"
     "children_of L' = children_of L @ take tm (children_of C)"
     "children_of C' = drop tm (children_of C)"
    unfolding P'_def by blast
  define h' where "h' = h(l \<mapsto> L', this \<mapsto> P', c \<mapsto> C')"
  have nn: "this \<noteq> nullptr" "l \<noteq> nullptr" "c \<noteq> nullptr"
    using P C L by (auto dest: deref_nonnull)
  have d': "deref h' this = Some P'" "deref h' l = Some L'" "deref h' c = Some C'"
    using nn dist by (simp_all add: h'_def)
  have n: "num_items P' = num_items P" and cs: "child_slots P' = child_slots P"
    by (simp_all add: P'_def)
  have S: "Suc (tm - 1) = tm" and lt: "tm - 1 < length (keys_of C)"
    using res(2,3) by simp_all
  have s': "key_slots P' (pos - 1) = keys_of C ! (tm - 1)"
    using lt by (simp add: P'_def keys_of_nth)
  have cl: "child_slots P' (pos - 1) = l" and cc: "child_slots P' pos = c"
    using l c by (simp_all add: cs)
  have kA: "keys_at h' (child_slots P' (pos - 1)) = keys_of L'"
    and kB: "keys_at h' (child_slots P' pos) = keys_of C'"
    and cA: "children_at h' (child_slots P' (pos - 1)) = children_of L'"
    and cB: "children_at h' (child_slots P' pos) = children_of C'"
    unfolding cl cc using d' by (simp_all add: keys_at_deref children_at_deref)
  have fc: "keys_at h' (child_slots P' i) = keys_at h (child_slots P i)
      \<and> children_at h' (child_slots P' i) = children_at h (child_slots P i)
      \<and> child_slots P' i \<noteq> l \<and> child_slots P' i \<noteq> c"
    if "i \<le> num_items P" "i \<noteq> pos" "i \<noteq> pos - 1" for i
    using frame [OF that] nn unfolding cs h'_def by (simp add: keys_at_frame3)
  have fk: "key_slots P' i = key_slots P i" if "i < num_items P" "i \<noteq> pos - 1" for i
    using that by (simp add: P'_def)
  have split: "keys_of C = take (tm - 1) (keys_of C) @ keys_of C ! (tm - 1) # drop tm (keys_of C)"
    using id_take_nth_drop [OF lt] by (simp only: S)
  have io: "inorder_keys h this
      = keys_before h P (pos - 1) @ keys_of L @ ?s # keys_of C @ keys_after h P pos"
    using L C l c by (intro inorder_window [OF P refl pos]) (simp_all add: keys_at_deref)
  have "inorder_keys h' this
      = keys_before h P (pos - 1) @ keys_of L' @ (keys_of C ! (tm - 1)) # keys_of C' @ keys_after h P pos"
    using fc fk by (intro inorder_window [OF d'(1) n pos kA s' kB]) simp_all
  also have "\<dots> = keys_before h P (pos - 1) @ keys_of L @ ?s # keys_of C @ keys_after h P pos"
    unfolding res(6,7) using arg_cong [OF split, of "\<lambda>k. k @ keys_after h P pos"] by simp
  finally have same: "inorder_keys h' this = inorder_keys h this"
    using io by simp
  have ioc: "inorder_children h this
      = children_before h P (pos - 1) @ children_of L @ children_of C @ children_after h P pos"
    using L C l c by (intro inorder_children_window [OF P refl pos]) (simp_all add: children_at_deref)
  have "inorder_children h' this
      = children_before h P (pos - 1) @ children_of L' @ children_of C' @ children_after h P pos"
    using fc by (intro inorder_children_window [OF d'(1) n pos cA cB]) simp_all
  then have samec: "inorder_children h' this = inorder_children h this"
    unfolding res(12,13) ioc by simp
  have Sp: "Suc (pos - 1) = pos"
    using pos by simp
  have kb: "keys_before h P pos = keys_before h P (pos - 1) @ keys_of L @ [?s]"
    using keys_before_Suc [of h P "pos - 1"] L l by (simp only: Sp) (simp add: keys_at_deref)
  have cb: "children_before h P pos = children_before h P (pos - 1) @ children_of L"
    using children_before_Suc [of h P "pos - 1"] L l by (simp only: Sp) (simp add: children_at_deref)
  define W where "W = keys_of L @ ?s # ?ins"
  have tgt: "keys_before h P pos @ ?ins @ keys_after h P pos
      = keys_before h P (pos - 1) @ W @ keys_after h P pos"
    by (simp add: kb W_def)
  have ordW: "NDEBUG cfg \<or> sorted_wrt (<) W"
  proof (cases "NDEBUG cfg")
    case False
    then have "sorted_wrt (<) (keys_before h P (pos - 1) @ W @ keys_after h P pos)"
      using ord by (simp only: tgt simp_thms)
    then show ?thesis
      by (simp only: sorted_wrt_append simp_thms)
  qed simp
  have "\<exists>N'. (if leaf C then LeafInsert cfg h' ?node ?idx x
               else InnerInsert cfg h' ?node ?idx x g) = Some (h'(?node \<mapsto> N'))
     \<and> inorder_keys (h'(?node \<mapsto> N')) this = keys_before h P (pos - 1) @ W @ keys_after h P pos
     \<and> (\<not> leaf C \<longrightarrow> inorder_children (h'(?node \<mapsto> N')) this
          = children_before h P (pos - 1) @ (children_of L @ ?insc) @ children_after h P pos)"
  proof (cases "ip < tm")
    case True
    have ne: "child_slots P' pos \<noteq> l"
      unfolding cc by (rule dist(3) [symmetric])
    have idx: "num_items L + ip + 1 \<le> num_items L'"
      using True res(8) by simp
    have room: "num_items L' < MaxItems cfg L'"
      using True res(5,8,10) by (simp add: MaxItems_def)
    have Weq: "(take (num_items L + ip + 1) (keys_of L') @ x # drop (num_items L + ip + 1) (keys_of L'))
          @ key_slots P' (pos - 1) # keys_of C' = W"
      using window_left_moved [OF True, where kC = "keys_of C" and s = ?s
          and kL = "keys_of L" and x = x] res(3) s'
      by (simp add: res(6,7) W_def)
    have ordN: "NDEBUG cfg \<or> sorted_wrt (<)
        (take (num_items L + ip + 1) (keys_of L') @ x # drop (num_items L + ip + 1) (keys_of L'))"
      using ordW unfolding Weq [symmetric] sorted_wrt_append by blast
    from insert_at [OF d'(2) idx room valid ordN, of g]
    obtain N' where r: "(if leaf C then LeafInsert cfg h' l (num_items L + ip + 1) x
               else InnerInsert cfg h' l (num_items L + ip + 1) x g) = Some (h'(l \<mapsto> N'))"
        "keys_of N' = take (num_items L + ip + 1) (keys_of L') @ x # drop (num_items L + ip + 1) (keys_of L')"
        "children_of N' = (if leaf C then []
           else take (num_items L + ip + 1 + 1) (children_of L') @ g
                  # drop (num_items L + ip + 1 + 1) (children_of L'))"
      unfolding res(10) kind by blast
    have fc1: "keys_at h' (child_slots P' i) = keys_at h (child_slots P i)
        \<and> children_at h' (child_slots P' i) = children_at h (child_slots P i)
        \<and> child_slots P' i \<noteq> l"
      if "i \<le> num_items P" "i \<noteq> pos" "i \<noteq> pos - 1" for i
      using fc [OF that] by simp
    have u: "inorder_keys (h'(l \<mapsto> N')) this
          = keys_before h P (pos - 1) @ keys_of N' @ key_slots P' (pos - 1)
              # keys_of C' @ keys_after h P pos"
        "inorder_children (h'(l \<mapsto> N')) this
          = children_before h P (pos - 1) @ children_of N' @ children_of C' @ children_after h P pos"
      by (rule window_update_first [OF d'(1) n pos cl nn(2) dist(1) ne, where N' = N', unfolded kB cB];
          use fc1 fk in simp)+
    have k: "inorder_keys (h'(l \<mapsto> N')) this = keys_before h P (pos - 1) @ W @ keys_after h P pos"
      unfolding u(1) r(2) using Weq by simp
    have ch: "inorder_children (h'(l \<mapsto> N')) this
          = children_before h P (pos - 1) @ (children_of L @ ?insc) @ children_after h P pos"
      if nl: "\<not> leaf C"
    proof -
      have len: "length (children_of L) = num_items L + 1"
        using nl kind by simp
      have "children_of N' @ children_of C' = children_of L @ ?insc"
        using nl len True insert_before_cut [of "ip + 1" tm "children_of C" g]
        by (simp add: r(3) res(12,13))
      then show ?thesis
        unfolding u(2) by simp
    qed
    show ?thesis
      unfolding if_P [OF True] using r(1) k ch by blast
  next
    case False
    have ne: "child_slots P' (pos - 1) \<noteq> c"
      unfolding cl by (rule dist(3))
    have idx: "ip - tm \<le> num_items C'"
      using ip res(9) by simp
    have room: "num_items C' < MaxItems cfg C'"
      using res(2,3,9,11) full by (simp add: MaxItems_def)
    have Weq: "keys_of L' @ key_slots P' (pos - 1)
          # (take (ip - tm) (keys_of C') @ x # drop (ip - tm) (keys_of C')) = W"
      using window_left_kept [where ip = ip and kC = "keys_of C" and tm = tm and s = ?s
          and kL = "keys_of L" and x = x] False ip res(2) s'
      by (simp add: res(6,7) W_def)
    have ordN: "NDEBUG cfg \<or> sorted_wrt (<)
        (take (ip - tm) (keys_of C') @ x # drop (ip - tm) (keys_of C'))"
      using ordW unfolding Weq [symmetric] sorted_wrt_append sorted_wrt.simps(2) by blast
    from insert_at [OF d'(3) idx room valid ordN, of g]
    obtain N' where r: "(if leaf C then LeafInsert cfg h' c (ip - tm) x
               else InnerInsert cfg h' c (ip - tm) x g) = Some (h'(c \<mapsto> N'))"
        "keys_of N' = take (ip - tm) (keys_of C') @ x # drop (ip - tm) (keys_of C')"
        "children_of N' = (if leaf C then []
           else take (ip - tm + 1) (children_of C') @ g # drop (ip - tm + 1) (children_of C'))"
      unfolding res(11) by blast
    have fc2: "keys_at h' (child_slots P' i) = keys_at h (child_slots P i)
        \<and> children_at h' (child_slots P' i) = children_at h (child_slots P i)
        \<and> child_slots P' i \<noteq> c"
      if "i \<le> num_items P" "i \<noteq> pos" "i \<noteq> pos - 1" for i
      using fc [OF that] by simp
    have u: "inorder_keys (h'(c \<mapsto> N')) this
          = keys_before h P (pos - 1) @ keys_of L' @ key_slots P' (pos - 1)
              # keys_of N' @ keys_after h P pos"
        "inorder_children (h'(c \<mapsto> N')) this
          = children_before h P (pos - 1) @ children_of L' @ children_of N' @ children_after h P pos"
      by (rule window_update_second [OF d'(1) n pos cc nn(3) dist(2) ne, where N' = N', unfolded kA cA];
          use fc2 fk in simp)+
    have k: "inorder_keys (h'(c \<mapsto> N')) this = keys_before h P (pos - 1) @ W @ keys_after h P pos"
      unfolding u(1) r(2) using Weq by simp
    have ch: "inorder_children (h'(c \<mapsto> N')) this
          = children_before h P (pos - 1) @ (children_of L @ ?insc) @ children_after h P pos"
      if nl: "\<not> leaf C"
    proof -
      have e: "Suc ip - tm = Suc (ip - tm)" and le: "tm \<le> ip + 1"
        using False by simp_all
      have "children_of L' @ children_of N' = children_of L @ ?insc"
        using nl insert_after_cut [OF le, of "children_of C" g]
        by (simp add: r(3) res(12,13) e)
      then show ?thesis
        unfolding u(2) by simp
    qed
    show ?thesis
      unfolding if_not_P [OF False] using r(1) k ch by blast
  qed
  then obtain N' where fin: "(if leaf C then LeafInsert cfg h' ?node ?idx x
               else InnerInsert cfg h' ?node ?idx x g) = Some (h'(?node \<mapsto> N'))"
     "inorder_keys (h'(?node \<mapsto> N')) this = keys_before h P (pos - 1) @ W @ keys_after h P pos"
     "\<not> leaf C \<longrightarrow> inorder_children (h'(?node \<mapsto> N')) this
          = children_before h P (pos - 1) @ (children_of L @ ?insc) @ children_after h P pos"
    by blast
  have fr: "\<forall>p. p \<noteq> this \<and> p \<noteq> c \<and> p \<noteq> l \<longrightarrow> (h'(?node \<mapsto> N')) p = h p"
    by (simp add: h'_def)
  have fin3: "\<not> leaf C \<longrightarrow> inorder_children (h'(?node \<mapsto> N')) this
        = children_before h P pos @ ?insc @ children_after h P pos"
    using fin(3) by (simp add: cb)
  show ?thesis
    using res(1-3) same samec fin(1) fr fin(2) fin3 unfolding h'_def [symmetric] tgt
    by (intro exI [of _ h'] exI [of _ "h'(?node \<mapsto> N')"]) (simp only: simp_thms)
qed

lemma RebalanceChild_right_insert:
  fixes x :: "'k::ord"
  assumes P: "deref h this = Some P" and inner: "\<not> leaf P"
    and pcap: "num_items P \<le> kMaxInnerKeys cfg" and pos: "pos < num_items P"
    and c: "child_slots P pos = c" and r: "child_slots P (pos + 1) = r"
    and C: "deref h c = Some C" and R: "deref h r = Some R"
    and dist: "this \<noteq> r" "this \<noteq> c" "r \<noteq> c"
    and kind: "leaf R = leaf C"
    and full: "num_items C = MaxItems cfg C"
    and Rne: "1 \<le> num_items R"
    and ok: "num_items R < MaxItems cfg R" "ip = 0 \<or> num_items R + 1 < MaxItems cfg R"
    and valid: "layout_valid cfg"
    and tm: "tm = (if ip = 0 then MaxItems cfg R - num_items R
                  else (MaxItems cfg R - num_items R) div 2)"
    and ip: "ip \<le> num_items C"
    and frame: "\<And>i. i \<le> num_items P \<Longrightarrow> i \<noteq> pos \<Longrightarrow> i \<noteq> pos + 1 \<Longrightarrow>
        child_slots P i \<noteq> r \<and> child_slots P i \<noteq> c \<and> child_slots P i \<noteq> this"
    and ord: "NDEBUG cfg \<or> sorted_wrt (<)
        (keys_before h P pos @ (take ip (keys_of C) @ x # drop ip (keys_of C)) @ keys_after h P pos)"
  shows "\<exists>h' h''. RebalanceChild_right cfg h this pos ip c =
        Some (h', if num_items C - tm < ip then r else c,
              if num_items C - tm < ip then ip - (num_items C - tm + 1) else ip)
     \<and> 1 \<le> tm \<and> tm < num_items C
     \<and> inorder_keys h' this = inorder_keys h this
     \<and> inorder_children h' this = inorder_children h this
     \<and> (if leaf C
         then LeafInsert cfg h' (if num_items C - tm < ip then r else c)
                (if num_items C - tm < ip then ip - (num_items C - tm + 1) else ip) x
         else InnerInsert cfg h' (if num_items C - tm < ip then r else c)
                (if num_items C - tm < ip then ip - (num_items C - tm + 1) else ip) x g) = Some h''
     \<and> (\<forall>p. p \<noteq> this \<and> p \<noteq> c \<and> p \<noteq> r \<longrightarrow> h'' p = h p)
     \<and> inorder_keys h'' this
        = keys_before h P pos @ (take ip (keys_of C) @ x # drop ip (keys_of C)) @ keys_after h P pos
     \<and> (\<not> leaf C \<longrightarrow> inorder_children h'' this
        = children_before h P pos
          @ (take (ip + 1) (children_of C) @ g # drop (ip + 1) (children_of C))
          @ children_after h P pos)"
proof -
  let ?ins = "take ip (keys_of C) @ x # drop ip (keys_of C)"
  let ?insc = "take (ip + 1) (children_of C) @ g # drop (ip + 1) (children_of C)"
  let ?s = "key_slots P pos"
  let ?n = "num_items C"
  let ?node = "if ?n - tm < ip then r else c"
  let ?idx = "if ?n - tm < ip then ip - (?n - tm + 1) else ip"
  define P' where "P' = P\<lparr>key_slots := (key_slots P)(pos := key_slots C (?n - tm))\<rparr>"
  from RebalanceChild_right_ok [OF P inner pcap pos c r C R dist kind full Rne ok valid tm]
  obtain R' C' where res: "RebalanceChild_right cfg h this pos ip c =
        Some (h(r \<mapsto> R', this \<mapsto> P', c \<mapsto> C'), ?node, ?idx)"
     "1 \<le> tm" "tm < ?n" "num_items R + tm \<le> MaxItems cfg R"
     "ip \<noteq> 0 \<longrightarrow> num_items R + tm < MaxItems cfg R"
     "keys_of R' = drop (?n - tm + 1) (keys_of C) @ ?s # keys_of R"
     "keys_of C' = take (?n - tm) (keys_of C)"
     "num_items R' = num_items R + tm" "num_items C' = ?n - tm"
     "leaf R' = leaf R" "leaf C' = leaf C"
     "children_of R' = drop (?n - tm + 1) (children_of C) @ children_of R"
     "children_of C' = take (?n - tm + 1) (children_of C)"
    unfolding P'_def by blast
  define h' where "h' = h(r \<mapsto> R', this \<mapsto> P', c \<mapsto> C')"
  define q where "q = Suc pos"
  have q: "0 < q" "q \<le> num_items P" "q - 1 = pos" "q - Suc 0 = pos"
    using pos by (simp_all add: q_def)
  have nn: "this \<noteq> nullptr" "r \<noteq> nullptr" "c \<noteq> nullptr"
    using P C R by (auto dest: deref_nonnull)
  have d': "deref h' this = Some P'" "deref h' r = Some R'" "deref h' c = Some C'"
    using nn dist by (simp_all add: h'_def)
  have n: "num_items P' = num_items P" and cs: "child_slots P' = child_slots P"
    by (simp_all add: P'_def)
  have lt: "?n - tm < length (keys_of C)" and len: "length (keys_of C) = ?n"
    using res(2,3) by simp_all
  have s': "key_slots P' (q - 1) = keys_of C ! (?n - tm)"
    using lt by (simp add: P'_def keys_of_nth q)
  have cq: "child_slots P q = r" "child_slots P (q - 1) = c"
    using r c by (simp_all add: q_def)
  have cq': "child_slots P' q = r" "child_slots P' (q - 1) = c"
    unfolding cs by (rule cq)+
  have kA: "keys_at h' (child_slots P' (q - 1)) = keys_of C'"
    and kB: "keys_at h' (child_slots P' q) = keys_of R'"
    and cA: "children_at h' (child_slots P' (q - 1)) = children_of C'"
    and cB: "children_at h' (child_slots P' q) = children_of R'"
    unfolding cq' using d' by (simp_all add: keys_at_deref children_at_deref)
  have fc: "keys_at h' (child_slots P' i) = keys_at h (child_slots P i)
      \<and> children_at h' (child_slots P' i) = children_at h (child_slots P i)
      \<and> child_slots P' i \<noteq> r \<and> child_slots P' i \<noteq> c"
    if "i \<le> num_items P" "i \<noteq> q" "i \<noteq> q - 1" for i
  proof -
    have "child_slots P i \<noteq> r \<and> child_slots P i \<noteq> c \<and> child_slots P i \<noteq> this"
      using that by (intro frame) (simp_all add: q_def)
    then show ?thesis
      using nn unfolding cs h'_def by (simp add: keys_at_frame3)
  qed
  have fk: "key_slots P' i = key_slots P i" if "i < num_items P" "i \<noteq> q - 1" for i
    using that by (simp add: P'_def q)
  have split: "keys_of C
      = take (?n - tm) (keys_of C) @ keys_of C ! (?n - tm) # drop (?n - tm + 1) (keys_of C)"
    using id_take_nth_drop [OF lt] by simp
  have io: "inorder_keys h this
      = keys_before h P (q - 1) @ keys_of C @ key_slots P (q - 1) # keys_of R @ keys_after h P q"
    using R C cq by (intro inorder_window [OF P refl q(1,2)]) (simp_all add: keys_at_deref)
  have "inorder_keys h' this
      = keys_before h P (q - 1) @ keys_of C' @ (keys_of C ! (?n - tm)) # keys_of R' @ keys_after h P q"
    using fc fk by (intro inorder_window [OF d'(1) n q(1,2) kA s' kB]) simp_all
  also have "\<dots> = keys_before h P (q - 1) @ keys_of C @ key_slots P (q - 1) # keys_of R @ keys_after h P q"
    unfolding res(6,7) q(3)
    using arg_cong [OF split, of "\<lambda>k. k @ ?s # keys_of R @ keys_after h P q"] by simp
  finally have same: "inorder_keys h' this = inorder_keys h this"
    using io by simp
  have ioc: "inorder_children h this
      = children_before h P (q - 1) @ children_of C @ children_of R @ children_after h P q"
    using R C cq by (intro inorder_children_window [OF P refl q(1,2)]) (simp_all add: children_at_deref)
  have "inorder_children h' this
      = children_before h P (q - 1) @ children_of C' @ children_of R' @ children_after h P q"
    using fc by (intro inorder_children_window [OF d'(1) n q(1,2) cA cB]) simp_all
  then have samec: "inorder_children h' this = inorder_children h this"
    unfolding res(12,13) ioc by simp
  have ka: "keys_after h P pos = ?s # keys_of R @ keys_after h P q"
    using keys_after_step [OF pos, of h] R cq by (simp add: keys_at_deref q_def)
  have ca: "children_after h P pos = children_of R @ children_after h P q"
    using children_after_step [OF pos, of h] R cq by (simp add: children_at_deref q_def)
  define W where "W = ?ins @ ?s # keys_of R"
  have tgt: "keys_before h P pos @ ?ins @ keys_after h P pos
      = keys_before h P (q - 1) @ W @ keys_after h P q"
    by (simp add: ka W_def q)
  have ordW: "NDEBUG cfg \<or> sorted_wrt (<) W"
  proof (cases "NDEBUG cfg")
    case False
    then have "sorted_wrt (<) (keys_before h P (q - 1) @ W @ keys_after h P q)"
      using ord by (simp only: tgt simp_thms)
    then show ?thesis
      by (simp only: sorted_wrt_append simp_thms)
  qed simp
  have "\<exists>N'. (if leaf C then LeafInsert cfg h' ?node ?idx x
               else InnerInsert cfg h' ?node ?idx x g) = Some (h'(?node \<mapsto> N'))
     \<and> inorder_keys (h'(?node \<mapsto> N')) this = keys_before h P (q - 1) @ W @ keys_after h P q
     \<and> (\<not> leaf C \<longrightarrow> inorder_children (h'(?node \<mapsto> N')) this
          = children_before h P (q - 1) @ (?insc @ children_of R) @ children_after h P q)"
  proof (cases "?n - tm < ip")
    case True
    have ne: "child_slots P' (q - 1) \<noteq> r"
      unfolding cq' by (rule dist(3) [symmetric])
    have idx: "ip - (?n - tm + 1) \<le> num_items R'"
      using True ip res(8) by simp
    have room: "num_items R' < MaxItems cfg R'"
      using True res(5,8,10) by (simp add: MaxItems_def)
    have Weq: "keys_of C' @ key_slots P' (q - 1)
          # (take (ip - (?n - tm + 1)) (keys_of R') @ x # drop (ip - (?n - tm + 1)) (keys_of R')) = W"
      using window_right_moved [where ip = ip and kC = "keys_of C" and tm = tm and s = ?s
          and kR = "keys_of R" and x = x] True ip res(2,3) s'
      by (simp add: res(6,7) W_def)
    have ordN: "NDEBUG cfg \<or> sorted_wrt (<)
        (take (ip - (?n - tm + 1)) (keys_of R') @ x # drop (ip - (?n - tm + 1)) (keys_of R'))"
      using ordW unfolding Weq [symmetric] sorted_wrt_append sorted_wrt.simps(2) by blast
    from insert_at [OF d'(2) idx room valid ordN, of g]
    obtain N' where i: "(if leaf C then LeafInsert cfg h' r (ip - (?n - tm + 1)) x
               else InnerInsert cfg h' r (ip - (?n - tm + 1)) x g) = Some (h'(r \<mapsto> N'))"
        "keys_of N' = take (ip - (?n - tm + 1)) (keys_of R') @ x # drop (ip - (?n - tm + 1)) (keys_of R')"
        "children_of N' = (if leaf C then []
           else take (ip - (?n - tm + 1) + 1) (children_of R') @ g
                  # drop (ip - (?n - tm + 1) + 1) (children_of R'))"
      unfolding res(10) kind by blast
    have fc2: "keys_at h' (child_slots P' i) = keys_at h (child_slots P i)
        \<and> children_at h' (child_slots P' i) = children_at h (child_slots P i)
        \<and> child_slots P' i \<noteq> r"
      if "i \<le> num_items P" "i \<noteq> q" "i \<noteq> q - 1" for i
      using fc [OF that] by simp
    have u: "inorder_keys (h'(r \<mapsto> N')) this
          = keys_before h P (q - 1) @ keys_of C' @ key_slots P' (q - 1)
              # keys_of N' @ keys_after h P q"
        "inorder_children (h'(r \<mapsto> N')) this
          = children_before h P (q - 1) @ children_of C' @ children_of N' @ children_after h P q"
      by (rule window_update_second [OF d'(1) n q(1,2) cq'(1) nn(2) dist(1) ne, where N' = N',
            unfolded kA cA];
          use fc2 fk in simp)+
    have k: "inorder_keys (h'(r \<mapsto> N')) this = keys_before h P (q - 1) @ W @ keys_after h P q"
      unfolding u(1) i(2) using Weq by simp
    have ch: "inorder_children (h'(r \<mapsto> N')) this
          = children_before h P (q - 1) @ (?insc @ children_of R) @ children_after h P q"
      if nl: "\<not> leaf C"
    proof -
      define t where "t = ?n - tm + 1"
      have le: "t \<le> ip + 1" and e: "ip - t + 1 = ip + 1 - t"
        and b: "ip + 1 - t \<le> length (drop t (children_of C))"
        using True ip nl res(2,3) by (simp_all add: t_def)
      have "children_of C' @ children_of N'
          = take t (children_of C) @ take (ip + 1 - t) (drop t (children_of C)) @ g
              # drop (ip + 1 - t) (drop t (children_of C)) @ children_of R"
        using nl b unfolding i(3) res(12,13) t_def [symmetric] e by simp
      also have "\<dots> = ?insc @ children_of R"
        using arg_cong [OF insert_after_cut [OF le, of "children_of C" g],
            of "\<lambda>k. k @ children_of R"] by simp
      finally show ?thesis
        unfolding u(2) by simp
    qed
    show ?thesis
      unfolding if_P [OF True] using i(1) k ch by blast
  next
    case False
    have ne: "child_slots P' q \<noteq> c"
      unfolding cq' by (rule dist(3))
    have idx: "ip \<le> num_items C'"
      using False res(9) by simp
    have room: "num_items C' < MaxItems cfg C'"
      using res(2,3,9,11) full by (simp add: MaxItems_def)
    have Weq: "(take ip (keys_of C') @ x # drop ip (keys_of C'))
          @ key_slots P' (q - 1) # keys_of R' = W"
      using window_right_kept [where ip = ip and kC = "keys_of C" and tm = tm and s = ?s
          and kR = "keys_of R" and x = x] False res(2,3) s'
      by (simp add: res(6,7) W_def)
    have ordN: "NDEBUG cfg \<or> sorted_wrt (<) (take ip (keys_of C') @ x # drop ip (keys_of C'))"
      using ordW unfolding Weq [symmetric] sorted_wrt_append by blast
    from insert_at [OF d'(3) idx room valid ordN, of g]
    obtain N' where i: "(if leaf C then LeafInsert cfg h' c ip x
               else InnerInsert cfg h' c ip x g) = Some (h'(c \<mapsto> N'))"
        "keys_of N' = take ip (keys_of C') @ x # drop ip (keys_of C')"
        "children_of N' = (if leaf C then []
           else take (ip + 1) (children_of C') @ g # drop (ip + 1) (children_of C'))"
      unfolding res(11) by blast
    have fc1: "keys_at h' (child_slots P' i) = keys_at h (child_slots P i)
        \<and> children_at h' (child_slots P' i) = children_at h (child_slots P i)
        \<and> child_slots P' i \<noteq> c"
      if "i \<le> num_items P" "i \<noteq> q" "i \<noteq> q - 1" for i
      using fc [OF that] by simp
    have u: "inorder_keys (h'(c \<mapsto> N')) this
          = keys_before h P (q - 1) @ keys_of N' @ key_slots P' (q - 1)
              # keys_of R' @ keys_after h P q"
        "inorder_children (h'(c \<mapsto> N')) this
          = children_before h P (q - 1) @ children_of N' @ children_of R' @ children_after h P q"
      by (rule window_update_first [OF d'(1) n q(1,2) cq'(2) nn(3) dist(2) ne, where N' = N',
            unfolded kB cB];
          use fc1 fk in simp)+
    have k: "inorder_keys (h'(c \<mapsto> N')) this = keys_before h P (q - 1) @ W @ keys_after h P q"
      unfolding u(1) i(2) using Weq by simp
    have ch: "inorder_children (h'(c \<mapsto> N')) this
          = children_before h P (q - 1) @ (?insc @ children_of R) @ children_after h P q"
      if nl: "\<not> leaf C"
    proof -
      define t where "t = ?n - tm + 1"
      have le: "ip + 1 \<le> t"
        using False by (simp add: t_def)
      have "children_of N' @ children_of R'
          = (take (ip + 1) (take t (children_of C)) @ g # drop (ip + 1) (take t (children_of C))
              @ drop t (children_of C)) @ children_of R"
        using nl unfolding i(3) res(12,13) t_def [symmetric] by simp
      also have "\<dots> = ?insc @ children_of R"
        unfolding insert_before_cut [OF le] by simp
      finally show ?thesis
        unfolding u(2) by simp
    qed
    show ?thesis
      unfolding if_not_P [OF False] using i(1) k ch by blast
  qed
  then obtain N' where fin: "(if leaf C then LeafInsert cfg h' ?node ?idx x
               else InnerInsert cfg h' ?node ?idx x g) = Some (h'(?node \<mapsto> N'))"
     "inorder_keys (h'(?node \<mapsto> N')) this = keys_before h P (q - 1) @ W @ keys_after h P q"
     "\<not> leaf C \<longrightarrow> inorder_children (h'(?node \<mapsto> N')) this
          = children_before h P (q - 1) @ (?insc @ children_of R) @ children_after h P q"
    by blast
  have fr: "\<forall>p. p \<noteq> this \<and> p \<noteq> c \<and> p \<noteq> r \<longrightarrow> (h'(?node \<mapsto> N')) p = h p"
    by (simp add: h'_def)
  have fin3: "\<not> leaf C \<longrightarrow> inorder_children (h'(?node \<mapsto> N')) this
        = children_before h P pos @ ?insc @ children_after h P pos"
    using fin(3) by (simp add: ca q)
  show ?thesis
    using res(1-3) same samec fin(1) fr fin(2) fin3 unfolding h'_def [symmetric] tgt
    by (intro exI [of _ h'] exI [of _ "h'(?node \<mapsto> N')"]) (simp only: simp_thms)
qed

lemma children_distinct:
  assumes "\<not> leaf P" and "distinct (children_of P)" and "i \<le> num_items P" and "j \<le> num_items P"
    and "i \<noteq> j"
  shows "child_slots P i \<noteq> child_slots P j"
proof -
  have "children_of P ! i \<noteq> children_of P ! j"
    using assms by (simp add: nth_eq_iff_index_eq)
  then show ?thesis
    using assms by (simp add: children_of_nth)
qed

lemma children_not_this:
  assumes "\<not> leaf P" and "this \<notin> set (children_of P)" and "i \<le> num_items P"
  shows "child_slots P i \<noteq> this"
proof -
  have "children_of P ! i \<in> set (children_of P)"
    using assms by (intro nth_mem) simp
  then show ?thesis
    using assms by (auto simp: children_of_nth)
qed

text \<open>
  C4. \<open>RebalanceChild(pos, insert_pos)\<close> on an inner node whose child at \<open>pos\<close> is
  full; the children of the node are distinct nodes, the siblings that exist are
  non-empty nodes of the kind of the child within capacity. The call returns, and it
  returns a node exactly when items went to a sibling. That node and the returned
  position then designate the slot the pending key had in the child: when items went to
  the left sibling and \<open>insert_pos\<close> is below \<open>to_move\<close>, the result is the left
  sibling with position \<open>old count + insert_pos + 1\<close>, otherwise the child with
  \<open>insert_pos - to_move\<close>; when items went to the right sibling and \<open>insert_pos\<close>
  is above \<open>count - to_move\<close>, the result is the right sibling with position
  \<open>insert_pos - (count - to_move + 1)\<close>, otherwise the child with \<open>insert_pos\<close>.
  The rebalancing keeps the in-order sequence of the keys of the node and its children,
  and the sequence of the children of its children. Inserting the pending key at the
  returned node and position (\<open>LeafInsert\<close> in a leaf, \<open>InnerInsert\<close> with the
  child \<open>g\<close> that comes with the key in an inner node) returns: its order assertions
  hold when the key is in strict order at its slot in the child. It gives the in-order
  key sequence with the key inserted at \<open>insert_pos\<close> among the keys of the child at
  \<open>pos\<close>, and the sequence of children with \<open>g\<close> inserted at \<open>insert_pos + 1\<close>
  among the children of that child; the nodes other than this node, the child and the
  sibling used are as before the call.
\<close>

theorem C4_RebalanceChild_insert_slot:
  fixes x :: "'k::ord"
  assumes P: "deref h this = Some P" and inner: "\<not> leaf P"
    and pcap: "num_items P \<le> kMaxInnerKeys cfg" and pos: "pos \<le> num_items P"
    and c: "child_slots P pos = c" and C: "deref h c = Some C"
    and full: "num_items C = MaxItems cfg C" and ip: "ip \<le> num_items C"
    and dc: "distinct (children_of P)" and tn: "this \<notin> set (children_of P)"
    and left: "0 < pos \<Longrightarrow> child_slots P (pos - 1) = l \<and> deref h l = Some L
        \<and> leaf L = leaf C \<and> 1 \<le> num_items L \<and> num_items L \<le> MaxItems cfg L"
    and right: "pos < num_items P \<Longrightarrow> child_slots P (pos + 1) = r \<and> deref h r = Some R
        \<and> leaf R = leaf C \<and> 1 \<le> num_items R \<and> num_items R \<le> MaxItems cfg R"
    and valid: "layout_valid cfg"
    and left_ok: "left_ok \<longleftrightarrow> 0 < pos \<and> num_items L < MaxItems cfg L
        \<and> (ip = num_items C \<or> num_items L + 1 < MaxItems cfg L)"
    and right_ok: "right_ok \<longleftrightarrow> pos < num_items P \<and> num_items R < MaxItems cfg R
        \<and> (ip = 0 \<or> num_items R + 1 < MaxItems cfg R)"
    and to_left: "to_left = (if ip = num_items C then MaxItems cfg L - num_items L
                  else (MaxItems cfg L - num_items L) div 2)"
    and to_right: "to_right = (if ip = 0 then MaxItems cfg R - num_items R
                  else (MaxItems cfg R - num_items R) div 2)"
    and ord: "NDEBUG cfg \<or> sorted_wrt (<)
        (keys_before h P pos @ (take ip (keys_of C) @ x # drop ip (keys_of C)) @ keys_after h P pos)"
  shows "inorder_keys h this = keys_before h P pos @ keys_of C @ keys_after h P pos
     \<and> (\<exists>h' node' ip'. RebalanceChild cfg h this pos ip = Some (h', node', ip')
        \<and> (node' \<noteq> nullptr \<longleftrightarrow> left_ok \<or> right_ok)
        \<and> (node' \<noteq> nullptr \<longrightarrow>
            (node', ip') =
              (if left_ok
               then (if ip < to_left then (l, num_items L + ip + 1) else (c, ip - to_left))
               else (if num_items C - to_right < ip then (r, ip - (num_items C - to_right + 1))
                     else (c, ip)))
          \<and> inorder_keys h' this = inorder_keys h this
          \<and> inorder_children h' this = inorder_children h this
          \<and> (\<exists>h''. (if leaf C then LeafInsert cfg h' node' ip' x
                     else InnerInsert cfg h' node' ip' x g) = Some h''
               \<and> (\<forall>p. p \<noteq> this \<and> p \<noteq> c \<and> p \<noteq> (if left_ok then l else r) \<longrightarrow> h'' p = h p)
               \<and> inorder_keys h'' this
                  = keys_before h P pos @ (take ip (keys_of C) @ x # drop ip (keys_of C))
                      @ keys_after h P pos
               \<and> (\<not> leaf C \<longrightarrow> inorder_children h'' this
                  = children_before h P pos
                      @ (take (ip + 1) (children_of C) @ g # drop (ip + 1) (children_of C))
                      @ children_after h P pos))))"
proof -
  have io: "inorder_keys h this = keys_before h P pos @ keys_of C @ keys_after h P pos"
    using inorder_keys_split [OF P pos] c C by (simp add: keys_at_deref)
  have tc: "this \<noteq> c"
    using children_not_this [OF inner tn pos] c by auto
  have cn: "c \<noteq> nullptr"
    using C by (rule deref_nonnull)
  have "\<exists>h' node' ip'. RebalanceChild cfg h this pos ip = Some (h', node', ip')
        \<and> (node' \<noteq> nullptr \<longleftrightarrow> left_ok \<or> right_ok)
        \<and> (node' \<noteq> nullptr \<longrightarrow>
            (node', ip') =
              (if left_ok
               then (if ip < to_left then (l, num_items L + ip + 1) else (c, ip - to_left))
               else (if num_items C - to_right < ip then (r, ip - (num_items C - to_right + 1))
                     else (c, ip)))
          \<and> inorder_keys h' this = inorder_keys h this
          \<and> inorder_children h' this = inorder_children h this
          \<and> (\<exists>h''. (if leaf C then LeafInsert cfg h' node' ip' x
                     else InnerInsert cfg h' node' ip' x g) = Some h''
               \<and> (\<forall>p. p \<noteq> this \<and> p \<noteq> c \<and> p \<noteq> (if left_ok then l else r) \<longrightarrow> h'' p = h p)
               \<and> inorder_keys h'' this
                  = keys_before h P pos @ (take ip (keys_of C) @ x # drop ip (keys_of C))
                      @ keys_after h P pos
               \<and> (\<not> leaf C \<longrightarrow> inorder_children h'' this
                  = children_before h P pos
                      @ (take (ip + 1) (children_of C) @ g # drop (ip + 1) (children_of C))
                      @ children_after h P pos)))"
  proof (cases left_ok)
    case True
    then have p: "0 < pos" and ok: "num_items L < MaxItems cfg L"
        "ip = num_items C \<or> num_items L + 1 < MaxItems cfg L"
      using left_ok by auto
    note f = left [OF p]
    have l: "child_slots P (pos - 1) = l" and L: "deref h l = Some L"
      and k: "leaf L = leaf C" and Lne: "1 \<le> num_items L"
      using f by simp_all
    have p1: "pos - 1 \<le> num_items P" "pos - 1 \<noteq> pos"
      using p pos by simp_all
    have lc: "l \<noteq> c"
      using children_distinct [OF inner dc p1(1) pos p1(2)] l c by simp
    have tl: "this \<noteq> l"
      using children_not_this [OF inner tn p1(1)] l by auto
    have ln: "l \<noteq> nullptr"
      using L by (rule deref_nonnull)
    have frame: "child_slots P i \<noteq> l \<and> child_slots P i \<noteq> c \<and> child_slots P i \<noteq> this"
      if "i \<le> num_items P" "i \<noteq> pos" "i \<noteq> pos - 1" for i
      using children_distinct [OF inner dc that(1) p1(1) that(3)]
        children_distinct [OF inner dc that(1) pos that(2)] children_not_this [OF inner tn that(1)]
        l c by simp
    let ?node = "if ip < to_left then l else c"
    let ?idx = "if ip < to_left then num_items L + ip + 1 else ip - to_left"
    from RebalanceChild_left_insert [OF P inner pcap p pos c l C L tl tc lc k full Lne ok valid
        to_left ip frame ord, of g]
    obtain g1 g2 where r: "RebalanceChild cfg h this pos ip = Some (g1, ?node, ?idx)"
      "inorder_keys g1 this = inorder_keys h this"
      "inorder_children g1 this = inorder_children h this"
      "(if leaf C then LeafInsert cfg g1 ?node ?idx x else InnerInsert cfg g1 ?node ?idx x g) = Some g2"
      "\<forall>p. p \<noteq> this \<and> p \<noteq> c \<and> p \<noteq> l \<longrightarrow> g2 p = h p"
      "inorder_keys g2 this
        = keys_before h P pos @ (take ip (keys_of C) @ x # drop ip (keys_of C)) @ keys_after h P pos"
      "\<not> leaf C \<longrightarrow> inorder_children g2 this
        = children_before h P pos
          @ (take (ip + 1) (children_of C) @ g # drop (ip + 1) (children_of C))
          @ children_after h P pos"
      by blast
    have 0: "?node \<noteq> nullptr \<longleftrightarrow> left_ok \<or> right_ok"
      using True ln cn by simp
    have 1: "(?node, ?idx) =
         (if left_ok
          then (if ip < to_left then (l, num_items L + ip + 1) else (c, ip - to_left))
          else (if num_items C - to_right < ip then (r, ip - (num_items C - to_right + 1))
                else (c, ip)))"
      using True by simp
    have 5: "\<forall>p. p \<noteq> this \<and> p \<noteq> c \<and> p \<noteq> (if left_ok then l else r) \<longrightarrow> g2 p = h p"
      using r(5) True by simp
    show ?thesis
      by (rule exI [of _ g1], rule exI [of _ ?node], rule exI [of _ ?idx])
         (use r(1) 0 1 r(2-4) 5 r(6,7) in blast)
  next
    case False
    have sk: "RebalanceChild cfg h this pos ip = RebalanceChild_right cfg h this pos ip c"
      using False left left_ok
      by (intro RebalanceChild_skip_left [OF P inner pcap pos c C, where L = L]) auto
    show ?thesis
    proof (cases right_ok)
      case nr: False
      have "RebalanceChild_right cfg h this pos ip c = Some (h, nullptr, 0)"
        using nr right right_ok
        by (intro RebalanceChild_right_fail [OF P inner pcap pos C, where R = R]) auto
      then have rr: "RebalanceChild cfg h this pos ip = Some (h, nullptr, 0)"
        by (simp only: sk)
      show ?thesis
        by (rule exI [of _ h], rule exI [of _ nullptr], rule exI [of _ 0])
           (use rr False nr in simp)
    next
      case True
      then have p: "pos < num_items P" and ok: "num_items R < MaxItems cfg R"
          "ip = 0 \<or> num_items R + 1 < MaxItems cfg R"
        using right_ok by simp_all
      note f = right [OF p]
      have r: "child_slots P (pos + 1) = r" and R: "deref h r = Some R"
        and k: "leaf R = leaf C" and Rne: "1 \<le> num_items R"
        using f by simp_all
      have p1: "pos + 1 \<le> num_items P"
        using p by simp
      have p2: "pos + 1 \<noteq> pos"
        by simp
      have rc: "r \<noteq> c"
        using children_distinct [OF inner dc p1 pos p2] r c by simp
      have tr: "this \<noteq> r"
        using children_not_this [OF inner tn p1] r by auto
      have rn: "r \<noteq> nullptr"
        using R by (rule deref_nonnull)
      have frame: "child_slots P i \<noteq> r \<and> child_slots P i \<noteq> c \<and> child_slots P i \<noteq> this"
        if "i \<le> num_items P" "i \<noteq> pos" "i \<noteq> pos + 1" for i
        using children_distinct [OF inner dc that(1) p1 that(3)]
          children_distinct [OF inner dc that(1) pos that(2)] children_not_this [OF inner tn that(1)]
          r c by simp
      let ?node = "if num_items C - to_right < ip then r else c"
      let ?idx = "if num_items C - to_right < ip then ip - (num_items C - to_right + 1) else ip"
      from RebalanceChild_right_insert [OF P inner pcap p c r C R tr tc rc k full Rne ok valid
          to_right ip frame ord, of g]
      obtain g1 g2 where q: "RebalanceChild cfg h this pos ip = Some (g1, ?node, ?idx)"
        "inorder_keys g1 this = inorder_keys h this"
        "inorder_children g1 this = inorder_children h this"
        "(if leaf C then LeafInsert cfg g1 ?node ?idx x else InnerInsert cfg g1 ?node ?idx x g) = Some g2"
        "\<forall>p. p \<noteq> this \<and> p \<noteq> c \<and> p \<noteq> r \<longrightarrow> g2 p = h p"
        "inorder_keys g2 this
          = keys_before h P pos @ (take ip (keys_of C) @ x # drop ip (keys_of C)) @ keys_after h P pos"
        "\<not> leaf C \<longrightarrow> inorder_children g2 this
          = children_before h P pos
            @ (take (ip + 1) (children_of C) @ g # drop (ip + 1) (children_of C))
            @ children_after h P pos"
        unfolding sk [symmetric] by blast
      have 0: "?node \<noteq> nullptr \<longleftrightarrow> left_ok \<or> right_ok"
        using True rn cn by simp
      have 1: "(?node, ?idx) =
           (if left_ok
            then (if ip < to_left then (l, num_items L + ip + 1) else (c, ip - to_left))
            else (if num_items C - to_right < ip then (r, ip - (num_items C - to_right + 1))
                  else (c, ip)))"
        using False by simp
      have 5: "\<forall>p. p \<noteq> this \<and> p \<noteq> c \<and> p \<noteq> (if left_ok then l else r) \<longrightarrow> g2 p = h p"
        using q(5) False by simp
      show ?thesis
        by (rule exI [of _ g1], rule exI [of _ ?node], rule exI [of _ ?idx])
           (use q(1) 0 1 q(2-4) 5 q(6,7) in blast)
    qed
  qed
  with io show ?thesis
    by (rule conjI)
qed

theorem C4_witness:
  "(\<exists>h' h''. RebalanceChild cfg64
        [1 \<mapsto> inner_node [40, 80] [2, 3, 4], 2 \<mapsto> leaf_node [10],
         3 \<mapsto> leaf_node [50, 60, 70], 4 \<mapsto> leaf_node [90, 100, 110]] 1 1 0 = Some (h', 2, 2)
      \<and> LeafInsert cfg64 h' 2 2 45 = Some h''
      \<and> inorder_keys h'' 1 = [10, 40, 45, 50, 60, 70, 80, 90, 100, 110])
   \<and> (\<exists>h' h''. RebalanceChild cfg64
        [1 \<mapsto> inner_node [40, 80] [2, 3, 4], 2 \<mapsto> inner_node [10] [11, 12],
         3 \<mapsto> inner_node [50, 60, 70] [13, 14, 15, 16],
         4 \<mapsto> inner_node [90, 100, 110] [17, 18, 19, 20]] 1 1 1 = Some (h', 3, 0)
      \<and> InnerInsert cfg64 h' 3 0 55 21 = Some h''
      \<and> inorder_keys h'' 1 = [10, 40, 50, 55, 60, 70, 80, 90, 100, 110]
      \<and> inorder_children h'' 1 = [11, 12, 13, 14, 21, 15, 16, 17, 18, 19, 20])"
proof -
  let ?P = "inner_node [40, 80] [2, 3, 4]"
  have P: "\<not> leaf ?P" "num_items ?P \<le> kMaxInnerKeys cfg64" "1 \<le> num_items ?P"
      "child_slots ?P 1 = 3"
    by (simp_all add: slots_def)
  have p0: "0 < (1::nat)" and l: "child_slots ?P (1 - 1) = 2"
    by (simp_all add: slots_def)
  have ne: "(1::nat) \<noteq> 2" "(1::nat) \<noteq> 3" "(2::nat) \<noteq> 3"
    by simp_all
  have dc: "distinct (children_of ?P)" and tn: "1 \<notin> set (children_of ?P)"
    by simp_all
  have valid: "layout_valid cfg64"
    by (simp add: layout_valid_def)
  have a: "\<exists>h' h''. RebalanceChild cfg64
        [1 \<mapsto> ?P, 2 \<mapsto> leaf_node [10],
         3 \<mapsto> leaf_node [50, 60, 70], 4 \<mapsto> leaf_node [90, 100, 110]] 1 1 0 = Some (h', 2, 2)
      \<and> LeafInsert cfg64 h' 2 2 45 = Some h''
      \<and> inorder_keys h'' 1 = [10, 40, 45, 50, 60, 70, 80, 90, 100, 110]"
  proof -
    let ?L = "leaf_node [10]"
    let ?C = "leaf_node [50, 60, 70]"
    let ?R = "leaf_node [90, 100, 110]"
    let ?h = "[1 \<mapsto> ?P, 2 \<mapsto> ?L, 3 \<mapsto> ?C, 4 \<mapsto> ?R]"
    have d: "deref ?h 1 = Some ?P" "deref ?h 3 = Some ?C" "deref ?h 2 = Some ?L"
      by (simp_all add: deref_def nullptr_def)
    have full: "num_items ?C = MaxItems cfg64 ?C" and Lne: "1 \<le> num_items ?L"
      and kind: "leaf ?L = leaf ?C"
      by (simp_all add: MaxItems_def)
    have left: "child_slots ?P (1 - 1) = 2 \<and> deref ?h 2 = Some ?L
          \<and> leaf ?L = leaf ?C \<and> 1 \<le> num_items ?L \<and> num_items ?L \<le> MaxItems cfg64 ?L"
      by (simp add: slots_def deref_def nullptr_def MaxItems_def)
    have right: "child_slots ?P (1 + 1) = 4 \<and> deref ?h 4 = Some ?R
          \<and> leaf ?R = leaf ?C \<and> 1 \<le> num_items ?R \<and> num_items ?R \<le> MaxItems cfg64 ?R"
      by (simp add: slots_def deref_def nullptr_def MaxItems_def)
    have kb: "keys_before ?h ?P 1 = [10, 40]" and ka: "keys_after ?h ?P 1 = [80, 90, 100, 110]"
      by (simp_all add: keys_before_def keys_after_def keys_at_def deref_def nullptr_def slots_def
          upt_conv_Cons)
    have ok: "num_items ?L < MaxItems cfg64 ?L"
        "0 = num_items ?C \<or> num_items ?L + 1 < MaxItems cfg64 ?L"
      and lo: "True \<longleftrightarrow> 0 < (1::nat) \<and> num_items ?L < MaxItems cfg64 ?L
          \<and> (0 = num_items ?C \<or> num_items ?L + 1 < MaxItems cfg64 ?L)"
      and tl: "1 = (if 0 = num_items ?C then MaxItems cfg64 ?L - num_items ?L
                    else (MaxItems cfg64 ?L - num_items ?L) div 2)"
      and ro: "False \<longleftrightarrow> 1 < num_items ?P \<and> num_items ?R < MaxItems cfg64 ?R
          \<and> ((0::nat) = 0 \<or> num_items ?R + 1 < MaxItems cfg64 ?R)"
      and tr: "0 = (if (0::nat) = 0 then MaxItems cfg64 ?R - num_items ?R
                    else (MaxItems cfg64 ?R - num_items ?R) div 2)"
      and ip: "0 \<le> num_items ?C"
      by (simp_all add: MaxItems_def)
    have ord: "NDEBUG cfg64 \<or> sorted_wrt (<)
        (keys_before ?h ?P 1 @ (take 0 (keys_of ?C) @ 45 # drop 0 (keys_of ?C)) @ keys_after ?h ?P 1)"
      unfolding kb ka by simp
    from C4_RebalanceChild_insert_slot [OF d(1) P d(2) full ip dc tn left right valid lo ro tl tr ord,
        of 0]
    obtain g1 node' ip' g2 where r: "RebalanceChild cfg64 ?h 1 1 0 = Some (g1, node', ip')"
        "(node', ip') =
           (if True then (if (0::nat) < 1 then (2, num_items ?L + 0 + 1) else (3, 0 - 1))
            else (if num_items ?C - 0 < 0 then (4, 0 - (num_items ?C - 0 + 1)) else (3, 0)))"
        "(if leaf ?C then LeafInsert cfg64 g1 node' ip' 45 else InnerInsert cfg64 g1 node' ip' 45 0)
           = Some g2"
        "inorder_keys g2 1
          = keys_before ?h ?P 1 @ (take 0 (keys_of ?C) @ 45 # drop 0 (keys_of ?C)) @ keys_after ?h ?P 1"
      by blast
    have e: "node' = 2" "ip' = 2"
      using r(2) by simp_all
    show ?thesis
      using r(1,3,4) unfolding e kb ka by simp
  qed
  have b: "\<exists>h' h''. RebalanceChild cfg64
        [1 \<mapsto> ?P, 2 \<mapsto> inner_node [10] [11, 12],
         3 \<mapsto> inner_node [50, 60, 70] [13, 14, 15, 16],
         4 \<mapsto> inner_node [90, 100, 110] [17, 18, 19, 20]] 1 1 1 = Some (h', 3, 0)
      \<and> InnerInsert cfg64 h' 3 0 55 21 = Some h''
      \<and> inorder_keys h'' 1 = [10, 40, 50, 55, 60, 70, 80, 90, 100, 110]
      \<and> inorder_children h'' 1 = [11, 12, 13, 14, 21, 15, 16, 17, 18, 19, 20]"
  proof -
    let ?L = "inner_node [10] [11, 12]"
    let ?C = "inner_node [50, 60, 70] [13, 14, 15, 16]"
    let ?R = "inner_node [90, 100, 110] [17, 18, 19, 20]"
    let ?h = "[1 \<mapsto> ?P, 2 \<mapsto> ?L, 3 \<mapsto> ?C, 4 \<mapsto> ?R]"
    have d: "deref ?h 1 = Some ?P" "deref ?h 3 = Some ?C" "deref ?h 2 = Some ?L"
      by (simp_all add: deref_def nullptr_def)
    have full: "num_items ?C = MaxItems cfg64 ?C" and Lne: "1 \<le> num_items ?L"
      and kind: "leaf ?L = leaf ?C"
      by (simp_all add: MaxItems_def)
    have left: "child_slots ?P (1 - 1) = 2 \<and> deref ?h 2 = Some ?L
          \<and> leaf ?L = leaf ?C \<and> 1 \<le> num_items ?L \<and> num_items ?L \<le> MaxItems cfg64 ?L"
      by (simp add: slots_def deref_def nullptr_def MaxItems_def)
    have right: "child_slots ?P (1 + 1) = 4 \<and> deref ?h 4 = Some ?R
          \<and> leaf ?R = leaf ?C \<and> 1 \<le> num_items ?R \<and> num_items ?R \<le> MaxItems cfg64 ?R"
      by (simp add: slots_def deref_def nullptr_def MaxItems_def)
    have kb: "keys_before ?h ?P 1 = [10, 40]" and ka: "keys_after ?h ?P 1 = [80, 90, 100, 110]"
      and cb: "children_before ?h ?P 1 = [11, 12]"
      and ca: "children_after ?h ?P 1 = [17, 18, 19, 20]"
      by (simp_all add: keys_before_def keys_after_def children_before_def children_after_def
          keys_at_def children_at_def deref_def nullptr_def slots_def upt_conv_Cons)
    have ok: "num_items ?L < MaxItems cfg64 ?L"
        "1 = num_items ?C \<or> num_items ?L + 1 < MaxItems cfg64 ?L"
      and lo: "True \<longleftrightarrow> 0 < (1::nat) \<and> num_items ?L < MaxItems cfg64 ?L
          \<and> (1 = num_items ?C \<or> num_items ?L + 1 < MaxItems cfg64 ?L)"
      and tl: "1 = (if 1 = num_items ?C then MaxItems cfg64 ?L - num_items ?L
                    else (MaxItems cfg64 ?L - num_items ?L) div 2)"
      and ro: "False \<longleftrightarrow> 1 < num_items ?P \<and> num_items ?R < MaxItems cfg64 ?R
          \<and> ((1::nat) = 0 \<or> num_items ?R + 1 < MaxItems cfg64 ?R)"
      and tr: "0 = (if (1::nat) = 0 then MaxItems cfg64 ?R - num_items ?R
                    else (MaxItems cfg64 ?R - num_items ?R) div 2)"
      and ip: "1 \<le> num_items ?C"
      by (simp_all add: MaxItems_def)
    have ord: "NDEBUG cfg64 \<or> sorted_wrt (<)
        (keys_before ?h ?P 1 @ (take 1 (keys_of ?C) @ 55 # drop 1 (keys_of ?C)) @ keys_after ?h ?P 1)"
      unfolding kb ka by simp
    from C4_RebalanceChild_insert_slot [OF d(1) P d(2) full ip dc tn left right valid lo ro tl tr ord,
        of 21]
    obtain g1 node' ip' g2 where r: "RebalanceChild cfg64 ?h 1 1 1 = Some (g1, node', ip')"
        "(node', ip') =
           (if True then (if (1::nat) < 1 then (2, num_items ?L + 1 + 1) else (3, 1 - 1))
            else (if num_items ?C - 0 < 1 then (4, 1 - (num_items ?C - 0 + 1)) else (3, 1)))"
        "(if leaf ?C then LeafInsert cfg64 g1 node' ip' 55 else InnerInsert cfg64 g1 node' ip' 55 21)
           = Some g2"
        "inorder_keys g2 1
          = keys_before ?h ?P 1 @ (take 1 (keys_of ?C) @ 55 # drop 1 (keys_of ?C)) @ keys_after ?h ?P 1"
        "\<not> leaf ?C \<longrightarrow> inorder_children g2 1
          = children_before ?h ?P 1
            @ (take (1 + 1) (children_of ?C) @ 21 # drop (1 + 1) (children_of ?C))
            @ children_after ?h ?P 1"
      by blast
    have e: "node' = 3" "ip' = 0"
      using r(2) by simp_all
    show ?thesis
      using r(1,3,4,5) unfolding e kb ka cb ca by simp
  qed
  show ?thesis
    using a b by (rule conjI)
qed

end
